(* ===== verification/Prelude.thy ===== *)
theory Prelude
  imports Main "HOL-Library.List_Lexorder" "HOL-Library.Char_ord" "HOL-Library.AList"
    "HOL-Library.Multiset"
begin

text \<open>
  Shared vocabulary of the development: results of code that may throw, JavaScript maps as
  insertion-ordered association lists (\<open>AList.update\<close> is \<open>Map.prototype.set\<close>: it replaces in
  place or appends), and the grouping loop several components of the code share.
\<close>

named_theorems result_iff \<open>when a computation that may throw returns\<close>

section \<open>Results\<close>

text \<open>A throwing computation is a sum: \<open>Inl\<close> the thrown error, \<open>Inr\<close> the returned value.\<close>

definition rbind :: "'e + 'a \<Rightarrow> ('a \<Rightarrow> 'e + 'b) \<Rightarrow> 'e + 'b" where
  "rbind m f = (case m of Inl e \<Rightarrow> Inl e | Inr x \<Rightarrow> f x)"

definition rmap :: "('a \<Rightarrow> 'b) \<Rightarrow> 'e + 'a \<Rightarrow> 'e + 'b" where
  "rmap f m = rbind m (\<lambda>x. Inr (f x))"

lemma rbind_simps [simp]:
  "rbind (Inl e) f = Inl e"
  "rbind (Inr x) f = f x"
  by (simp_all add: rbind_def)

lemma rmap_simps [simp]:
  "rmap f (Inl e) = Inl e"
  "rmap f (Inr x) = Inr (f x)"
  by (simp_all add: rmap_def)

lemma rbind_Inr_iff [result_iff]: "rbind m f = Inr y \<longleftrightarrow> (\<exists>x. m = Inr x \<and> f x = Inr y)"
  by (cases m) auto

lemma rbind_Inl_iff: "rbind m f = Inl e \<longleftrightarrow> m = Inl e \<or> (\<exists>x. m = Inr x \<and> f x = Inl e)"
  by (cases m) auto

lemma rmap_Inr_iff [result_iff]: "rmap f m = Inr y \<longleftrightarrow> (\<exists>x. m = Inr x \<and> y = f x)"
  by (cases m) auto

lemma rmap_Inl_iff [simp]: "rmap f m = Inl e \<longleftrightarrow> m = Inl e"
  by (cases m) auto

text \<open>\<open>array.map(f)\<close> with a throwing \<open>f\<close>, and the same over results already computed.\<close>

primrec sequenceR :: "('e + 'a) list \<Rightarrow> 'e + 'a list" where
  "sequenceR [] = Inr []"
| "sequenceR (m # ms) = rbind m (\<lambda>x. rmap ((#) x) (sequenceR ms))"

definition mapR :: "('a \<Rightarrow> 'e + 'b) \<Rightarrow> 'a list \<Rightarrow> 'e + 'b list" where
  "mapR f xs = sequenceR (map f xs)"

lemma mapR_simps [simp]:
  "mapR f [] = Inr []"
  "mapR f (x # xs) = rbind (f x) (\<lambda>y. rmap ((#) y) (mapR f xs))"
  by (simp_all add: mapR_def)

lemma sequenceR_Inr_iff [result_iff]: "sequenceR ms = Inr xs \<longleftrightarrow> ms = map Inr xs"
  by (induction ms arbitrary: xs) (auto simp: result_iff Cons_eq_map_conv)

lemma mapR_Inr_length: "mapR f xs = Inr ys \<Longrightarrow> length ys = length xs"
  by (induction xs arbitrary: ys) (auto simp: result_iff)

lemma mapR_Inr_nth: "mapR f xs = Inr ys \<Longrightarrow> i < length xs \<Longrightarrow> f (xs ! i) = Inr (ys ! i)"
  by (induction xs arbitrary: ys i) (auto simp: result_iff nth_Cons split: nat.splits)

lemma mapR_Inr_map: "(\<And>x. x \<in> set xs \<Longrightarrow> f x = Inr (g x)) \<Longrightarrow> mapR f xs = Inr (map g xs)"
  by (induction xs) auto

lemma mapR_append:
  "mapR f (xs @ ys) = rbind (mapR f xs) (\<lambda>us. rmap ((@) us) (mapR f ys))"
  by (induction xs) (auto simp: rmap_def rbind_def split: sum.splits)

lemma isr_InrE: "isl m \<or> (\<exists>x. m = Inr x)"
  by (cases m) auto

text \<open>A computation that may throw and changes a state: what has been changed before the throw stays.\<close>

definition sbind :: "('e + 'a) \<times> 's \<Rightarrow> ('a \<Rightarrow> 's \<Rightarrow> ('e + 'b) \<times> 's) \<Rightarrow> ('e + 'b) \<times> 's" where
  "sbind m f = (case m of (Inl e, s) \<Rightarrow> (Inl e, s) | (Inr x, s) \<Rightarrow> f x s)"

lemma sbind_simps [simp]:
  "sbind (Inl e, s) f = (Inl e, s)"
  "sbind (Inr x, s) f = f x s"
  by (simp_all add: sbind_def)

lemma sbind_Inr_iff [result_iff]: "sbind m f = (Inr y, s') \<longleftrightarrow> (\<exists>x s. m = (Inr x, s) \<and> f x s = (Inr y, s'))"
  by (cases m; cases "fst m") auto

section \<open>JavaScript maps\<close>

text \<open>
  \<open>Map.get\<close> is \<open>map_of\<close>, \<open>Map.set\<close> is \<open>AList.update\<close>. The keys of a map built by \<open>set\<close> are
  distinct and stand in the order of their first insertion, which \<open>for (const [k, v] of map)\<close>
  follows.
\<close>

lemma map_of_alist_update [simp]: "map_of (AList.update k v m) = (map_of m)(k \<mapsto> v)"
  by (simp add: update_conv')

lemma keys_update: "map fst (AList.update k v m) = (if k \<in> fst ` set m then map fst m else map fst m @ [k])"
  by (induction m) auto

lemma distinct_keys_update [simp]: "distinct (map fst m) \<Longrightarrow> distinct (map fst (AList.update k v m))"
  by (rule distinct_update)

lemma keyset_update [simp]: "fst ` set (AList.update k v m) = insert k (fst ` set m)"
  by (induction m) auto

lemma update_fresh: "k \<notin> fst ` set m \<Longrightarrow> AList.update k v m = m @ [(k, v)]"
  by (induction m) auto

section \<open>Grouping\<close>

text \<open>
  The loop that both \<open>#groupByStream\<close> methods, \<open>#groupByStore\<close> and the first half of
  \<open>LucidStore.write\<close> share: push onto the group of the key, or open a group.
\<close>

definition group_push :: "('a \<Rightarrow> 'k) \<Rightarrow> ('k \<times> 'a list) list \<Rightarrow> 'a \<Rightarrow> ('k \<times> 'a list) list" where
  "group_push key g x =
     (case map_of g (key x) of
        Some xs \<Rightarrow> AList.update (key x) (xs @ [x]) g
      | None \<Rightarrow> AList.update (key x) [x] g)"

definition group_by :: "('a \<Rightarrow> 'k) \<Rightarrow> 'a list \<Rightarrow> ('k \<times> 'a list) list" where
  "group_by key xs = foldl (group_push key) [] xs"

lemma group_by_Nil [simp]: "group_by key [] = []"
  by (simp add: group_by_def)

lemma group_by_snoc: "group_by key (xs @ [x]) = group_push key (group_by key xs) x"
  by (simp add: group_by_def)

lemma group_by_distinct [simp]: "distinct (map fst (group_by key xs))"
  by (induction xs rule: rev_induct) (auto simp: group_by_snoc group_push_def split: option.splits)

lemma group_by_lookup:
  "map_of (group_by key xs) k =
     (if k \<in> key ` set xs then Some (filter (\<lambda>x. key x = k) xs) else None)"
proof (induction xs rule: rev_induct)
  case Nil
  then show ?case by simp
next
  case (snoc x xs)
  then show ?case
    by (auto simp: group_by_snoc group_push_def filter_empty_conv image_iff
        simp del: map_of_eq_Some_iff split: option.splits if_splits)
qed

lemma group_by_keys [simp]: "fst ` set (group_by key xs) = key ` set xs"
  by (induction xs rule: rev_induct) (auto simp: group_by_snoc group_push_def split: option.splits)

lemma group_by_mem:
  assumes "(k, ys) \<in> set (group_by key xs)"
  shows "ys = filter (\<lambda>x. key x = k) xs" and "k \<in> key ` set xs" and "ys \<noteq> []"
proof -
  have "map_of (group_by key xs) k = Some ys"
    using assms by simp
  then show "ys = filter (\<lambda>x. key x = k) xs" and "k \<in> key ` set xs"
    by (simp_all add: group_by_lookup split: if_splits)
  then show "ys \<noteq> []"
    by (auto simp: filter_empty_conv)
qed

lemma mset_concat_update:
  "distinct (map fst m) \<Longrightarrow>
   mset (concat (map snd (AList.update k v m))) + (case map_of m k of None \<Rightarrow> {#} | Some u \<Rightarrow> mset u)
     = mset (concat (map snd m)) + mset v"
proof (induction m)
  case Nil
  then show ?case by simp
next
  case (Cons p m)
  then show ?case by (cases p) (auto simp: ac_simps split: option.splits)
qed

lemma group_by_mset: "mset (concat (map snd (group_by key xs))) = mset xs"
proof (induction xs rule: rev_induct)
  case Nil
  then show ?case by simp
next
  case (snoc x xs)
  let ?g = "group_by key xs"
  show ?case
  proof (cases "map_of ?g (key x)")
    case None
    then show ?thesis
      using snoc mset_concat_update [of ?g "key x" "[x]"]
      by (simp add: group_by_snoc group_push_def)
  next
    case (Some ys)
    then show ?thesis
      using snoc mset_concat_update [of ?g "key x" "ys @ [x]"]
      by (simp add: group_by_snoc group_push_def)
  qed
qed

declare map_of_eq_Some_iff [simp del]

end
