(* ===== verification/Errors.thy ===== *)
theory Errors
  imports Prelude
begin

text \<open>
  The error classes of \<open>src/core/errors.ts\<close>, each with its message, and the JavaScript errors
  the library's own code lets through (\<open>TypeError\<close> of \<open>JSON.stringify\<close>, \<open>SyntaxError\<close> of
  \<open>JSON.parse\<close>, a plain \<open>Error\<close>, and an error of code outside the library).
\<close>

datatype audit_error =
    AuditCanonicalError string
  | AuditCircularError string
  | AuditRedactionSaltError string
  | AuditImmutableError string
  | AuditCoupledTimeoutError string
  | AuditStoreError string
  | AuditConfigurationError string
  | AuditPeerDependencyError string
  | AuditStoreConnectionError string
  | AuditAnchorError string
  | AuditPipelineRejectedError string
  | AuditOutboxPayloadError string
  | AuditDroppedError string
  | AuditTransactionRequiredError string
  | AuditOutboxIntegrityError string
  | JsTypeError string
  | JsSyntaxError string
  | JsError string

type_synonym 'a result = "audit_error + 'a"

fun error_code :: "audit_error \<Rightarrow> string option" where
  "error_code (AuditCanonicalError m) = Some ''E_AUDIT_CANONICAL_INVALID_VALUE''"
| "error_code (AuditCircularError m) = Some ''E_AUDIT_CANONICAL_CIRCULAR''"
| "error_code (AuditRedactionSaltError m) = Some ''E_AUDIT_REDACTION_SALT_REQUIRED''"
| "error_code (AuditImmutableError m) = Some ''E_AUDIT_IMMUTABLE''"
| "error_code (AuditCoupledTimeoutError m) = Some ''E_AUDIT_COUPLED_TIMEOUT''"
| "error_code (AuditStoreError m) = Some ''E_AUDIT_STORE_ERROR''"
| "error_code (AuditConfigurationError m) = Some ''E_AUDIT_CONFIGURATION_ERROR''"
| "error_code (AuditPeerDependencyError m) = Some ''E_AUDIT_PEER_DEPENDENCY_MISSING''"
| "error_code (AuditStoreConnectionError m) = Some ''E_AUDIT_STORE_CONNECTION_NOT_SUPPORTED''"
| "error_code (AuditAnchorError m) = Some ''E_AUDIT_ANCHOR_HTTP_POST_FAILED''"
| "error_code (AuditPipelineRejectedError m) = Some ''E_AUDIT_PIPELINE_REJECTED''"
| "error_code (AuditOutboxPayloadError m) = Some ''E_AUDIT_OUTBOX_INVALID_PAYLOAD''"
| "error_code (AuditDroppedError m) = Some ''E_AUDIT_DROPPED''"
| "error_code (AuditTransactionRequiredError m) = Some ''E_AUDIT_TRANSACTION_REQUIRED''"
| "error_code (AuditOutboxIntegrityError m) = Some ''E_AUDIT_OUTBOX_INTEGRITY''"
| "error_code (JsTypeError m) = None"
| "error_code (JsSyntaxError m) = None"
| "error_code (JsError m) = None"

fun error_message :: "audit_error \<Rightarrow> string" where
  "error_message (AuditCanonicalError m) = m"
| "error_message (AuditCircularError m) = m"
| "error_message (AuditRedactionSaltError m) = m"
| "error_message (AuditImmutableError m) = m"
| "error_message (AuditCoupledTimeoutError m) = m"
| "error_message (AuditStoreError m) = m"
| "error_message (AuditConfigurationError m) = m"
| "error_message (AuditPeerDependencyError m) = m"
| "error_message (AuditStoreConnectionError m) = m"
| "error_message (AuditAnchorError m) = m"
| "error_message (AuditPipelineRejectedError m) = m"
| "error_message (AuditOutboxPayloadError m) = m"
| "error_message (AuditDroppedError m) = m"
| "error_message (AuditTransactionRequiredError m) = m"
| "error_message (AuditOutboxIntegrityError m) = m"
| "error_message (JsTypeError m) = m"
| "error_message (JsSyntaxError m) = m"
| "error_message (JsError m) = m"

text \<open>The default messages of the constructors that declare one.\<close>

definition redaction_salt_error :: audit_error where
  "redaction_salt_error = AuditRedactionSaltError ''Redaction mode \"hash\" requires a salt''"

definition immutable_error :: audit_error where
  "immutable_error =
     AuditImmutableError ''Audit records are immutable and cannot be modified or deleted''"

definition coupled_timeout_error :: audit_error where
  "coupled_timeout_error = AuditCoupledTimeoutError ''Request-coupled audit flush timed out''"

definition dropped_error :: audit_error where
  "dropped_error = AuditDroppedError ''Audit event was dropped by the pipeline''"

definition transaction_required_error :: audit_error where
  "transaction_required_error =
     AuditTransactionRequiredError
       ''Transactional audit delivery requires a caller-owned transaction''"

end
