(* ===== verification/JsValue.thy ===== *)
theory JsValue
  imports Errors
begin

text \<open>
  The JavaScript values the library handles: the \<open>unknown\<close> of its payloads. Strings are
  sequences of UTF-16 code units below 256 (\<open>char\<close> is the code unit), numbers are the integers
  a double represents exactly plus the three non-finite values, an object is its own enumerable
  string-keyed properties in the order \<open>Object.keys\<close> lists them, and an instance of a class
  carries the constructor's name, a function its name and its source text, the result of its \<open>toISO\<close> method when it has one (a luxon
  \<open>DateTime\<close>, whose \<open>toJSON\<close> is the same), and its own properties. A value is a finite tree:
  cyclic object graphs are not values of this type.
\<close>

datatype nonfinite = NaN | PosInfinity | NegInfinity

datatype jsval =
    JUndefined
  | JNull
  | JBool bool
  | JNum int
  | JNonFinite nonfinite
  | JStr string
  | JFunction string string
  | JSymbol string
  | JBigInt int
  | JDate int
  | JInst string "string option option" "(string \<times> jsval) list"
  | JArr "jsval list"
  | JObj "(string \<times> jsval) list"

type_synonym jsobj = "(string \<times> jsval) list"

section \<open>Digits\<close>

definition digit_char :: "nat \<Rightarrow> char" where
  "digit_char n = char_of (48 + n)"

definition char_code :: "char \<Rightarrow> nat" where
  "char_code c = of_char c"

definition is_digit :: "char \<Rightarrow> bool" where
  "is_digit c \<longleftrightarrow> 48 \<le> char_code c \<and> char_code c \<le> 57"

text \<open>Code equations that decide on the bits of the character.\<close>

lemma is_digit_code [code]:
  "is_digit (Char b0 b1 b2 b3 b4 b5 b6 b7) =
     (if b7 then False else if b6 then False else if b5 then if b4 then if b3 then if b2 then False
      else \<not> b1 else True else False else False)"
  by (cases b0; cases b1; cases b2; cases b3; cases b4; cases b5; cases b6; cases b7)
     (simp_all add: is_digit_def char_code_def of_char_def)

definition digit_val :: "char \<Rightarrow> nat" where
  "digit_val c = char_code c - 48"

fun nat_str :: "nat \<Rightarrow> string" where
  "nat_str n = (if n < 10 then [digit_char n] else nat_str (n div 10) @ [digit_char (n mod 10)])"

declare nat_str.simps [simp del]

lemma nat_str_lt: "n < 10 \<Longrightarrow> nat_str n = [digit_char n]"
  by (simp add: nat_str.simps)

lemma nat_str_ge: "10 \<le> n \<Longrightarrow> nat_str n = nat_str (n div 10) @ [digit_char (n mod 10)]"
  by (simp add: nat_str.simps)

definition int_str :: "int \<Rightarrow> string" where
  "int_str n = (if n < 0 then CHR ''-'' # nat_str (nat (- n)) else nat_str (nat n))"

definition str_nat :: "string \<Rightarrow> nat" where
  "str_nat s = foldl (\<lambda>n c. 10 * n + digit_val c) 0 s"

definition pad_left :: "nat \<Rightarrow> char \<Rightarrow> string \<Rightarrow> string" where
  "pad_left w c s = replicate (w - length s) c @ s"

lemma char_code_lt [simp]: "char_code c < 256"
  by (simp add: char_code_def)

lemma char_code_inject [simp]: "char_code c = char_code d \<longleftrightarrow> c = d"
  by (simp add: char_code_def)

lemma char_code_char_of [simp]: "char_code (char_of n) = n mod 256"
  by (simp add: char_code_def)

lemma char_of_char_code [simp]: "char_of (char_code c) = c"
  by (simp add: char_code_def)

lemma digit_char_digit [simp]: "n < 10 \<Longrightarrow> is_digit (digit_char n)"
  by (simp add: is_digit_def digit_char_def)

lemma digit_val_digit_char [simp]: "n < 10 \<Longrightarrow> digit_val (digit_char n) = n"
  by (simp add: digit_val_def digit_char_def)

lemma nat_str_digits: "list_all is_digit (nat_str n)"
  by (induction n rule: nat_str.induct) (simp add: nat_str.simps)

lemma nat_str_nonempty [simp]: "nat_str n \<noteq> []"
  by (subst nat_str.simps) simp

lemma str_nat_snoc: "str_nat (s @ [c]) = 10 * str_nat s + digit_val c"
  by (simp add: str_nat_def)

lemma str_nat_nat_str [simp]: "str_nat (nat_str n) = n"
proof (induction n rule: nat_str.induct)
  case (1 n)
  show ?case
  proof (cases "n < 10")
    case True
    then show ?thesis by (subst nat_str.simps) (simp add: str_nat_def)
  next
    case False
    then show ?thesis by (subst nat_str.simps) (simp add: str_nat_snoc 1)
  qed
qed

lemma zero_digit: "CHR ''0'' = digit_char 0"
  by code_simp

lemma digit_char_inject: "m < 10 \<Longrightarrow> n < 10 \<Longrightarrow> digit_char m = digit_char n \<longleftrightarrow> m = n"
  by (metis digit_val_digit_char)

lemma nat_str_hd: "hd (nat_str n) = CHR ''0'' \<longleftrightarrow> n = 0"
proof (induction n rule: nat_str.induct)
  case (1 n)
  then show ?case
    by (cases "n < 10") (subst nat_str.simps, simp add: zero_digit digit_char_inject)+
qed

lemma digit_char_digit_val: "is_digit c \<Longrightarrow> digit_char (digit_val c) = c"
  by (simp add: is_digit_def digit_char_def digit_val_def)

lemma digit_val_lt: "is_digit c \<Longrightarrow> digit_val c < 10"
  unfolding is_digit_def digit_val_def by arith

lemma str_nat_zero: "list_all is_digit s \<Longrightarrow> s \<noteq> [] \<Longrightarrow> hd s \<noteq> CHR ''0'' \<Longrightarrow> 0 < str_nat s"
proof (induction s rule: rev_induct)
  case Nil
  then show ?case by simp
next
  case (snoc c s)
  show ?case
  proof (cases "s = []")
    case True
    with snoc.prems have "c \<noteq> digit_char 0" "is_digit c" by (auto simp: zero_digit)
    then have "digit_val c \<noteq> 0" by (metis digit_char_digit_val)
    then show ?thesis using True by (simp add: str_nat_def)
  next
    case False
    then show ?thesis using snoc by (simp add: str_nat_snoc)
  qed
qed

text \<open>A string of digits without a leading zero is the decimal numeral of its value.\<close>

lemma nat_str_str_nat:
  "list_all is_digit s \<Longrightarrow> s \<noteq> [] \<Longrightarrow> hd s \<noteq> CHR ''0'' \<Longrightarrow> nat_str (str_nat s) = s"
proof (induction s rule: rev_induct)
  case Nil
  then show ?case by simp
next
  case (snoc c s)
  have c: "is_digit c" using snoc.prems by simp
  show ?case
  proof (cases "s = []")
    case True
    then show ?thesis using c
      by (subst nat_str.simps) (simp add: str_nat_def digit_val_lt digit_char_digit_val)
  next
    case False
    then have "0 < str_nat s" and "nat_str (str_nat s) = s"
      using snoc str_nat_zero by auto
    then show ?thesis using c digit_val_lt [OF c]
      by (subst nat_str.simps) (simp add: str_nat_snoc digit_char_digit_val)
  qed
qed

section \<open>Property order\<close>

text \<open>
  \<open>OrdinaryOwnPropertyKeys\<close>: the array-index keys in ascending numeric order, then the other
  string keys in the order of their creation. \<open>obj_put\<close> is \<open>CreateDataProperty\<close> (object
  literals, spread, \<open>JSON.parse\<close>). \<open>obj_assign\<close> is \<open>o[key] = value\<close> on an object whose prototype
  is \<open>Object.prototype\<close>: for the key \<open>__proto__\<close> the inherited setter runs and no own property
  is created.
\<close>

definition is_index_key :: "string \<Rightarrow> bool" where
  "is_index_key s \<longleftrightarrow>
     s = ''0'' \<or> (s \<noteq> [] \<and> list_all is_digit s \<and> hd s \<noteq> CHR ''0'' \<and> int (str_nat s) < 4294967295)"

fun insert_index :: "string \<Rightarrow> jsval \<Rightarrow> jsobj \<Rightarrow> jsobj" where
  "insert_index k v [] = [(k, v)]"
| "insert_index k v ((k', v') # o') =
     (if is_index_key k' \<and> str_nat k' < str_nat k then (k', v') # insert_index k v o'
      else (k, v) # (k', v') # o')"

definition obj_put :: "string \<Rightarrow> jsval \<Rightarrow> jsobj \<Rightarrow> jsobj" where
  "obj_put k v ob =
     (if k \<in> fst ` set ob then AList.update k v ob
      else if is_index_key k then insert_index k v ob
      else ob @ [(k, v)])"

definition obj_assign :: "string \<Rightarrow> jsval \<Rightarrow> jsobj \<Rightarrow> jsobj" where
  "obj_assign k v ob = (if k = ''__proto__'' then ob else obj_put k v ob)"

definition obj_of :: "jsobj \<Rightarrow> jsobj" where
  "obj_of ps = foldl (\<lambda>ob (k, v). obj_put k v ob) [] ps"

definition key_before :: "string \<Rightarrow> string \<Rightarrow> bool" where
  "key_before k k' \<longleftrightarrow> \<not> is_index_key k' \<or> (is_index_key k \<and> str_nat k < str_nat k')"

definition props_ok :: "jsobj \<Rightarrow> bool" where
  "props_ok ob \<longleftrightarrow> distinct (map fst ob) \<and> sorted_wrt key_before (map fst ob)"

lemma is_index_key_code [code]:
  "is_index_key s =
     (case s of [] \<Rightarrow> False
      | c # cs \<Rightarrow> if is_digit c then
          (if cs = [] then True else if c = CHR ''0'' then False
           else if list_all is_digit cs then int (str_nat s) < 4294967295 else False)
        else False)"
proof (cases s)
  case (Cons c cs)
  show ?thesis
  proof (cases "cs = [] \<and> is_digit c")
    case True
    then show ?thesis using digit_val_lt [of c] Cons
      by (simp add: is_index_key_def str_nat_def)
  next
    case False
    then show ?thesis using Cons zero_digit by (auto simp: is_index_key_def)
  qed
qed (simp add: is_index_key_def)

lemma is_index_key_inject:
  assumes "is_index_key a" "is_index_key b" "str_nat a = str_nat b"
  shows "a = b"
proof -
  have z: "nat_str (str_nat ''0'') = ''0''"
    by (subst nat_str.simps) (simp add: zero_digit str_nat_def)
  have "nat_str (str_nat s) = s" if "is_index_key s" for s
    using that z nat_str_str_nat [of s] by (auto simp: is_index_key_def)
  then show ?thesis using assms by metis
qed

lemma insert_index_set [simp]: "set (insert_index k v ob) = insert (k, v) (set ob)"
  by (induction k v ob rule: insert_index.induct) (auto split: if_splits)

lemma insert_index_lookup:
  "k \<notin> fst ` set ob \<Longrightarrow> map_of (insert_index k v ob) = (map_of ob)(k \<mapsto> v)"
  by (induction k v ob rule: insert_index.induct) (auto simp: fun_eq_iff)

lemma obj_put_keys [simp]: "fst ` set (obj_put k v ob) = insert k (fst ` set ob)"
  by (auto simp: obj_put_def image_iff)

lemma obj_put_lookup [simp]: "map_of (obj_put k v ob) = (map_of ob)(k \<mapsto> v)"
  by (auto simp: obj_put_def insert_index_lookup map_add_def fun_eq_iff split: option.splits)
     (metis map_of_eq_None_iff option.distinct(1))

lemma obj_assign_lookup [simp]:
  "map_of (obj_assign k v ob) = (if k = ''__proto__'' then map_of ob else (map_of ob)(k \<mapsto> v))"
  by (simp add: obj_assign_def)

lemma key_before_trans: "key_before a b \<Longrightarrow> key_before b c \<Longrightarrow> key_before a c"
  by (auto simp: key_before_def)

text \<open>Every write keeps the property order.\<close>

lemma insert_index_ok:
  assumes "is_index_key k" "k \<notin> fst ` set ob" "props_ok ob"
  shows "props_ok (insert_index k v ob)"
  using assms
proof (induction k v ob rule: insert_index.induct)
  case (1 k v)
  then show ?case by (simp add: props_ok_def)
next
  case (2 k v k' v' ob)
  show ?case
  proof (cases "is_index_key k' \<and> str_nat k' < str_nat k")
    case True
    with 2 have "props_ok (insert_index k v ob)"
      by (auto simp: props_ok_def)
    then show ?thesis
      using True 2 by (auto simp: props_ok_def key_before_def)
  next
    case False
    then have kb: "key_before k k'"
      using 2 is_index_key_inject [of k k'] by (fastforce simp: key_before_def)
    then have "key_before k x" if "x \<in> fst ` set ob" for x
      using that 2 by (auto simp: props_ok_def intro: key_before_trans)
    then show ?thesis
      using False kb 2 by (auto simp: props_ok_def)
  qed
qed

lemma obj_put_ok: "props_ok ob \<Longrightarrow> props_ok (obj_put k v ob)"
proof (cases "k \<in> fst ` set ob")
  case True
  then show "props_ok ob \<Longrightarrow> props_ok (obj_put k v ob)"
    by (simp add: obj_put_def props_ok_def keys_update)
next
  case False
  then show "props_ok ob \<Longrightarrow> props_ok (obj_put k v ob)"
    by (auto simp: obj_put_def insert_index_ok)
       (auto simp: props_ok_def sorted_wrt_append key_before_def)
qed

lemma obj_assign_ok: "props_ok ob \<Longrightarrow> props_ok (obj_assign k v ob)"
  by (simp add: obj_assign_def obj_put_ok)

lemma props_ok_Nil [simp]: "props_ok []"
  by (simp add: props_ok_def)

lemma props_ok_ConsD: "props_ok (p # ob) \<Longrightarrow> props_ok ob"
  by (simp add: props_ok_def)

text \<open>Creating the properties of an ordered object one after the other gives the object back.\<close>

lemma insert_index_last:
  "(\<And>k'. k' \<in> fst ` set ob \<Longrightarrow> key_before k' k) \<Longrightarrow> is_index_key k \<Longrightarrow> insert_index k v ob = ob @ [(k, v)]"
  by (induction k v ob rule: insert_index.induct) (auto simp: key_before_def)

lemma obj_put_last: "props_ok (ob @ [(k, v)]) \<Longrightarrow> obj_put k v ob = ob @ [(k, v)]"
  by (auto simp: obj_put_def props_ok_def sorted_wrt_append intro!: insert_index_last)

lemma props_ok_appendD: "props_ok (xs @ ys) \<Longrightarrow> props_ok xs"
  by (simp add: props_ok_def sorted_wrt_append)

lemma obj_of_snoc: "obj_of (xs @ [(k, v)]) = obj_put k v (obj_of xs)"
  by (simp add: obj_of_def)

lemma obj_of_ok [simp]: "props_ok ob \<Longrightarrow> obj_of ob = ob"
proof (induction ob rule: rev_induct)
  case Nil
  then show ?case by (simp add: obj_of_def)
next
  case (snoc p ob)
  then show ?case
    by (cases p) (simp add: obj_of_snoc obj_put_last props_ok_appendD [of ob])
qed

lemma props_ok_obj_of [simp]: "props_ok (obj_of ps)"
proof (induction ps rule: rev_induct)
  case Nil
  then show ?case by (simp add: obj_of_def)
next
  case (snoc p ps)
  then show ?case by (cases p) (simp add: obj_of_snoc obj_put_ok)
qed

end
