(* ===== verification/JsDate.thy ===== *)
theory JsDate
  imports JsValue
begin

text \<open>
  \<open>Date.prototype.toISOString\<close> on time values (milliseconds since the epoch), with the
  day/year arithmetic of the ECMAScript specification, and the fact that the code's string
  comparison of such texts is the comparison of the instants.
\<close>

definition ms_per_day :: int where
  "ms_per_day = 24 * 60 * 60 * 1000"

definition day_from_year :: "int \<Rightarrow> int" where
  "day_from_year y = 365 * (y - 1970) + (y - 1969) div 4 - (y - 1901) div 100 + (y - 1601) div 400"

definition year_from_day :: "int \<Rightarrow> int" where
  "year_from_day d =
     (let y = 1970 + (400 * d) div 146097
      in if d < day_from_year y then y - 1
         else if day_from_year (y + 1) \<le> d then y + 1 else y)"

definition is_leap :: "int \<Rightarrow> bool" where
  "is_leap y \<longleftrightarrow> day_from_year (y + 1) - day_from_year y = 366"

definition month_start :: "bool \<Rightarrow> nat \<Rightarrow> int" where
  "month_start leap m =
     ([0, 31, 59, 90, 120, 151, 181, 212, 243, 273, 304, 334] ! m)
       + (if leap \<and> 2 \<le> m then 1 else 0)"

text \<open>The month (0 to 11) a day of the year falls in: the last one that starts by then.\<close>

definition month_of :: "bool \<Rightarrow> int \<Rightarrow> nat" where
  "month_of leap doy = length (filter (\<lambda>m. month_start leap m \<le> doy) [1, 2, 3, 4, 5, 6, 7, 8, 9, 10, 11])"

definition num_w :: "nat \<Rightarrow> int \<Rightarrow> string" where
  "num_w w n = pad_left w CHR ''0'' (nat_str (nat n))"

definition year_str :: "int \<Rightarrow> string" where
  "year_str y =
     (if 0 \<le> y \<and> y \<le> 9999 then num_w 4 y
      else if y < 0 then CHR ''-'' # num_w 6 (- y) else CHR ''+'' # num_w 6 y)"

definition iso_date :: "int \<Rightarrow> string" where
  "iso_date d =
     (let y = year_from_day d; doy = d - day_from_year y; leap = is_leap y; m = month_of leap doy
      in year_str y @ ''-'' @ num_w 2 (int m + 1) @ ''-'' @ num_w 2 (doy - month_start leap m + 1))"

definition iso_time :: "int \<Rightarrow> string" where
  "iso_time t =
     num_w 2 (t div 3600000) @ '':'' @ num_w 2 (t div 60000 mod 60) @ '':''
       @ num_w 2 (t div 1000 mod 60) @ ''.'' @ num_w 3 (t mod 1000)"

definition toISOString :: "int \<Rightarrow> string" where
  "toISOString t = iso_date (t div ms_per_day) @ ''T'' @ iso_time (t mod ms_per_day) @ ''Z''"

section \<open>Years and months\<close>

lemma div_bounds:
  fixes n :: int
  shows "numeral k * (n div numeral k) \<le> n" and "n < numeral k * (n div numeral k) + numeral k"
proof -
  have "numeral k * (n div numeral k) + n mod numeral k = n" by simp
  moreover have "0 \<le> n mod numeral k" "n mod numeral k < numeral k" by simp_all
  ultimately show "numeral k * (n div numeral k) \<le> n"
    and "n < numeral k * (n div numeral k) + numeral k" by linarith+
qed

lemma div_succ:
  fixes n k :: int
  assumes "0 < k"
  shows "(n + 1) div k = n div k + (if (n + 1) mod k = 0 then 1 else 0)"
proof -
  define q r where "q = n div k" and "r = n mod k"
  have n: "n = k * q + r" and r: "0 \<le> r" "r < k"
    using assms by (simp_all add: q_def r_def)
  show ?thesis
  proof (cases "r + 1 = k")
    case True
    then have e: "n + 1 = k * (q + 1)" using n by (simp add: algebra_simps)
    show ?thesis unfolding q_def [symmetric] e using assms by simp
  next
    case False
    then have "n + 1 = k * q + (r + 1)" "0 \<le> r + 1" "r + 1 < k" using n r by auto
    then have "(n + 1) div k = q" "(n + 1) mod k = r + 1"
      by (metis int_div_pos_eq, metis int_mod_pos_eq)
    then show ?thesis using r by (simp add: q_def)
  qed
qed

lemma year_from_day_bounds:
  "day_from_year (year_from_day d) \<le> d \<and> d < day_from_year (year_from_day d + 1)"
proof -
  define q where "q = (400 * d) div 146097"
  have bounds: "146097 * q \<le> 400 * d" "400 * d < 146097 * q + 146097"
    unfolding q_def by (rule div_bounds)+
  have lo: "day_from_year (q + 1969) \<le> d"
  proof -
    define a b c where "a = q div 4" and "b = (q + 68) div 100" and "c = (q + 368) div 400"
    have "4 * a \<le> q" "q + 68 < 100 * b + 100" "400 * c \<le> q + 368"
      unfolding a_def b_def c_def by (rule div_bounds)+
    moreover have "day_from_year (q + 1969) = 365 * q - 365 + a - b + c"
      by (simp add: day_from_year_def a_def b_def c_def add.commute)
    ultimately show ?thesis using bounds by linarith
  qed
  have hi: "d < day_from_year (q + 1972)"
  proof -
    define a b c where "a = (q + 3) div 4" and "b = (q + 71) div 100" and "c = (q + 371) div 400"
    have "q + 3 < 4 * a + 4" "100 * b \<le> q + 71" "q + 371 < 400 * c + 400"
      unfolding a_def b_def c_def by (rule div_bounds)+
    moreover have "day_from_year (q + 1972) = 365 * q + 730 + a - b + c"
      by (simp add: day_from_year_def a_def b_def c_def add.commute)
    ultimately show ?thesis using bounds by linarith
  qed
  define y where "y = 1970 + q"
  have "day_from_year (y - 1) \<le> d" and "d < day_from_year (y + 1 + 1)"
    using lo hi by (simp_all add: y_def add.commute)
  then show ?thesis
    unfolding year_from_day_def q_def [symmetric] y_def [symmetric] Let_def by auto
qed

lemma day_from_year_mono1: "day_from_year y + 365 \<le> day_from_year (y + 1) \<and>
    day_from_year (y + 1) \<le> day_from_year y + 366"
proof -
  have four: "(y + 1 - 1969) div 4 = (y - 1969) div 4 + (if (y - 1968) mod 4 = 0 then 1 else 0)"
    using div_succ [of 4 "y - 1969"] by (simp add: algebra_simps)
  have hundred: "(y + 1 - 1901) div 100 = (y - 1901) div 100 + (if (y - 1900) mod 100 = 0 then 1 else 0)"
    using div_succ [of 100 "y - 1901"] by (simp add: algebra_simps)
  have fourhundred: "(y + 1 - 1601) div 400 = (y - 1601) div 400 + (if (y - 1600) mod 400 = 0 then 1 else 0)"
    using div_succ [of 400 "y - 1601"] by (simp add: algebra_simps)
  have "(y - 1900) mod 100 = 0" if "(y - 1600) mod 400 = 0"
  proof -
    from that obtain c where "y - 1600 = 400 * c" by auto
    then have "y - 1900 = 100 * (4 * c - 3)" by simp
    then show ?thesis by (metis mod_mult_self1_is_0)
  qed
  moreover have "(y - 1968) mod 4 = 0" if "(y - 1900) mod 100 = 0"
  proof -
    from that obtain c where "y - 1900 = 100 * c" by auto
    then have "y - 1968 = 4 * (25 * c - 17)" by simp
    then show ?thesis by (metis mod_mult_self1_is_0)
  qed
  ultimately show ?thesis
    unfolding day_from_year_def four hundred fourhundred by (auto split: if_splits)
qed

lemma day_from_year_mono: "y \<le> z \<Longrightarrow> day_from_year y \<le> day_from_year z"
proof (induction z rule: int_ge_induct)
  case base
  then show ?case by simp
next
  case (step z)
  then show ?case using day_from_year_mono1 [of z] by simp
qed

lemma year_from_day_mono: "d \<le> e \<Longrightarrow> year_from_day d \<le> year_from_day e"
proof (rule ccontr)
  assume "d \<le> e" "\<not> year_from_day d \<le> year_from_day e"
  then have "day_from_year (year_from_day e + 1) \<le> day_from_year (year_from_day d)"
    by (intro day_from_year_mono) simp
  then show False
    using year_from_day_bounds [of d] year_from_day_bounds [of e] \<open>d \<le> e\<close> by simp
qed

text \<open>Day of year and the twelve month starts.\<close>

lemma month_of_cases:
  assumes "0 \<le> doy" "doy < (if leap then 366 else 365)"
  shows "month_of leap doy < 12 \<and> month_start leap (month_of leap doy) \<le> doy
    \<and> doy < month_start leap (month_of leap doy) + 31"
  using assms by (cases leap) (auto simp: month_of_def month_start_def)

lemma length_filter_mono: "(\<And>x. P x \<Longrightarrow> Q x) \<Longrightarrow> length (filter P xs) \<le> length (filter Q xs)"
  by (induction xs) (auto intro: le_SucI)

lemma month_of_mono: "d \<le> e \<Longrightarrow> month_of leap d \<le> month_of leap e"
  unfolding month_of_def by (rule length_filter_mono) simp

section \<open>Order of fixed-width texts\<close>

lemma append_less_append:
  fixes u v :: "'a::linorder list"
  shows "length u = length v \<Longrightarrow> u @ x < v @ y \<longleftrightarrow> u < v \<or> (u = v \<and> x < y)"
  by (induction u v rule: list_induct2) auto

fun fix_digits :: "nat \<Rightarrow> nat \<Rightarrow> string" where
  "fix_digits 0 n = []"
| "fix_digits (Suc w) n = fix_digits w (n div 10) @ [digit_char (n mod 10)]"

lemma length_fix_digits [simp]: "length (fix_digits w n) = w"
  by (induction w arbitrary: n) auto

lemma fix_digits_zero: "fix_digits w 0 = replicate w CHR ''0''"
  by (induction w) (simp_all add: zero_digit replicate_append_same)

lemma length_nat_str: "n < 10 ^ w \<Longrightarrow> 0 < w \<Longrightarrow> length (nat_str n) \<le> w"
proof (induction w arbitrary: n)
  case 0
  then show ?case by simp
next
  case (Suc w)
  show ?case
  proof (cases "n < 10")
    case True
    then show ?thesis by (simp add: nat_str_lt)
  next
    case False
    moreover have "0 < w" using False Suc.prems by (cases w) auto
    ultimately show ?thesis using Suc.IH [of "n div 10"] Suc.prems by (simp add: nat_str_ge)
  qed
qed

lemma pad_fix_digits: "n < 10 ^ w \<Longrightarrow> 0 < w \<Longrightarrow> pad_left w CHR ''0'' (nat_str n) = fix_digits w n"
proof (induction w arbitrary: n)
  case 0
  then show ?case by simp
next
  case (Suc w)
  show ?case
  proof (cases "n < 10")
    case True
    then show ?thesis by (simp add: nat_str_lt pad_left_def fix_digits_zero)
  next
    case False
    moreover have "0 < w" using False Suc.prems by (cases w) auto
    ultimately show ?thesis
      using Suc.IH [of "n div 10"] Suc.prems by (simp add: nat_str_ge pad_left_def)
  qed
qed

lemma digit_char_less: "m < 10 \<Longrightarrow> n < 10 \<Longrightarrow> digit_char m < digit_char n \<longleftrightarrow> m < n"
  by (simp add: digit_char_def less_char_def)

lemma div_mod_less_iff: "(m::nat) < n \<longleftrightarrow> m div k < n div k \<or> (m div k = n div k \<and> m mod k < n mod k)"
proof
  assume "m < n"
  then have "m div k \<le> n div k" by (simp add: div_le_mono)
  moreover have "m mod k < n mod k" if "m div k = n div k"
    using \<open>m < n\<close> that by (metis div_mult_mod_eq nat_add_left_cancel_less)
  ultimately show "m div k < n div k \<or> (m div k = n div k \<and> m mod k < n mod k)" by linarith
next
  assume "m div k < n div k \<or> (m div k = n div k \<and> m mod k < n mod k)"
  then show "m < n"
  proof
    assume "m div k < n div k"
    then show "m < n" by (meson div_le_mono leD not_less)
  next
    assume "m div k = n div k \<and> m mod k < n mod k"
    then show "m < n"
      by (metis div_mult_mod_eq nat_add_left_cancel_less)
  qed
qed

lemma fix_digits_less:
  "m < 10 ^ w \<Longrightarrow> n < 10 ^ w \<Longrightarrow>
    (fix_digits w m < fix_digits w n \<longleftrightarrow> m < n) \<and> (fix_digits w m = fix_digits w n \<longleftrightarrow> m = n)"
proof (induction w arbitrary: m n)
  case 0
  then show ?case by simp
next
  case (Suc w)
  then have "m div 10 < 10 ^ w" "n div 10 < 10 ^ w" by auto
  note IH = Suc.IH [OF this]
  have "m = n \<longleftrightarrow> m div 10 = n div 10 \<and> m mod 10 = n mod 10"
    by (metis div_mult_mod_eq)
  then show ?case
    using IH div_mod_less_iff [of m n 10]
    by (simp add: append_less_append digit_char_less digit_char_inject)
qed

lemma num_w_less: "0 \<le> m \<Longrightarrow> m < n \<Longrightarrow> n < 10 ^ w \<Longrightarrow> 0 < w \<Longrightarrow> num_w w m < num_w w n"
  using fix_digits_less [of "nat m" w "nat n"]
  by (simp add: num_w_def pad_fix_digits nat_less_iff)

lemma length_num_w [simp]: "0 \<le> n \<Longrightarrow> n < 10 ^ w \<Longrightarrow> 0 < w \<Longrightarrow> length (num_w w n) = w"
  by (simp add: num_w_def pad_fix_digits nat_less_iff)

section \<open>ISO texts compare like instants\<close>

text \<open>
  The years that \<open>toISOString\<close> writes with four digits. Outside them the text starts with a
  sign and the comparison of texts is no longer chronological.
\<close>

definition four_digit_year :: "int \<Rightarrow> bool" where
  "four_digit_year t \<longleftrightarrow> 0 \<le> year_from_day (t div ms_per_day) \<and> year_from_day (t div ms_per_day) \<le> 9999"

lemma int_div_mod_less:
  fixes a b k :: int
  assumes "a < b" "0 < k"
  shows "a div k < b div k \<or> (a div k = b div k \<and> a mod k < b mod k)"
proof (cases "a div k = b div k")
  case True
  then have "a mod k < b mod k"
    using assms(1) by (metis add_less_cancel_left div_mult_mod_eq)
  then show ?thesis using True by simp
next
  case False
  then show ?thesis using zdiv_mono1 [of a b k] assms by simp
qed

lemma iso_time_parts:
  assumes "0 \<le> t" "t < ms_per_day"
  shows "0 \<le> t div 3600000" "t div 3600000 < 100"
proof -
  have "3600000 * (t div 3600000) \<le> t" by (rule div_bounds)
  then show "t div 3600000 < 100" using assms(2) by (simp add: ms_per_day_def)
  show "0 \<le> t div 3600000" using assms(1) by (simp add: pos_imp_zdiv_nonneg_iff)
qed

lemma pos_mod_lt_100: "0 \<le> (x::int) mod 60" "x mod 60 < 100"
  using pos_mod_bound [of 60 x] by simp_all

text \<open>Hours, minutes, seconds and milliseconds, compared from the left.\<close>

lemma time_fields_less:
  fixes t u :: int
  assumes "t < u"
  shows "t div 3600000 < u div 3600000 \<or> t div 3600000 = u div 3600000 \<and>
    (t div 60000 mod 60 < u div 60000 mod 60 \<or> t div 60000 mod 60 = u div 60000 mod 60 \<and>
      (t div 1000 mod 60 < u div 1000 mod 60 \<or> t div 1000 mod 60 = u div 1000 mod 60 \<and>
        t mod 1000 < u mod 1000))"
proof -
  define a where "a x = x div 1000" for x :: int
  define b where "b x = x div 60000" for x :: int
  define c where "c x = x div 3600000" for x :: int
  have b: "b x = a x div 60" and c: "c x = b x div 60" for x
    by (simp_all only: a_def b_def c_def flip: zdiv_zmult2_eq) simp_all
  have "a t < a u \<or> a t = a u \<and> t mod 1000 < u mod 1000"
    using int_div_mod_less [OF assms, of 1000] by (simp add: a_def)
  moreover have "b t < b u \<or> b t = b u \<and> a t mod 60 < a u mod 60" if "a t < a u"
    using int_div_mod_less [OF that, of 60] by (simp add: b)
  moreover have "c t < c u \<or> c t = c u \<and> b t mod 60 < b u mod 60" if "b t < b u"
    using int_div_mod_less [OF that, of 60] by (simp add: c)
  moreover have "b t = b u" if "a t = a u" using that by (simp add: b)
  moreover have "c t = c u" if "b t = b u" using that by (simp add: c)
  ultimately show ?thesis
    unfolding a_def [symmetric] b_def [symmetric] c_def [symmetric] by argo
qed

text \<open>A fixed-width field decides, or is equal and the rest decides.\<close>

lemma num_field_less:
  assumes "m < n \<or> (m = n \<and> x < y)" "0 \<le> m" "0 \<le> n" "m < 10 ^ w" "n < 10 ^ w" "0 < w"
  shows "num_w w m @ x < num_w w n @ y"
proof -
  have "length (num_w w m) = length (num_w w n)" using assms by simp
  then show ?thesis using assms num_w_less [of m n w] append_less_append by blast
qed

lemma sep_less: "x < y \<Longrightarrow> [c] @ x < [c] @ y" for x y :: string
  by simp

lemma iso_time_less:
  assumes "0 \<le> t" "t < u" "u < ms_per_day"
  shows "iso_time t < iso_time u"
proof -
  have tu: "0 \<le> t" "t < ms_per_day" "0 \<le> u" "u < ms_per_day" using assms by auto
  note parts = iso_time_parts [OF tu(1,2)] iso_time_parts [OF tu(3,4)]
  note fields = time_fields_less [OF assms(2)]
  have ms: "''.'' @ num_w 3 (t mod 1000) < ''.'' @ num_w 3 (u mod 1000)" if "t mod 1000 < u mod 1000"
    by (intro sep_less num_w_less that) simp_all
  have s: "'':'' @ num_w 2 (t div 1000 mod 60) @ ''.'' @ num_w 3 (t mod 1000)
      < '':'' @ num_w 2 (u div 1000 mod 60) @ ''.'' @ num_w 3 (u mod 1000)"
    if "t div 1000 mod 60 < u div 1000 mod 60
      \<or> t div 1000 mod 60 = u div 1000 mod 60 \<and> t mod 1000 < u mod 1000"
    by (intro sep_less num_field_less) ((use that ms in blast)?, use pos_mod_lt_100 in simp_all)
  have m: "'':'' @ num_w 2 (t div 60000 mod 60) @ '':'' @ num_w 2 (t div 1000 mod 60) @ ''.'' @ num_w 3 (t mod 1000)
      < '':'' @ num_w 2 (u div 60000 mod 60) @ '':'' @ num_w 2 (u div 1000 mod 60) @ ''.'' @ num_w 3 (u mod 1000)"
    if "t div 60000 mod 60 < u div 60000 mod 60 \<or> t div 60000 mod 60 = u div 60000 mod 60 \<and>
      (t div 1000 mod 60 < u div 1000 mod 60
        \<or> t div 1000 mod 60 = u div 1000 mod 60 \<and> t mod 1000 < u mod 1000)"
    by (intro sep_less num_field_less) ((use that s in blast)?, use pos_mod_lt_100 in simp_all)
  show ?thesis
    unfolding iso_time_def
    by (rule num_field_less) ((use fields m in blast)?, use parts in simp_all)
qed

lemma iso_date_parts:
  fixes d :: int
  defines "y \<equiv> year_from_day d"
  defines "doy \<equiv> d - day_from_year y"
  defines "m \<equiv> month_of (is_leap y) doy"
  shows "0 \<le> doy" "m < 12" "0 \<le> doy - month_start (is_leap y) m"
    "doy - month_start (is_leap y) m < 31"
proof -
  have b: "0 \<le> doy" "doy < (if is_leap y then 366 else 365)"
    using year_from_day_bounds [of d] day_from_year_mono1 [of y]
    by (auto simp: doy_def y_def is_leap_def)
  then show "0 \<le> doy" by simp
  show "m < 12" "0 \<le> doy - month_start (is_leap y) m" "doy - month_start (is_leap y) m < 31"
    using month_of_cases [OF b] by (auto simp: m_def)
qed

lemma iso_date_less:
  assumes "d < e" "0 \<le> year_from_day d" "year_from_day e \<le> 9999"
  shows "iso_date d < iso_date e"
proof -
  define y z where "y = year_from_day d" and "z = year_from_day e"
  define m n where "m = month_of (is_leap y) (d - day_from_year y)"
    and "n = month_of (is_leap z) (e - day_from_year z)"
  define a b where "a = d - day_from_year y - month_start (is_leap y) m"
    and "b = e - day_from_year z - month_start (is_leap z) n"
  have yz: "0 \<le> y" "y \<le> z" "z \<le> 9999"
    using assms year_from_day_mono [of d e] by (auto simp: y_def z_def)
  have mn: "m < 12" "0 \<le> a" "a < 31" "n < 12" "0 \<le> b" "b < 31"
    using iso_date_parts [of d] iso_date_parts [of e]
    by (simp_all add: m_def n_def a_def b_def y_def z_def)
  have day: "num_w 2 (a + 1) < num_w 2 (b + 1)" if "a < b"
    using that mn by (intro num_w_less) auto
  have month: "num_w 2 (int m + 1) @ ''-'' @ num_w 2 (a + 1) < num_w 2 (int n + 1) @ ''-'' @ num_w 2 (b + 1)"
    if "m < n \<or> m = n \<and> a < b"
    by (rule num_field_less) (use that day mn in auto)
  have "y < z \<or> y = z \<and> (m < n \<or> m = n \<and> a < b)"
  proof (cases "y = z")
    case True
    then have "m \<le> n" using assms(1) by (auto simp: m_def n_def intro!: month_of_mono)
    moreover have "a < b" if "m = n" using that True assms(1) by (simp add: a_def b_def)
    ultimately show ?thesis using True by linarith
  qed (use yz in simp)
  then have "num_w 4 y @ ''-'' @ num_w 2 (int m + 1) @ ''-'' @ num_w 2 (a + 1)
      < num_w 4 z @ ''-'' @ num_w 2 (int n + 1) @ ''-'' @ num_w 2 (b + 1)"
    by (intro num_field_less) (use yz month in auto)
  then show ?thesis
    using yz by (simp add: iso_date_def Let_def year_str_def y_def [symmetric] z_def [symmetric]
        m_def [symmetric] n_def [symmetric] a_def [symmetric] b_def [symmetric])
qed

lemma length_iso_date:
  assumes "0 \<le> year_from_day d" "year_from_day d \<le> 9999"
  shows "length (iso_date d) = 10"
  using assms iso_date_parts [of d] by (simp add: iso_date_def Let_def year_str_def)

theorem toISOString_less_iff:
  assumes "four_digit_year t" "four_digit_year u"
  shows "toISOString t < toISOString u \<longleftrightarrow> t < u"
proof -
  have less: "toISOString t < toISOString u" if tu: "t < u" "four_digit_year t" "four_digit_year u" for t u
  proof -
    let ?d = "t div ms_per_day" and ?e = "u div ms_per_day"
    have ms: "0 < ms_per_day" by (simp add: ms_per_day_def)
    have len: "length (iso_date ?d) = length (iso_date ?e)"
      using tu by (simp add: four_digit_year_def length_iso_date)
    have "iso_date ?d < iso_date ?e" if "?d < ?e"
      using that tu by (intro iso_date_less) (auto simp: four_digit_year_def)
    moreover have "iso_time (t mod ms_per_day) < iso_time (u mod ms_per_day)"
      if "t mod ms_per_day < u mod ms_per_day"
      using that ms by (intro iso_time_less) auto
    moreover have "length (iso_time x) = length (iso_time y)" if "x \<in> {0..<ms_per_day}" "y \<in> {0..<ms_per_day}" for x y
      using that iso_time_parts [of x] iso_time_parts [of y] pos_mod_lt_100
      by (simp add: iso_time_def)
    ultimately show ?thesis
      using int_div_mod_less [OF tu(1) ms] ms
      by (auto simp: toISOString_def append_less_append [OF len] append_less_append)
  qed
  show ?thesis
  proof (cases t u rule: linorder_cases)
    case less
    then show ?thesis using \<open>\<And>t u. t < u \<Longrightarrow> four_digit_year t \<Longrightarrow> four_digit_year u \<Longrightarrow>
      toISOString t < toISOString u\<close> assms by simp
  next
    case greater
    then have "toISOString u < toISOString t" using less assms by simp
    then show ?thesis using greater by simp
  qed simp
qed

end
