(* ===== verification/Json.thy ===== *)
theory Json
  imports JsDate
begin

text \<open>
  \<open>JSON.stringify\<close> and \<open>JSON.parse\<close> on the model's values, and the round trip between them.
\<close>

abbreviation quote_char :: char where "quote_char \<equiv> CHR 0x22"
abbreviation backslash :: char where "backslash \<equiv> CHR 0x5C"

section \<open>JSON.stringify\<close>

definition hex_char :: "nat \<Rightarrow> char" where
  "hex_char n = (if n < 10 then digit_char n else char_of (87 + n))"

definition esc_char :: "char \<Rightarrow> string" where
  "esc_char c =
     (if c = quote_char \<or> c = backslash then [backslash, c]
      else if char_code c = 8 then [backslash, CHR ''b'']
      else if char_code c = 9 then [backslash, CHR ''t'']
      else if char_code c = 10 then [backslash, CHR ''n'']
      else if char_code c = 12 then [backslash, CHR ''f'']
      else if char_code c = 13 then [backslash, CHR ''r'']
      else if char_code c < 32
        then [backslash, CHR ''u'', CHR ''0'', CHR ''0'', hex_char (char_code c div 16), hex_char (char_code c mod 16)]
      else [c])"

lemma esc_char_code [code]:
  "esc_char (Char b0 b1 b2 b3 b4 b5 b6 b7) =
     (let c = Char b0 b1 b2 b3 b4 b5 b6 b7 in
      if c = quote_char then [backslash, c] else if c = backslash then [backslash, c]
      else if b7 then [c] else if b6 then [c] else if b5 then [c] else
       (let n = char_code c in
        if n = 8 then [backslash, CHR ''b'']
        else if n = 9 then [backslash, CHR ''t'']
        else if n = 10 then [backslash, CHR ''n'']
        else if n = 12 then [backslash, CHR ''f'']
        else if n = 13 then [backslash, CHR ''r'']
        else [backslash, CHR ''u'', CHR ''0'', CHR ''0'', hex_char (n div 16), hex_char (n mod 16)]))"
  by (cases b0; cases b1; cases b2; cases b3; cases b4; cases b5; cases b6; cases b7)
     (simp_all add: esc_char_def char_code_def of_char_def Let_def)

definition esc :: "string \<Rightarrow> string" where
  "esc s = concat (map esc_char s)"

definition json_quote :: "string \<Rightarrow> string" where
  "json_quote s = quote_char # esc s @ [quote_char]"

fun join :: "string \<Rightarrow> string list \<Rightarrow> string" where
  "join sep [] = []"
| "join sep [s] = s"
| "join sep (s # t # ts) = s @ sep @ join sep (t # ts)"

text \<open>
  \<open>None\<close> is the result \<open>undefined\<close>: such a property is left out of an object and printed as
  \<open>null\<close> in an array. A big integer throws. A date and a luxon instance have a \<open>toJSON\<close>.
\<close>

fun json_str :: "jsval \<Rightarrow> string option result"
  and json_items :: "jsval list \<Rightarrow> string list result"
  and json_members :: "jsobj \<Rightarrow> string list result"
where
  "json_str JUndefined = Inr None"
| "json_str JNull = Inr (Some ''null'')"
| "json_str (JBool b) = Inr (Some (if b then ''true'' else ''false''))"
| "json_str (JNum n) = Inr (Some (int_str n))"
| "json_str (JNonFinite x) = Inr (Some ''null'')"
| "json_str (JStr s) = Inr (Some (json_quote s))"
| "json_str (JFunction nm src) = Inr None"
| "json_str (JSymbol d) = Inr None"
| "json_str (JBigInt n) = Inl (JsTypeError ''Do not know how to serialize a BigInt'')"
| "json_str (JDate t) = Inr (Some (json_quote (toISOString t)))"
| "json_str (JInst name ti fs) =
     (case ti of
        Some None \<Rightarrow> Inr (Some ''null'')
      | Some (Some s) \<Rightarrow> Inr (Some (json_quote s))
      | None \<Rightarrow> rmap (\<lambda>ms. Some (''{'' @ join '','' ms @ ''}'')) (json_members fs))"
| "json_str (JArr xs) = rmap (\<lambda>ts. Some (''['' @ join '','' ts @ '']'')) (json_items xs)"
| "json_str (JObj fs) = rmap (\<lambda>ms. Some (''{'' @ join '','' ms @ ''}'')) (json_members fs)"
| "json_items [] = Inr []"
| "json_items (x # xs) =
     rbind (json_str x) (\<lambda>t. rmap ((#) (case t of None \<Rightarrow> ''null'' | Some s \<Rightarrow> s)) (json_items xs))"
| "json_members [] = Inr []"
| "json_members ((k, x) # fs) =
     rbind (json_str x) (\<lambda>t. rmap
       (\<lambda>ms. case t of None \<Rightarrow> ms | Some s \<Rightarrow> (json_quote k @ '':'' @ s) # ms) (json_members fs))"

section \<open>JSON.parse\<close>

definition is_ws :: "char \<Rightarrow> bool" where
  "is_ws c \<longleftrightarrow> char_code c \<in> {9, 10, 13, 32}"

definition skip_ws :: "string \<Rightarrow> string" where
  "skip_ws s = dropWhile is_ws s"

definition hex_val :: "char \<Rightarrow> nat option" where
  "hex_val c =
     (if is_digit c then Some (digit_val c)
      else if 97 \<le> char_code c \<and> char_code c \<le> 102 then Some (char_code c - 87)
      else if 65 \<le> char_code c \<and> char_code c \<le> 70 then Some (char_code c - 55)
      else None)"

text \<open>
  The characters up to the closing quote. An escape of a code unit above 255 is outside the
  model's strings and gives \<open>None\<close>, like a syntax error.
\<close>

fun parse_chars :: "string \<Rightarrow> (string \<times> string) option" where
  "parse_chars [] = None"
| "parse_chars (c # cs) =
     (if c = quote_char then Some ([], cs)
      else if c = backslash then
        (case cs of
           [] \<Rightarrow> None
         | e # es \<Rightarrow>
             (if e = CHR ''u'' then
                (case es of
                   a # b # x # y # rest \<Rightarrow>
                     (case (hex_val a, hex_val b, hex_val x, hex_val y) of
                        (Some 0, Some 0, Some p, Some q) \<Rightarrow>
                          map_option (\<lambda>(s, r). (char_of (16 * p + q) # s, r)) (parse_chars rest)
                      | _ \<Rightarrow> None)
                 | _ \<Rightarrow> None)
              else
                (let r = parse_chars es in
                 if e = quote_char \<or> e = backslash \<or> e = CHR ''/''
                   then map_option (\<lambda>(s, r). (e # s, r)) r
                 else if e = CHR ''b'' then map_option (\<lambda>(s, r). (char_of (8::nat) # s, r)) r
                 else if e = CHR ''t'' then map_option (\<lambda>(s, r). (char_of (9::nat) # s, r)) r
                 else if e = CHR ''n'' then map_option (\<lambda>(s, r). (char_of (10::nat) # s, r)) r
                 else if e = CHR ''f'' then map_option (\<lambda>(s, r). (char_of (12::nat) # s, r)) r
                 else if e = CHR ''r'' then map_option (\<lambda>(s, r). (char_of (13::nat) # s, r)) r
                 else None)))
      else if char_code c < 32 then None
      else map_option (\<lambda>(s, r). (c # s, r)) (parse_chars cs))"

declare parse_chars.simps [simp del]

text \<open>
  Numbers: an optional minus and an integer part without leading zeros. A fraction or an
  exponent is outside the model's numbers.
\<close>

definition parse_number :: "string \<Rightarrow> (jsval \<times> string) option" where
  "parse_number s =
     (let neg = (s \<noteq> [] \<and> hd s = CHR ''-''); body = (if neg then tl s else s);
          ds = takeWhile is_digit body; rest = dropWhile is_digit body
      in if ds = [] \<or> (hd ds = CHR ''0'' \<and> length ds > 1) then None
         else if rest \<noteq> [] \<and> hd rest \<in> {CHR ''.'', CHR ''e'', CHR ''E''} then None
         else Some (JNum (if neg then - int (str_nat ds) else int (str_nat ds)), rest))"

fun strip_prefix :: "string \<Rightarrow> string \<Rightarrow> string option" where
  "strip_prefix [] s = Some s"
| "strip_prefix (p # ps) [] = None"
| "strip_prefix (p # ps) (c # cs) = (if p = c then strip_prefix ps cs else None)"

text \<open>
  A value, the rest of an array (after \<open>[\<close> or a comma) and the rest of an object. The fuel
  bounds the number of calls; \<open>JSON.parse\<close> gives it one unit per character, which is enough
  since each call consumes a character.
\<close>

fun parse_value :: "nat \<Rightarrow> string \<Rightarrow> (jsval \<times> string) option"
  and parse_items :: "nat \<Rightarrow> string \<Rightarrow> (jsval list \<times> string) option"
  and parse_members :: "nat \<Rightarrow> jsobj \<Rightarrow> string \<Rightarrow> (jsobj \<times> string) option"
where
  "parse_value 0 s = None"
| "parse_value (Suc n) s =
     (case skip_ws s of
        [] \<Rightarrow> None
      | c # cs \<Rightarrow>
          if c = quote_char then map_option (\<lambda>(t, r). (JStr t, r)) (parse_chars cs)
          else if c = CHR ''['' then
            (case skip_ws cs of
               [] \<Rightarrow> None
             | d # ds \<Rightarrow>
                 if d = CHR '']'' then Some (JArr [], ds)
                 else map_option (\<lambda>(xs, r). (JArr xs, r)) (parse_items n (d # ds)))
          else if c = CHR ''{'' then
            (case skip_ws cs of
               [] \<Rightarrow> None
             | d # ds \<Rightarrow>
                 if d = CHR ''}'' then Some (JObj [], ds)
                 else map_option (\<lambda>(fs, r). (JObj fs, r)) (parse_members n [] (d # ds)))
          else if c = CHR ''t'' then map_option (\<lambda>r. (JBool True, r)) (strip_prefix ''true'' (c # cs))
          else if c = CHR ''f'' then map_option (\<lambda>r. (JBool False, r)) (strip_prefix ''false'' (c # cs))
          else if c = CHR ''n'' then map_option (\<lambda>r. (JNull, r)) (strip_prefix ''null'' (c # cs))
          else parse_number (c # cs))"
| "parse_items 0 s = None"
| "parse_items (Suc n) s =
     (case parse_value n s of
        None \<Rightarrow> None
      | Some (x, r) \<Rightarrow>
          (case skip_ws r of
             [] \<Rightarrow> None
           | c # cs \<Rightarrow>
               if c = CHR '']'' then Some ([x], cs)
               else if c = CHR '','' then map_option (\<lambda>(xs, r). (x # xs, r)) (parse_items n cs)
               else None))"
| "parse_members 0 acc s = None"
| "parse_members (Suc n) acc s =
     (case skip_ws s of
        [] \<Rightarrow> None
      | q # qs \<Rightarrow>
          if q \<noteq> quote_char then None
          else (case parse_chars qs of
             None \<Rightarrow> None
           | Some (k, r) \<Rightarrow>
               (case skip_ws r of
                  [] \<Rightarrow> None
                | c # cs \<Rightarrow>
                    if c \<noteq> CHR '':'' then None
                    else (case parse_value n cs of
                       None \<Rightarrow> None
                     | Some (x, r') \<Rightarrow>
                         (let acc' = obj_put k x acc in
                          case skip_ws r' of
                            [] \<Rightarrow> None
                          | d # ds \<Rightarrow>
                              if d = CHR ''}'' then Some (acc', ds)
                              else if d = CHR '','' then parse_members n acc' ds
                              else None)))))"

definition json_parse :: "string \<Rightarrow> jsval result" where
  "json_parse s =
     (case parse_value (Suc (length s)) s of
        Some (v, r) \<Rightarrow> if skip_ws r = [] then Inr v
          else Inl (JsSyntaxError ''Unexpected non-whitespace character after JSON'')
      | None \<Rightarrow> Inl (JsSyntaxError ''Unexpected token in JSON''))"


section \<open>Round trip\<close>

lemma hex_val_hex_char [simp]: "n < 16 \<Longrightarrow> hex_val (hex_char n) = Some n"
  by (auto simp: hex_val_def hex_char_def is_digit_def digit_val_def digit_char_def)

lemma parse_chars_quote [simp]: "parse_chars (quote_char # r) = Some ([], r)"
  by (simp add: parse_chars.simps)

lemma code_char_simps [simp]:
  "char_code quote_char = 34" "char_code backslash = 92"
  by (simp_all add: char_code_def)

lemma char_of_eqI: "char_code c = n \<Longrightarrow> char_of n = c"
  by auto

lemma parse_chars_esc_char [simp]:
  "parse_chars (esc_char c @ r) = map_option (\<lambda>(s, r). (c # s, r)) (parse_chars r)"
proof -
  let ?n = "char_code c"
  consider "c = quote_char \<or> c = backslash" | "c \<noteq> quote_char" "c \<noteq> backslash" "?n \<in> {8, 9, 10, 12, 13}"
    | "c \<noteq> quote_char" "c \<noteq> backslash" "?n \<notin> {8, 9, 10, 12, 13}" "?n < 32"
    | "c \<noteq> quote_char" "c \<noteq> backslash" "\<not> ?n < 32" by blast
  then show ?thesis
  proof cases
    case 1
    then show ?thesis by (auto simp: esc_char_def parse_chars.simps(2) [of backslash])
  next
    case 2
    then show ?thesis
      by (auto simp: esc_char_def parse_chars.simps(2) [of backslash] dest!: char_of_eqI)
  next
    case 3
    have "hex_val (CHR ''0'') = Some 0" by (simp add: hex_val_def is_digit_def digit_val_def char_code_def)
    moreover have "16 * (?n div 16) + ?n mod 16 = ?n" by simp
    moreover have "?n div 16 < 16" "?n mod 16 < 16" by (auto intro: less_mult_imp_div_less)
    ultimately show ?thesis using 3
      by (simp add: esc_char_def parse_chars.simps(2) [of backslash])
  next
    case 4
    then show ?thesis by (simp add: esc_char_def parse_chars.simps(2) [of c])
  qed
qed

lemma esc_simps [simp]: "esc [] = []" "esc (c # s) = esc_char c @ esc s"
  by (simp_all add: esc_def)

lemma parse_chars_esc: "parse_chars (esc s @ quote_char # r) = Some (s, r)"
  by (induction s) simp_all

text \<open>Numbers.\<close>

definition num_stop :: "string \<Rightarrow> bool" where
  "num_stop r \<longleftrightarrow> r = [] \<or> (\<not> is_digit (hd r) \<and> hd r \<notin> {CHR ''.'', CHR ''e'', CHR ''E''})"

lemma takeWhile_digits:
  "list_all is_digit ds \<Longrightarrow> num_stop r \<Longrightarrow> takeWhile is_digit (ds @ r) = ds \<and> dropWhile is_digit (ds @ r) = r"
  by (cases r) (auto simp: num_stop_def list_all_iff takeWhile_append dropWhile_append)

lemma nat_str_shape: "hd (nat_str n) = CHR ''0'' \<Longrightarrow> length (nat_str n) = 1"
  by (simp add: nat_str_hd nat_str_lt)

lemma minus_not_digit [simp]: "\<not> is_digit (CHR ''-'')"
  by (simp add: is_digit_def char_code_def)

lemma parse_number_nat:
  "num_stop r \<Longrightarrow> parse_number (nat_str n @ r) = Some (JNum (int n), r)"
proof -
  assume r: "num_stop r"
  have "hd (nat_str n) \<noteq> CHR ''-''"
    using nat_str_digits [of n] nat_str_nonempty [of n] minus_not_digit by (metis list.pred_inject(2) list.exhaust_sel)
  then show ?thesis
    using r takeWhile_digits [OF nat_str_digits [of n] r] nat_str_shape [of n]
    by (auto simp: parse_number_def num_stop_def Let_def)
qed

lemma parse_number_int:
  "num_stop r \<Longrightarrow> parse_number (int_str n @ r) = Some (JNum n, r)"
proof (cases "n < 0")
  case True
  assume r: "num_stop r"
  then show ?thesis
    using True takeWhile_digits [OF nat_str_digits [of "nat (- n)"] r] nat_str_shape [of "nat (- n)"]
    by (auto simp: parse_number_def int_str_def num_stop_def Let_def)
qed (simp add: int_str_def parse_number_nat)


text \<open>
  The values \<open>JSON.parse\<close> can produce, plus the non-finite numbers, and what one gets back after
  printing and parsing: \<open>NaN\<close> and the infinities are printed as \<open>null\<close>.
\<close>

fun json_value :: "jsval \<Rightarrow> bool" where
  "json_value (JObj fs) \<longleftrightarrow> props_ok fs \<and> list_all (\<lambda>(k, x). json_value x) fs"
| "json_value (JArr xs) \<longleftrightarrow> list_all json_value xs"
| "json_value JNull \<longleftrightarrow> True"
| "json_value (JBool b) \<longleftrightarrow> True"
| "json_value (JNum n) \<longleftrightarrow> True"
| "json_value (JNonFinite x) \<longleftrightarrow> True"
| "json_value (JStr s) \<longleftrightarrow> True"
| "json_value v \<longleftrightarrow> False"

fun json_image :: "jsval \<Rightarrow> jsval" where
  "json_image (JObj fs) = JObj (map (\<lambda>(k, x). (k, json_image x)) fs)"
| "json_image (JArr xs) = JArr (map json_image xs)"
| "json_image (JNonFinite x) = JNull"
| "json_image v = v"

definition token_start :: "char \<Rightarrow> bool" where
  "token_start c \<longleftrightarrow> \<not> is_ws c \<and> c \<notin> {CHR '']'', CHR ''}'', CHR '','', CHR '':''}"

definition parses_to :: "jsval \<Rightarrow> bool" where
  "parses_to v \<longleftrightarrow> (\<exists>c t. json_str v = Inr (Some (c # t)) \<and> token_start c \<and>
     (\<forall>n r. Suc (length t) \<le> n \<longrightarrow> num_stop r \<longrightarrow> parse_value n (c # t @ r) = Some (json_image v, r)))"

lemma skip_ws_token [simp]: "\<not> is_ws c \<Longrightarrow> skip_ws (c # r) = c # r"
  by (simp add: skip_ws_def)

lemma not_ws [simp]:
  "\<not> is_ws quote_char" "\<not> is_ws (CHR ''['')" "\<not> is_ws (CHR '']'')" "\<not> is_ws (CHR ''{'')"
  "\<not> is_ws (CHR ''}'')" "\<not> is_ws (CHR '','')" "\<not> is_ws (CHR '':'')" "\<not> is_ws (CHR ''-'')"
  "\<not> is_ws (CHR ''t'')" "\<not> is_ws (CHR ''f'')" "\<not> is_ws (CHR ''n'')"
  by (simp_all add: is_ws_def char_code_def)

lemma is_digit_chars [simp]:
  "\<not> is_digit quote_char" "\<not> is_digit (CHR ''['')" "\<not> is_digit (CHR '']'')" "\<not> is_digit (CHR ''{'')"
  "\<not> is_digit (CHR ''}'')" "\<not> is_digit (CHR '','')" "\<not> is_digit (CHR '':'')"
  "\<not> is_digit (CHR ''t'')" "\<not> is_digit (CHR ''f'')" "\<not> is_digit (CHR ''n'')"
  by (simp_all add: is_digit_def char_code_def)

lemma num_stop_Cons [simp]:
  "num_stop (CHR '']'' # r)" "num_stop (CHR ''}'' # r)" "num_stop (CHR '','' # r)" "num_stop []"
  by (simp_all add: num_stop_def)

lemma strip_prefix_same [simp]: "strip_prefix p (p @ r) = Some r"
  by (induction p) simp_all

lemma int_str_start:
  "\<exists>c t. int_str n = c # t \<and> (c = CHR ''-'' \<or> is_digit c)"
proof (cases "n < 0")
  case False
  then show ?thesis
    using nat_str_digits [of "nat n"] nat_str_nonempty [of "nat n"]
    by (cases "nat_str (nat n)") (auto simp: int_str_def)
qed (simp add: int_str_def)

lemma digit_token: "c = CHR ''-'' \<or> is_digit c \<Longrightarrow> token_start c"
  by (auto simp: token_start_def is_ws_def is_digit_def char_code_def)

lemma parses_to_num: "parses_to (JNum n)"
proof -
  obtain c t where ct: "int_str n = c # t" "c = CHR ''-'' \<or> is_digit c"
    using int_str_start by blast
  have t: "token_start c" using ct digit_token by simp
  moreover have "parse_value m (c # t @ r) = Some (JNum n, r)" if "Suc (length t) \<le> m" "num_stop r" for m r
  proof -
    have "parse_number (c # t @ r) = Some (JNum n, r)"
      using parse_number_int [OF that(2), of n] ct by simp
    moreover have "c \<notin> {quote_char, CHR ''['', CHR ''{'', CHR ''t'', CHR ''f'', CHR ''n''}"
      using ct(2) by auto
    ultimately show ?thesis using t that(1) by (cases m) (simp_all add: token_start_def)
  qed
  ultimately show ?thesis using ct by (simp add: parses_to_def)
qed


lemma parses_to_simple:
  "parses_to JNull" "parses_to (JBool b)" "parses_to (JNonFinite x)" "parses_to (JStr s)"
proof -
  have s: "parse_value m (CHR ''n'' # CHR ''u'' # CHR ''l'' # CHR ''l'' # r) = Some (JNull, r)"
    if "0 < m" for m r
    using that strip_prefix_same [of "''null''" r] by (cases m) simp_all
  show "parses_to JNull" "parses_to (JNonFinite x)"
    using s by (auto simp: parses_to_def token_start_def)
  have t: "parse_value m (CHR ''t'' # CHR ''r'' # CHR ''u'' # CHR ''e'' # r) = Some (JBool True, r)"
    if "0 < m" for m r
    using that strip_prefix_same [of "''true''" r] by (cases m) simp_all
  have f: "parse_value m (CHR ''f'' # CHR ''a'' # CHR ''l'' # CHR ''s'' # CHR ''e'' # r) = Some (JBool False, r)"
    if "0 < m" for m r
    using that strip_prefix_same [of "''false''" r] by (cases m) simp_all
  show "parses_to (JBool b)"
    using t f by (cases b) (auto simp: parses_to_def token_start_def)
  have q: "parse_value m (quote_char # esc s @ quote_char # r) = Some (JStr s, r)" if "0 < m" for m r
    using that by (cases m) (simp_all add: parse_chars_esc)
  show "parses_to (JStr s)"
    using q by (auto simp: parses_to_def token_start_def json_quote_def)
qed

lemma join_Cons: "join sep (t # ts) = (if ts = [] then t else t @ sep @ join sep ts)"
  by (cases ts) simp_all

lemma items_parse:
  "list_all parses_to xs \<Longrightarrow> \<exists>ts. json_items xs = Inr ts \<and> (xs = [] \<longleftrightarrow> ts = []) \<and>
     (xs \<noteq> [] \<longrightarrow> (\<exists>c t. join '','' ts = c # t \<and> token_start c) \<and>
       (\<forall>n r. length (join '','' ts) < n \<longrightarrow>
          parse_items n (join '','' ts @ CHR '']'' # r) = Some (map json_image xs, r)))"
proof (induction xs)
  case Nil
  then show ?case by simp
next
  case (Cons x xs)
  from Cons.prems obtain c t where x: "json_str x = Inr (Some (c # t))" "token_start c"
    "\<And>n r. Suc (length t) \<le> n \<Longrightarrow> num_stop r \<Longrightarrow> parse_value n (c # t @ r) = Some (json_image x, r)"
    by (auto simp: parses_to_def)
  from Cons obtain ts where ts: "json_items xs = Inr ts" "xs = [] \<longleftrightarrow> ts = []"
    "\<And>n r. xs \<noteq> [] \<Longrightarrow> length (join '','' ts) < n \<Longrightarrow>
       parse_items n (join '','' ts @ CHR '']'' # r) = Some (map json_image xs, r)"
    by auto
  have "parse_items n (join '','' ((c # t) # ts) @ CHR '']'' # r) = Some (map json_image (x # xs), r)"
    if "length (join '','' ((c # t) # ts)) < n" for n r
    using that x(3) [of "n - 1"] ts(2) ts(3) [of "n - 1" r]
    by (cases n) (auto simp: join_Cons)
  then show ?case using x ts(1) by (auto simp: join_Cons)
qed

lemma members_parse:
  "list_all (\<lambda>(k, x). parses_to x) fs \<Longrightarrow> \<exists>ms. json_members fs = Inr ms \<and> (fs = [] \<longleftrightarrow> ms = []) \<and>
     (fs \<noteq> [] \<longrightarrow> (\<exists>t. join '','' ms = quote_char # t) \<and>
       (\<forall>n acc r. length (join '','' ms) < n \<longrightarrow> props_ok (acc @ map (\<lambda>(k, x). (k, json_image x)) fs) \<longrightarrow>
          parse_members n acc (join '','' ms @ CHR ''}'' # r)
            = Some (acc @ map (\<lambda>(k, x). (k, json_image x)) fs, r)))"
proof (induction fs)
  case Nil
  then show ?case by simp
next
  case (Cons p fs)
  obtain k x where p: "p = (k, x)" by (cases p)
  from Cons.prems obtain c t where x: "json_str x = Inr (Some (c # t))" "token_start c"
    "\<And>n r. Suc (length t) \<le> n \<Longrightarrow> num_stop r \<Longrightarrow> parse_value n (c # t @ r) = Some (json_image x, r)"
    by (auto simp: parses_to_def p)
  let ?im = "map (\<lambda>(k, x). (k, json_image x))"
  from Cons obtain ms where ms: "json_members fs = Inr ms" "fs = [] \<longleftrightarrow> ms = []"
    "\<And>n acc r. fs \<noteq> [] \<Longrightarrow> length (join '','' ms) < n \<Longrightarrow> props_ok (acc @ ?im fs) \<Longrightarrow>
       parse_members n acc (join '','' ms @ CHR ''}'' # r) = Some (acc @ ?im fs, r)"
    by auto
  let ?m = "json_quote k @ '':'' @ c # t"
  have "parse_members n acc (join '','' (?m # ms) @ CHR ''}'' # r) = Some (acc @ ?im (p # fs), r)"
    if n: "length (join '','' (?m # ms)) < n" and ok: "props_ok (acc @ ?im (p # fs))" for n acc r
  proof -
    obtain j where j: "n = Suc j" using n by (cases n) auto
    have "props_ok (acc @ [(k, json_image x)])"
      using ok by (auto simp: p props_ok_def sorted_wrt_append)
    then have put: "obj_put k (json_image x) acc = acc @ [(k, json_image x)]"
      by (rule obj_put_last)
    show ?thesis
      using n x(3) [of j] ms(2) ms(3) [of j "acc @ [(k, json_image x)]" r] ok
      by (auto simp: j p join_Cons json_quote_def parse_chars_esc put)
  qed
  moreover have "\<exists>t'. join '','' (?m # ms) = quote_char # t'"
    by (simp add: join_Cons json_quote_def)
  ultimately show ?case using x ms(1) by (auto simp: p)
qed

lemma props_ok_map [simp]: "props_ok (map (map_prod id f) fs) \<longleftrightarrow> props_ok fs"
  "props_ok (map (\<lambda>(k, x). (k, f x)) fs) \<longleftrightarrow> props_ok fs"
  by (simp_all add: props_ok_def comp_def case_prod_beta)

lemma json_value_parses: "json_value v \<Longrightarrow> parses_to v"
proof (induction v rule: json_value.induct)
  case (1 fs)
  then have l: "list_all (\<lambda>(k, x). parses_to x) fs" and ok: "props_ok fs"
    by (auto simp: list_all_iff)
  obtain ms where ms: "json_members fs = Inr ms" "fs = [] \<longleftrightarrow> ms = []"
    "fs \<noteq> [] \<Longrightarrow> \<exists>t. join '','' ms = quote_char # t"
    "\<And>n acc r. fs \<noteq> [] \<Longrightarrow> length (join '','' ms) < n \<Longrightarrow> props_ok (acc @ map (\<lambda>(k, x). (k, json_image x)) fs)
       \<Longrightarrow> parse_members n acc (join '','' ms @ CHR ''}'' # r)
            = Some (acc @ map (\<lambda>(k, x). (k, json_image x)) fs, r)"
    using members_parse [OF l] by auto
  have "parse_value n (CHR ''{'' # join '','' ms @ CHR ''}'' # r) = Some (json_image (JObj fs), r)"
    if lt: "length (join '','' ms) + 2 \<le> n" for n r
  proof -
    obtain j where j: "n = Suc j" using lt by (cases n) auto
    show ?thesis
    proof (cases "fs = []")
      case True
      then show ?thesis using ms(2) by (simp add: j)
    next
      case False
      then obtain t where "join '','' ms = quote_char # t" using ms(3) by blast
      then show ?thesis
        using ms(4) [OF False, of j "[]" r] ok lt by (auto simp: j)
    qed
  qed
  then show ?case using ms(1) by (auto simp: parses_to_def token_start_def)
next
  case (2 xs)
  then have l: "list_all parses_to xs" by (auto simp: list_all_iff)
  obtain ts where ts: "json_items xs = Inr ts" "xs = [] \<longleftrightarrow> ts = []"
    "xs \<noteq> [] \<Longrightarrow> \<exists>c t. join '','' ts = c # t \<and> token_start c"
    "\<And>n r. xs \<noteq> [] \<Longrightarrow> length (join '','' ts) < n \<Longrightarrow>
       parse_items n (join '','' ts @ CHR '']'' # r) = Some (map json_image xs, r)"
    using items_parse [OF l] by auto
  have "parse_value n (CHR ''['' # join '','' ts @ CHR '']'' # r) = Some (json_image (JArr xs), r)"
    if lt: "length (join '','' ts) + 2 \<le> n" for n r
  proof -
    obtain j where j: "n = Suc j" using lt by (cases n) auto
    show ?thesis
    proof (cases "xs = []")
      case True
      then show ?thesis using ts(2) by (simp add: j)
    next
      case False
      then obtain c t where "join '','' ts = c # t" "token_start c" using ts(3) by blast
      then show ?thesis
        using ts(4) [OF False, of j r] lt by (auto simp: j token_start_def)
    qed
  qed
  then show ?case using ts(1) by (auto simp: parses_to_def token_start_def)
qed (simp_all add: parses_to_simple parses_to_num)

lemma json_roundtrip_image:
  assumes "json_value v"
  shows "\<exists>t. json_str v = Inr (Some t) \<and> json_parse t = Inr (json_image v)"
proof -
  obtain c t where "json_str v = Inr (Some (c # t))"
    "\<And>n r. Suc (length t) \<le> n \<Longrightarrow> num_stop r \<Longrightarrow> parse_value n (c # t @ r) = Some (json_image v, r)"
    using json_value_parses [OF assms] by (auto simp: parses_to_def)
  from this(1) this(2) [of "Suc (Suc (length t))" "[]"] show ?thesis
    by (auto simp: json_parse_def skip_ws_def simp del: parse_value.simps)
qed

end
