(* ===== verification/Canonical.thy ===== *)
theory Canonical
  imports Json
begin

text \<open>
  \<open>src/core/canonical_json.ts\<close>: the deterministic serialisation every hash and every HTTP
  signature is computed over. A value of the model is a finite tree, so the \<open>seen\<close> set of the
  code (which only serves to reject cyclic graphs) is always disjoint from what lies below a
  node and does not appear here.
\<close>

section \<open>The serialiser\<close>

text \<open>
  \<open>value.constructor\<close> of an ordinary object is \<open>Object\<close> unless an own property of that name
  shadows it. \<open>ctor_name\<close> is \<open>value.constructor?.name ?? 'object'\<close> for the message.
\<close>

definition is_plain :: "jsobj \<Rightarrow> bool" where
  "is_plain fs \<longleftrightarrow> ''constructor'' \<notin> fst ` set fs"

fun display :: "jsval \<Rightarrow> string" where
  "display (JStr s) = s"
| "display (JNum n) = int_str n"
| "display (JBool b) = (if b then ''true'' else ''false'')"
| "display v = ''[object Object]''"

definition ctor_name :: "string \<Rightarrow> jsobj \<Rightarrow> string" where
  "ctor_name cls fs =
     (case map_of fs ''constructor'' of
        None \<Rightarrow> cls
      | Some (JFunction name src) \<Rightarrow> name
      | Some (JObj gs) \<Rightarrow>
          (case map_of gs ''name'' of None \<Rightarrow> ''object'' | Some JUndefined \<Rightarrow> ''object''
           | Some JNull \<Rightarrow> ''object'' | Some n \<Rightarrow> display n)
      | Some v \<Rightarrow> ''object'')"

definition is_defined :: "jsval \<Rightarrow> bool" where
  "is_defined v \<longleftrightarrow> v \<noteq> JUndefined"

definition sorted_props :: "jsobj \<Rightarrow> jsobj" where
  "sorted_props fs = filter (\<lambda>p. is_defined (snd p)) (sort_key fst fs)"

definition assign_all :: "jsobj \<Rightarrow> jsobj" where
  "assign_all ps = foldl (\<lambda>ob p. obj_assign (fst p) (snd p) ob) [] ps"

lemma set_sorted_props [simp]: "set (sorted_props fs) = {p \<in> set fs. is_defined (snd p)}"
  by (auto simp: sorted_props_def)

lemma size_member: "(k, x) \<in> set fs \<Longrightarrow> size x < size (JObj fs)"
  by (induction fs) auto

function (sequential) serialize :: "jsval \<Rightarrow> jsval result" where
  "serialize JUndefined = Inl (AuditCanonicalError ''Cannot canonicalize undefined value'')"
| "serialize (JFunction nm src) = Inl (AuditCanonicalError ''Cannot canonicalize value of type function'')"
| "serialize (JSymbol d) = Inl (AuditCanonicalError ''Cannot canonicalize value of type symbol'')"
| "serialize (JBigInt n) = Inl (AuditCanonicalError ''Cannot canonicalize value of type bigint'')"
| "serialize (JDate t) = Inl (AuditCanonicalError
     ''Date objects must be serialized to ISO strings before canonicalization'')"
| "serialize (JArr xs) = rmap JArr (sequenceR (map serialize xs))"
| "serialize (JInst cls ti fs) =
     Inl (AuditCanonicalError (''Cannot canonicalize value of type '' @ ctor_name cls fs))"
| "serialize (JObj fs) =
     (if \<not> is_plain fs
      then Inl (AuditCanonicalError (''Cannot canonicalize value of type '' @ ctor_name ''Object'' fs))
      else rmap (\<lambda>ps. JObj (assign_all ps))
             (sequenceR (map (\<lambda>p. rmap (Pair (fst p)) (serialize (snd p))) (sorted_props fs))))"
| "serialize v = Inr v"
  by pat_completeness auto

termination
  by (relation "measure size") (auto dest: size_member simp: less_Suc_eq_le size_list_estimation')

definition canonicalJson :: "jsval \<Rightarrow> string result" where
  "canonicalJson v =
     rbind (serialize v) (\<lambda>w. rbind (json_str w) (\<lambda>t.
       case t of Some s \<Rightarrow> Inr s | None \<Rightarrow> Inl (JsTypeError ''undefined'')))"

section \<open>Which values are accepted\<close>

fun canonical_ok :: "jsval \<Rightarrow> bool" where
  "canonical_ok (JObj fs) \<longleftrightarrow>
     is_plain fs \<and> list_all (\<lambda>p. is_defined (snd p) \<longrightarrow> canonical_ok (snd p)) fs"
| "canonical_ok (JArr xs) \<longleftrightarrow> list_all canonical_ok xs"
| "canonical_ok JNull \<longleftrightarrow> True"
| "canonical_ok (JBool b) \<longleftrightarrow> True"
| "canonical_ok (JNum n) \<longleftrightarrow> True"
| "canonical_ok (JNonFinite x) \<longleftrightarrow> True"
| "canonical_ok (JStr s) \<longleftrightarrow> True"
| "canonical_ok v \<longleftrightarrow> False"

text \<open>Every object of the value lists its properties in the order JavaScript keeps them in.\<close>

fun js_wf :: "jsval \<Rightarrow> bool" where
  "js_wf (JObj fs) \<longleftrightarrow> props_ok fs \<and> list_all (\<lambda>p. js_wf (snd p)) fs"
| "js_wf (JInst cls ti fs) \<longleftrightarrow> props_ok fs \<and> list_all (\<lambda>p. js_wf (snd p)) fs"
| "js_wf (JArr xs) \<longleftrightarrow> list_all js_wf xs"
| "js_wf v \<longleftrightarrow> True"

lemma list_all2_memD2: "list_all2 P xs ys \<Longrightarrow> y \<in> set ys \<Longrightarrow> \<exists>x\<in>set xs. P x y"
  by (induction xs ys rule: list_all2_induct) auto

lemma list_all2_memD1: "list_all2 P xs ys \<Longrightarrow> x \<in> set xs \<Longrightarrow> \<exists>y\<in>set ys. P x y"
  by (induction xs ys rule: list_all2_induct) auto

lemma sequenceR_returns: "(\<exists>xs. sequenceR ms = Inr xs) \<longleftrightarrow> (\<forall>m\<in>set ms. \<exists>x. m = Inr x)"
  by (simp add: sequenceR_Inr_iff ex_map_conv)

lemma rmap_returns: "(\<exists>y. rmap f m = Inr y) \<longleftrightarrow> (\<exists>x. m = Inr x)"
  by (cases m) simp_all

lemma serialize_returns: "(\<exists>w. serialize v = Inr w) \<longleftrightarrow> canonical_ok v"
proof (induction v rule: canonical_ok.induct)
  case (1 fs)
  then show ?case
    by (simp add: rmap_returns sequenceR_returns list_all_iff
        del: split_paired_Ex split_paired_All) blast
next
  case (2 xs)
  then show ?case
    by (simp add: rmap_returns sequenceR_returns list_all_iff)
qed auto

section \<open>The result is a JSON value\<close>

lemma assign_all_snoc: "assign_all (ps @ [p]) = obj_assign (fst p) (snd p) (assign_all ps)"
  by (simp add: assign_all_def)

lemma assign_all_Nil [simp]: "assign_all [] = []"
  by (simp add: assign_all_def)

lemma assign_all_ok [simp]: "props_ok (assign_all ps)"
  by (induction ps rule: rev_induct) (auto simp: assign_all_snoc obj_assign_ok)

lemma assign_all_lookup:
  "distinct (map fst ps) \<Longrightarrow>
   map_of (assign_all ps) k = (if k = ''__proto__'' then None else map_of ps k)"
  by (induction ps rule: rev_induct)
     (auto simp: assign_all_snoc map_add_def fun_upd_def dest: map_of_is_SomeI split: option.splits, 
      metis fst_conv map_of_SomeD rev_image_eqI)

lemma assign_all_filter: "assign_all ps = assign_all (filter (\<lambda>p. fst p \<noteq> ''__proto__'') ps)"
  by (induction ps rule: rev_induct) (auto simp: assign_all_snoc obj_assign_def)

lemma obj_assign_set: "set (obj_assign k v ob) \<subseteq> insert (k, v) (set ob)"
proof -
  have "set (AList.update k v ob) \<subseteq> insert (k, v) (set ob)"
    by (induction ob) auto
  then show ?thesis by (auto simp: obj_assign_def obj_put_def)
qed

lemma assign_all_set: "set (assign_all ps) \<subseteq> set ps"
proof (induction ps rule: rev_induct)
  case (snoc p ps)
  then show ?case using obj_assign_set [of "fst p" "snd p" "assign_all ps"]
    by (auto simp: assign_all_snoc)
qed simp

lemma map_Inr_rmap_Pair:
  "map (\<lambda>p. rmap (Pair (fst p)) (f (snd p))) fs = map Inr ps \<Longrightarrow>
   map fst ps = map fst fs \<and> list_all2 (\<lambda>p q. fst q = fst p \<and> f (snd p) = Inr (snd q)) fs ps"
  by (induction fs arbitrary: ps) (auto simp: Cons_eq_map_conv map_eq_Cons_conv rmap_Inr_iff)

lemma serialize_obj:
  assumes "serialize (JObj fs) = Inr w"
  obtains ps where "w = JObj (assign_all ps)" "is_plain fs" "map fst ps = map fst (sorted_props fs)"
    "list_all2 (\<lambda>p q. fst q = fst p \<and> serialize (snd p) = Inr (snd q)) (sorted_props fs) ps"
  using assms map_Inr_rmap_Pair by (fastforce simp: result_iff split: if_splits)

lemma serialize_arr:
  assumes "serialize (JArr xs) = Inr w"
  obtains ys where "w = JArr ys" "list_all2 (\<lambda>x y. serialize x = Inr y) xs ys"
proof -
  obtain ys where ys: "w = JArr ys" "map serialize xs = map Inr ys"
    using assms by (auto simp: result_iff)
  then have "list_all2 (\<lambda>x y. serialize x = Inr y) xs ys"
    using list_all2_eq [of "map serialize xs"] by (simp add: list_all2_map1 list_all2_map2)
  then show thesis using that ys(1) by blast
qed

lemma serialize_json_value: "serialize v = Inr w \<Longrightarrow> json_value w"
proof (induction v arbitrary: w rule: canonical_ok.induct)
  case (1 fs)
  from 1(2) obtain ps where ps: "w = JObj (assign_all ps)"
    "list_all2 (\<lambda>p q. fst q = fst p \<and> serialize (snd p) = Inr (snd q)) (sorted_props fs) ps"
    by (rule serialize_obj)
  have "json_value (snd q)" if "q \<in> set ps" for q
    using list_all2_memD2 [OF ps(2) that] 1(1) by auto
  then show ?case using ps(1) assign_all_set [of ps] by (auto simp: list_all_iff)
next
  case (2 xs)
  from 2(2) obtain ys where "w = JArr ys" "list_all2 (\<lambda>x y. serialize x = Inr y) xs ys"
    by (rule serialize_arr)
  then show ?case using 2(1) by (auto simp: list_all_iff dest: list_all2_memD2)
qed auto

lemma canonicalJson_text:
  assumes "serialize v = Inr w"
  shows "\<exists>t. canonicalJson v = Inr t \<and> json_parse t = Inr (json_image w)"
  using json_roundtrip_image [OF serialize_json_value [OF assms]] assms
  by (auto simp: canonicalJson_def)

lemma canonicalJson_returns_iff: "(\<exists>t. canonicalJson v = Inr t) \<longleftrightarrow> canonical_ok v"
  using canonicalJson_text serialize_returns
  by (metis (no_types, lifting) canonicalJson_def rbind_Inr_iff)


section \<open>What the text determines\<close>

text \<open>
  The data of a value, read path by path: a scalar, the length of an array, the presence of an
  object. A property whose value is \<open>undefined\<close> reads like an absent one, and a non-finite
  number like \<open>null\<close>.
\<close>

datatype node = ScalarNode jsval | ArrNode nat | ObjNode

fun node_at :: "string list \<Rightarrow> jsval \<Rightarrow> node option" where
  "node_at [] JUndefined = None"
| "node_at [] (JArr xs) = Some (ArrNode (length xs))"
| "node_at [] (JObj fs) = Some ObjNode"
| "node_at [] (JNonFinite x) = Some (ScalarNode JNull)"
| "node_at [] v = Some (ScalarNode v)"
| "node_at (k # p) (JObj fs) = (case map_of fs k of None \<Rightarrow> None | Some x \<Rightarrow> node_at p x)"
| "node_at (k # p) (JArr xs) =
     (if k = nat_str (str_nat k) \<and> str_nat k < length xs then node_at p (xs ! str_nat k) else None)"
| "node_at (k # p) v = None"

text \<open>Equal data, leaving aside what lies below a property called \<open>__proto__\<close>.\<close>

definition same_data :: "jsval \<Rightarrow> jsval \<Rightarrow> bool" where
  "same_data v w \<longleftrightarrow> (\<forall>p. ''__proto__'' \<notin> set p \<longrightarrow> node_at p v = node_at p w)"

lemma same_data_trans: "same_data u v \<Longrightarrow> same_data v w \<Longrightarrow> same_data u w"
  by (simp add: same_data_def)

lemma same_data_sym: "same_data v w \<Longrightarrow> same_data w v"
  by (simp add: same_data_def)

lemma map_of_image: "map_of (map (\<lambda>(k, x). (k, f x)) fs) k = map_option f (map_of fs k)"
  by (induction fs) auto

lemma node_at_json_image: "node_at p (json_image v) = node_at p v"
proof (induction p arbitrary: v)
  case Nil
  then show ?case by (cases v) simp_all
next
  case (Cons k p)
  then show ?case by (cases v) (auto simp: map_of_image split: option.split)
qed

lemma sorted_props_distinct [simp]:
  "distinct (map fst fs) \<Longrightarrow> distinct (map fst (sorted_props fs))"
  by (simp add: sorted_props_def distinct_map inj_on_def)

lemma map_of_sort_key: "distinct (map fst fs) \<Longrightarrow> map_of (sort_key fst fs) = map_of fs"
  by (rule map_of_inject_set [THEN iffD2]) (simp_all add: distinct_map)

lemma map_of_filter_distinct:
  "distinct (map fst fs) \<Longrightarrow> map_of (filter P fs) k =
    (case map_of fs k of Some x \<Rightarrow> if P (k, x) then Some x else None | None \<Rightarrow> None)"
  by (induction fs) (auto split: option.splits dest: map_of_SomeD simp: rev_image_eqI)

lemma sorted_props_lookup:
  assumes "distinct (map fst fs)"
  shows "map_of (sorted_props fs) k =
    (case map_of fs k of Some x \<Rightarrow> if is_defined x then Some x else None | None \<Rightarrow> None)"
proof -
  have "distinct (map fst (sort_key fst fs))" using assms by (simp add: distinct_map inj_on_def)
  then show ?thesis using assms
    by (simp add: sorted_props_def map_of_filter_distinct map_of_sort_key cong: option.case_cong)
qed

lemma list_all2_lookup:
  "list_all2 (\<lambda>p q. fst q = fst p \<and> R (snd p) (snd q)) fs ps \<Longrightarrow>
   rel_option R (map_of fs k) (map_of ps k)"
  by (induction fs ps rule: list_all2_induct) auto

lemma serialize_node:
  assumes "js_wf v" "serialize v = Inr w" "''__proto__'' \<notin> set p"
  shows "node_at p w = node_at p v"
  using assms
proof (induction p arbitrary: v w)
  case Nil
  then show ?case
    by (cases v) (auto elim!: serialize_arr serialize_obj dest: list_all2_lengthD simp del: serialize.simps(6,8))
next
  case (Cons k p)
  show ?case
  proof (cases v)
    case (JObj fs)
    from Cons.prems(2) obtain ps where ps: "w = JObj (assign_all ps)"
      "map fst ps = map fst (sorted_props fs)"
      "list_all2 (\<lambda>p q. fst q = fst p \<and> serialize (snd p) = Inr (snd q)) (sorted_props fs) ps"
      unfolding JObj by (rule serialize_obj)
    have d: "distinct (map fst fs)" using Cons.prems(1) by (simp add: JObj props_ok_def)
    then have "map_of (assign_all ps) k = map_of ps k"
      using Cons.prems(3) ps(2) by (auto simp: assign_all_lookup)
    moreover have "rel_option (\<lambda>x y. serialize x = Inr y) (map_of (sorted_props fs) k) (map_of ps k)"
      using list_all2_lookup [OF ps(3)] .
    moreover have "js_wf x" if "map_of fs k = Some x" for x
      using Cons.prems(1) map_of_SomeD [OF that] by (auto simp: JObj list_all_iff)
    moreover have "node_at p JUndefined = None" by (cases p) simp_all
    ultimately show ?thesis using Cons d ps(1)
      by (auto simp: JObj sorted_props_lookup is_defined_def split: option.splits if_splits)
  next
    case (JArr xs)
    from Cons.prems(2) obtain ys where "w = JArr ys" "list_all2 (\<lambda>x y. serialize x = Inr y) xs ys"
      unfolding JArr by (rule serialize_arr)
    then show ?thesis using Cons by (auto simp: JArr list_all2_conv_all_nth list_all_iff)
  qed (use Cons in auto)
qed

lemma canonicalJson_same_data:
  assumes "js_wf v" "js_wf w" "canonicalJson v = Inr t" "canonicalJson w = Inr t"
  shows "same_data v w"
proof -
  obtain v' w' where s: "serialize v = Inr v'" "serialize w = Inr w'"
    using assms canonicalJson_returns_iff serialize_returns by metis
  then have "json_image v' = json_image w'"
    using canonicalJson_text assms(3,4) by (metis sum.inject(2))
  then show ?thesis
    using serialize_node [OF assms(1) s(1)] serialize_node [OF assms(2) s(2)] node_at_json_image
    unfolding same_data_def by metis
qed


text \<open>Conversely values with the same data have the same text.\<close>

definition visible_props :: "jsobj \<Rightarrow> jsobj" where
  "visible_props fs = filter (\<lambda>p. fst p \<noteq> ''__proto__'') (sorted_props fs)"

lemma visible_props_lookup:
  "distinct (map fst fs) \<Longrightarrow> map_of (visible_props fs) k =
    (case map_of fs k of Some x \<Rightarrow> if is_defined x \<and> k \<noteq> ''__proto__'' then Some x else None | None \<Rightarrow> None)"
  by (simp add: visible_props_def map_of_filter_distinct sorted_props_lookup split: option.split)

lemma visible_props_sorted:
  "distinct (map fst fs) \<Longrightarrow> sorted (map fst (visible_props fs)) \<and> distinct (map fst (visible_props fs))"
  by (simp add: visible_props_def sorted_props_def distinct_map sorted_filter inj_on_def)

lemma insert_index_natural: "insert_index k (f v) (map (\<lambda>(k, x). (k, f x)) ob) = map (\<lambda>(k, x). (k, f x)) (insert_index k v ob)"
  by (induction k v ob rule: insert_index.induct) auto

lemma obj_assign_natural:
  "obj_assign k (f v) (map (\<lambda>(k, x). (k, f x)) ob) = map (\<lambda>(k, x). (k, f x)) (obj_assign k v ob)"
proof -
  have "AList.update k (f v) (map (\<lambda>(k, x). (k, f x)) ob) = map (\<lambda>(k, x). (k, f x)) (AList.update k v ob)"
    by (induction ob) auto
  then show ?thesis
    by (auto simp: obj_assign_def obj_put_def insert_index_natural image_iff)
qed

lemma assign_all_natural:
  "assign_all (map (\<lambda>(k, x). (k, f x)) ps) = map (\<lambda>(k, x). (k, f x)) (assign_all ps)"
proof (induction ps rule: rev_induct)
  case (snoc p ps)
  then show ?case by (cases p) (simp add: assign_all_snoc obj_assign_natural)
qed simp

definition canon :: "jsval \<Rightarrow> jsval" where
  "canon v = (case serialize v of Inr w \<Rightarrow> json_image w | Inl e \<Rightarrow> JUndefined)"

lemma canon_obj:
  assumes "canonical_ok (JObj fs)"
  shows "canon (JObj fs) = JObj (assign_all (map (\<lambda>(k, x). (k, canon x)) (visible_props fs)))"
proof -
  obtain w where w: "serialize (JObj fs) = Inr w" using assms serialize_returns by blast
  from w obtain ps where ps: "w = JObj (assign_all ps)"
    "list_all2 (\<lambda>p q. fst q = fst p \<and> serialize (snd p) = Inr (snd q)) (sorted_props fs) ps"
    by (rule serialize_obj)
  have "list_all2 (\<lambda>p q. fst q = fst p \<and> serialize (snd p) = Inr (snd q)) qs ps \<Longrightarrow>
    filter (\<lambda>p. fst p \<noteq> ''__proto__'') (map (\<lambda>(k, x). (k, json_image x)) ps) =
    map (\<lambda>(k, x). (k, canon x)) (filter (\<lambda>p. fst p \<noteq> ''__proto__'') qs)" for qs
    by (induction rule: list_all2_induct) (auto simp: canon_def)
  from this [OF ps(2)]
  have "filter (\<lambda>p. fst p \<noteq> ''__proto__'') (map (\<lambda>(k, x). (k, json_image x)) ps) =
        map (\<lambda>(k, x). (k, canon x)) (visible_props fs)"
    by (simp add: visible_props_def)
  then show ?thesis using w ps(1)
    by (simp add: canon_def assign_all_natural [symmetric] del: serialize.simps) (metis assign_all_filter)
qed

lemma canon_arr:
  assumes "canonical_ok (JArr xs)"
  shows "canon (JArr xs) = JArr (map canon xs)"
proof -
  obtain w where w: "serialize (JArr xs) = Inr w" using assms serialize_returns by blast
  from w obtain ys where ys: "w = JArr ys" "list_all2 (\<lambda>x y. serialize x = Inr y) xs ys"
    by (rule serialize_arr)
  have "map json_image ys = map canon xs"
    using ys(2) by (induction rule: list_all2_induct) (auto simp: canon_def)
  then show ?thesis using w ys(1) by (simp add: canon_def del: serialize.simps)
qed


lemma sorted_assoc_eqI:
  fixes xs ys :: "(string \<times> 'a) list"
  assumes "sorted (map fst xs)" "distinct (map fst xs)" "sorted (map fst ys)" "distinct (map fst ys)"
    "\<And>k. map_of xs k = map_of ys k"
  shows "xs = ys"
proof -
  have s: "set xs = set ys"
    using assms by (subst map_of_inject_set [symmetric]) (auto simp: fun_eq_iff)
  moreover have "inj_on fst (set xs \<union> set ys)"
    using assms(2) s by (simp add: distinct_map)
  ultimately show ?thesis
    using assms by (intro map_sorted_distinct_set_unique [of fst]) auto
qed

lemma node_at_undefined [simp]: "node_at p JUndefined = None"
  by (cases p) simp_all

lemma canonical_ok_node: "canonical_ok v \<Longrightarrow> node_at [] v \<noteq> None"
  by (cases v) simp_all

lemma same_data_obj_prop:
  assumes "same_data (JObj fs) (JObj gs)" "k \<noteq> ''__proto__''" "map_of fs k = Some x" "canonical_ok x"
  obtains y where "map_of gs k = Some y" "same_data x y" "is_defined y"
proof -
  have n: "node_at (k # p) (JObj fs) = node_at (k # p) (JObj gs)" if "''__proto__'' \<notin> set p" for p
    using assms(1,2) that unfolding same_data_def by (metis set_ConsD)
  have "node_at [] x \<noteq> None" using assms(4) by (rule canonical_ok_node)
  with n [of "[]"] assms(3) obtain y where y: "map_of gs k = Some y" "node_at [] y \<noteq> None"
    by (auto split: option.splits)
  then have "is_defined y" by (auto simp: is_defined_def)
  moreover have "same_data x y"
    using n assms(3) y(1) by (simp add: same_data_def)
  ultimately show thesis using that y(1) by blast
qed

lemma scalar_canon: "node_at [] v = Some (ScalarNode s) \<Longrightarrow> canonical_ok v \<Longrightarrow> canon v = s"
  by (cases v) (auto simp: canon_def)

lemma same_data_scalar:
  assumes "node_at [] v = Some (ScalarNode (json_image v))" "canonical_ok v" "canonical_ok w" "same_data v w"
  shows "canon v = canon w"
proof -
  have "node_at [] w = node_at [] v" using assms(4) by (simp add: same_data_def)
  then show ?thesis using assms scalar_canon by metis
qed

lemma ok_member:
  "canonical_ok (JObj fs) \<Longrightarrow> js_wf (JObj fs) \<Longrightarrow> map_of fs k = Some x \<Longrightarrow> is_defined x \<Longrightarrow> canonical_ok x \<and> js_wf x"
  by (drule map_of_SomeD) (auto simp: list_all_iff)

lemma same_data_visible:
  assumes ok: "canonical_ok (JObj fs)" "canonical_ok (JObj gs)" and wf: "js_wf (JObj fs)" "js_wf (JObj gs)"
    and sd: "same_data (JObj fs) (JObj gs)"
    and IH: "\<And>k x y. map_of fs k = Some x \<Longrightarrow> is_defined x \<Longrightarrow> canonical_ok x \<Longrightarrow> canonical_ok y
       \<Longrightarrow> js_wf x \<Longrightarrow> js_wf y \<Longrightarrow> same_data x y \<Longrightarrow> canon x = canon y"
  shows "canon (JObj fs) = canon (JObj gs)"
proof -
  have df: "distinct (map fst fs)" and dg: "distinct (map fst gs)"
    using wf by (auto simp: props_ok_def)
  let ?C = "\<lambda>hs. map (\<lambda>(k, x). (k, canon x)) (visible_props hs)"
  have "map_of (?C fs) k = map_of (?C gs) k" for k
  proof (cases "\<exists>x. map_of fs k = Some x \<and> is_defined x \<and> k \<noteq> ''__proto__''")
    case True
    then obtain x where x: "map_of fs k = Some x" "is_defined x" "k \<noteq> ''__proto__''" by blast
    note okx = ok_member [OF ok(1) wf(1) x(1,2)]
    obtain y where y: "map_of gs k = Some y" "same_data x y" "is_defined y"
      by (rule same_data_obj_prop [OF sd x(3,1)]) (simp_all add: okx)
    note oky = ok_member [OF ok(2) wf(2) y(1,3)]
    have "canon x = canon y"
      using IH [OF x(1,2)] okx oky y(2) by blast
    then show ?thesis using x y df dg by (simp add: map_of_image visible_props_lookup)
  next
    case False
    have "\<not> (map_of gs k = Some y \<and> is_defined y \<and> k \<noteq> ''__proto__'')" for y
    proof
      assume y: "map_of gs k = Some y \<and> is_defined y \<and> k \<noteq> ''__proto__''"
      then have "canonical_ok y" using ok_member [OF ok(2) wf(2)] by blast
      then obtain x where "map_of fs k = Some x" "is_defined x"
        using same_data_obj_prop [OF same_data_sym [OF sd]] y by metis
      then show False using False y by blast
    qed
    then have "map_of (visible_props gs) k = None" using dg
      by (cases "map_of gs k") (simp_all add: visible_props_lookup)
    moreover have "map_of (visible_props fs) k = None" using False df
      by (cases "map_of fs k") (simp_all add: visible_props_lookup)
    ultimately show ?thesis by (simp add: map_of_image)
  qed
  then have "?C fs = ?C gs"
    using visible_props_sorted [OF df] visible_props_sorted [OF dg]
    by (intro sorted_assoc_eqI) (auto simp: comp_def split_beta)
  then show ?thesis using ok by (simp add: canon_obj del: canonical_ok.simps)
qed

lemma nat_str_not_proto: "nat_str i \<noteq> ''__proto__''"
proof
  assume "nat_str i = ''__proto__''"
  then have "list_all is_digit ''__proto__''" using nat_str_digits [of i] by simp
  then show False by (simp add: is_digit_def char_code_def)
qed

lemma same_data_item:
  assumes "same_data (JArr xs) (JArr ys)" "i < length xs"
  shows "i < length ys" "same_data (xs ! i) (ys ! i)"
proof -
  have "node_at [] (JArr xs) = node_at [] (JArr ys)"
    using assms(1) unfolding same_data_def by (metis empty_iff empty_set)
  then show l: "i < length ys" using assms(2) by simp
  show "same_data (xs ! i) (ys ! i)"
    unfolding same_data_def
  proof (intro allI impI)
    fix p :: "string list" assume "''__proto__'' \<notin> set p"
    then have "node_at (nat_str i # p) (JArr xs) = node_at (nat_str i # p) (JArr ys)"
      using assms(1) nat_str_not_proto [of i] unfolding same_data_def by (metis set_ConsD)
    then show "node_at p (xs ! i) = node_at p (ys ! i)"
      using l assms(2) by simp
  qed
qed

lemma same_data_root: "same_data v w \<Longrightarrow> node_at [] w = node_at [] v"
  by (simp add: same_data_def)

lemma same_data_canon:
  "canonical_ok v \<Longrightarrow> canonical_ok w \<Longrightarrow> js_wf v \<Longrightarrow> js_wf w \<Longrightarrow> same_data v w \<Longrightarrow> canon v = canon w"
proof (induction v arbitrary: w rule: canonical_ok.induct)
  case (1 fs)
  then obtain gs where w: "w = JObj gs" using same_data_root [OF 1(6)] by (cases w) auto
  show ?case unfolding w
  proof (rule same_data_visible)
    fix k x y assume "map_of fs k = Some x" "is_defined x" "canonical_ok x" "canonical_ok y"
      "js_wf x" "js_wf y" "same_data x y"
    then show "canon x = canon y" using 1(1) [of "(k, x)" y] map_of_SomeD [of fs k x] by simp
  qed (use 1(2-6) w in blast)+
next
  case (2 xs)
  then obtain ys where w: "w = JArr ys" "length ys = length xs"
    using same_data_root [OF 2(6)] by (cases w) auto
  have "canon (xs ! i) = canon (ys ! i)" if i: "i < length xs" for i
    using 2(1) [OF nth_mem [OF i], of "ys ! i"] 2(2-5) i w(2) same_data_item [OF 2(6) [unfolded w(1)] i]
    by (simp add: list_all_length w(1))
  then have "map canon xs = map canon ys" using w(2) by (auto intro: nth_equalityI)
  then show ?case using 2(2,3) by (simp add: w(1) canon_arr del: canonical_ok.simps)
qed (simp_all add: same_data_scalar)



lemma canonicalJson_canon:
  assumes "canonical_ok v"
  shows "\<exists>w t. json_value w \<and> json_image w = canon v \<and> json_str w = Inr (Some t)
    \<and> canonicalJson v = Inr t \<and> json_parse t = Inr (canon v)"
proof -
  obtain w where w: "serialize v = Inr w" using assms serialize_returns by blast
  note jv = serialize_json_value [OF w]
  show ?thesis using json_roundtrip_image [OF jv] jv w
    by (auto simp: canonicalJson_def canon_def)
qed

lemma json_items_cong: "(\<And>x. x \<in> set xs \<Longrightarrow> json_str (f x) = json_str x) \<Longrightarrow> json_items (map f xs) = json_items xs"
  by (induction xs) auto

lemma json_members_cong:
  "(\<And>p. p \<in> set fs \<Longrightarrow> json_str (f (snd p)) = json_str (snd p)) \<Longrightarrow>
   json_members (map (\<lambda>(k, x). (k, f x)) fs) = json_members fs"
proof (induction fs)
  case (Cons p fs)
  then show ?case using Cons.prems [of p] by (cases p) simp
qed simp

lemma rmap_ident [simp]: "rmap (\<lambda>x. x) m = m"
  by (cases m) simp_all

lemma json_members_defined: "json_members (filter (\<lambda>p. is_defined (snd p)) fs) = json_members fs"
  by (induction fs) (auto simp: is_defined_def)

lemma json_str_image: "json_str (json_image w) = json_str w"
proof (induction w rule: json_image.induct)
  case (1 fs)
  have "json_str (json_image (snd p)) = json_str (snd p)" if "p \<in> set fs" for p
    using 1 [of p "fst p" "snd p"] that by simp
  then show ?case using json_members_cong [of fs json_image] by simp
next
  case (2 xs)
  then show ?case using json_items_cong [of xs json_image] by simp
qed simp_all

text \<open>What storage as JSON text does to an accepted value: its undefined properties are gone.\<close>

fun stored :: "jsval \<Rightarrow> jsval" where
  "stored (JObj fs) = JObj (map (\<lambda>(k, x). (k, stored x)) (filter (\<lambda>p. is_defined (snd p)) fs))"
| "stored (JArr xs) = JArr (map stored xs)"
| "stored v = v"


lemma json_str_stored: "json_str (stored v) = json_str v"
proof (induction v rule: stored.induct)
  case (1 fs)
  let ?gs = "filter (\<lambda>p. is_defined (snd p)) fs"
  have "json_str (stored (snd p)) = json_str (snd p)" if "p \<in> set ?gs" for p
    using 1 [of p "fst p" "snd p"] that by simp
  then have "json_members (map (\<lambda>(k, x). (k, stored x)) ?gs) = json_members ?gs"
    by (rule json_members_cong)
  then show ?case by (simp add: json_members_defined)
next
  case (2 xs)
  then show ?case using json_items_cong [of xs stored] by simp
qed simp_all

lemma props_ok_filter: "props_ok fs \<Longrightarrow> props_ok (filter P fs)"
  by (auto simp: props_ok_def distinct_map_filter sorted_wrt_map sorted_wrt_filter)

lemma stored_json_value: "canonical_ok v \<Longrightarrow> js_wf v \<Longrightarrow> json_value (stored v)"
proof (induction v rule: stored.induct)
  case (1 fs)
  have "json_value (stored (snd p))" if "p \<in> set fs" "is_defined (snd p)" for p
    using 1(1) [of p "fst p" "snd p"] 1(2,3) that by (simp add: list_all_iff)
  then show ?case using 1(3) by (auto simp: list_all_iff props_ok_filter)
next
  case (2 xs)
  then show ?case by (auto simp: list_all_iff)
qed simp_all

lemma is_plain_map [simp]:
  "is_plain (map (\<lambda>(k, x). (k, f x)) fs) \<longleftrightarrow> is_plain fs"
  by (simp add: is_plain_def image_image split_beta)

lemma is_plain_filter: "is_plain fs \<Longrightarrow> is_plain (filter P fs)"
  by (auto simp: is_plain_def)

lemma stored_ok: "canonical_ok v \<Longrightarrow> canonical_ok (stored v)"
proof (induction v rule: stored.induct)
  case (1 fs)
  have "canonical_ok (stored (snd p))" if "p \<in> set fs" "is_defined (snd p)" for p
    using 1(1) [of p "fst p" "snd p"] 1(2) that by (simp add: list_all_iff)
  then show ?case using 1(2) by (auto simp: list_all_iff is_plain_filter)
next
  case (2 xs)
  then show ?case by (auto simp: list_all_iff)
qed simp_all

lemma image_defined [simp]: "is_defined (json_image x) \<longleftrightarrow> is_defined x"
  by (cases x) (simp_all add: is_defined_def)

lemma image_ok: "canonical_ok v \<Longrightarrow> canonical_ok (json_image v)"
proof (induction v rule: json_image.induct)
  case (1 fs)
  have "canonical_ok (json_image (snd p))" if "p \<in> set fs" "is_defined (snd p)" for p
    using 1(1) [of p "fst p" "snd p"] 1(2) that by (simp add: list_all_iff)
  then show ?case using 1(2) by (auto simp: list_all_iff)
next
  case (2 xs)
  then show ?case by (auto simp: list_all_iff)
qed simp_all

lemma image_json_value: "json_value v \<Longrightarrow> json_value (json_image v)"
proof (induction v rule: json_image.induct)
  case (1 fs)
  then show ?case by (auto simp: list_all_iff)
next
  case (2 xs)
  then show ?case by (auto simp: list_all_iff)
qed simp_all

lemma json_value_wf: "json_value v \<Longrightarrow> js_wf v"
proof (induction v rule: json_value.induct)
  case (1 fs)
  then show ?case by (auto simp: list_all_iff)
next
  case (2 xs)
  then show ?case by (auto simp: list_all_iff)
qed simp_all

lemma node_at_stored: "js_wf v \<Longrightarrow> node_at p (stored v) = node_at p v"
proof (induction p arbitrary: v)
  case Nil
  then show ?case by (cases v) simp_all
next
  case (Cons k p)
  show ?case
  proof (cases v)
    case (JObj fs)
    then have d: "distinct (map fst fs)" and w: "\<And>x. map_of fs k = Some x \<Longrightarrow> js_wf x"
      using Cons.prems by (fastforce simp: props_ok_def list_all_iff dest: map_of_SomeD)+
    then show ?thesis using Cons.IH
      by (cases "map_of fs k") (auto simp: JObj map_of_image map_of_filter_distinct is_defined_def)
  qed (use Cons in \<open>auto simp: list_all_length\<close>)
qed

lemma stored_text:
  assumes "canonical_ok v" "js_wf v"
  shows "\<exists>t. json_str v = Inr (Some t) \<and> json_parse t = Inr (json_image (stored v))"
    and "canonicalJson (json_image (stored v)) = canonicalJson v"
proof -
  show "\<exists>t. json_str v = Inr (Some t) \<and> json_parse t = Inr (json_image (stored v))"
    using json_roundtrip_image [OF stored_json_value [OF assms]] by (simp add: json_str_stored)
  have "same_data (json_image (stored v)) v"
    using assms(2) by (simp add: same_data_def node_at_json_image node_at_stored)
  then have "canon (json_image (stored v)) = canon v"
    using assms stored_ok image_ok stored_json_value image_json_value json_value_wf
    by (intro same_data_canon) auto
  then show "canonicalJson (json_image (stored v)) = canonicalJson v"
    using canonicalJson_canon [OF assms(1)]
      canonicalJson_canon [OF image_ok [OF stored_ok [OF assms(1)]]] json_str_image
    by (metis option.inject sum.inject(2))
qed


lemma canonical_text_same:
  assumes "canonical_ok v" "canonical_ok w" "js_wf v" "js_wf w"
  shows "canonicalJson v = canonicalJson w \<longleftrightarrow> same_data v w"
proof
  assume "canonicalJson v = canonicalJson w"
  then show "same_data v w"
    using canonicalJson_same_data [of v w] assms canonicalJson_returns_iff by metis
next
  assume "same_data v w"
  then have "canon v = canon w" using assms by (intro same_data_canon)
  then show "canonicalJson v = canonicalJson w"
    using canonicalJson_canon [OF assms(1)] canonicalJson_canon [OF assms(2)] json_str_image
    by (metis option.inject sum.inject(2))
qed

section \<open>Properties\<close>

text \<open>
  C1: \<open>canonicalJson\<close> returns a text for exactly the values that hold no \<open>undefined\<close> outside
  an object property, no function, symbol, big integer, date or class instance, and no object
  with an own property \<open>constructor\<close>; for every other value it throws.
\<close>

theorem canonicalJson_total: "(\<exists>t. canonicalJson v = Inr t) \<longleftrightarrow> canonical_ok v"
  by (rule canonicalJson_returns_iff)

text \<open>
  C2: Two accepted values have the same canonical text exactly when they hold the same data path
  by path: neither the order of an object's properties nor properties that are \<open>undefined\<close>
  matter, and nothing is lost except what stands below a property named \<open>__proto__\<close> and the
  difference between \<open>null\<close> and a non-finite number.
\<close>

theorem canonical_text_iff:
  assumes "canonical_ok v" "canonical_ok w" "js_wf v" "js_wf w"
  shows "canonicalJson v = canonicalJson w \<longleftrightarrow> same_data v w"
  using assms by (rule canonical_text_same)

theorem canonical_text_iff_witness:
  "canonicalJson (JObj [(''b'', JNum 1), (''a'', JArr [JNull]), (''c'', JUndefined)])
     = canonicalJson (JObj [(''a'', JArr [JNull]), (''b'', JNum 1)])
   \<longleftrightarrow> same_data (JObj [(''b'', JNum 1), (''a'', JArr [JNull]), (''c'', JUndefined)])
                (JObj [(''a'', JArr [JNull]), (''b'', JNum 1)])"
  by (rule canonical_text_iff) code_simp+

text \<open>
  C3: An accepted value survives storage as JSON text: \<open>JSON.stringify\<close> prints it, \<open>JSON.parse\<close>
  reads the text back, and the value read back has the canonical text of the original, so a
  hash over the canonical text can be recomputed from a stored row.
\<close>

theorem canonical_survives_storage:
  assumes "canonical_ok v" "js_wf v"
  shows "\<exists>t w. json_str v = Inr (Some t) \<and> json_parse t = Inr w \<and> canonicalJson w = canonicalJson v"
  using stored_text [OF assms] by blast

theorem canonical_survives_storage_witness:
  "\<exists>t w. json_str (JObj [(''b'', JNum 1), (''a'', JArr [JStr ''x'']), (''c'', JUndefined)]) = Inr (Some t)
     \<and> json_parse t = Inr w
     \<and> canonicalJson w = canonicalJson (JObj [(''b'', JNum 1), (''a'', JArr [JStr ''x'']), (''c'', JUndefined)])"
  by (rule canonical_survives_storage) code_simp+

text \<open>
  What stands below an own property called \<open>__proto__\<close> (which \<open>JSON.parse\<close> does create) is
  not part of the canonical text: \<open>sorted[key] = ...\<close> runs the setter of \<open>Object.prototype\<close>
  instead of adding a property. Two values that differ only there are accepted and have the
  same text.
\<close>

theorem canonical_ignores_proto:
  assumes "canonical_ok (JObj (fs @ [(''__proto__'', a)]))" "canonical_ok (JObj (fs @ [(''__proto__'', b)]))"
    and "js_wf (JObj (fs @ [(''__proto__'', a)]))" "js_wf (JObj (fs @ [(''__proto__'', b)]))"
  shows "canonicalJson (JObj (fs @ [(''__proto__'', a)])) = canonicalJson (JObj (fs @ [(''__proto__'', b)]))"
proof -
  have "node_at p (JObj (fs @ [(''__proto__'', a)])) = node_at p (JObj (fs @ [(''__proto__'', b)]))"
    if "''__proto__'' \<notin> set p" for p
    using that by (cases p) (auto simp: map_add_def split: option.split)
  then show ?thesis
    using assms by (simp add: canonical_text_same same_data_def del: canonical_ok.simps js_wf.simps)
qed

theorem canonical_ignores_proto_witness:
  "canonicalJson (JObj ([(''a'', JNum 1)] @ [(''__proto__'', JNum 1)]))
     = canonicalJson (JObj ([(''a'', JNum 1)] @ [(''__proto__'', JObj [(''admin'', JBool True)])]))"
  by (rule canonical_ignores_proto) code_simp+

end
