(* ===== verification/Types.thy ===== *)
theory Types
  imports Canonical
begin

text \<open>
  \<open>src/types.ts\<close>: the event, its chained form, the reports and the configuration enumerations.
  A field of type \<open>T | null\<close> is an option, an optional field that may also be null an option of
  an option. Payloads (\<open>Record<string, unknown>\<close>) are property lists of \<open>jsval\<close>.
\<close>

record audit_actor =
  actorType :: string
  actorId :: "string option"
  actorLabel :: "string option option"

record audit_event =
  eventId :: string
  eventName :: string
  stream :: string
  auditableType :: "string option"
  auditableId :: "string option"
  oldValues :: "jsobj option"
  newValues :: "jsobj option"
  metadata :: "jsobj option"
  actor :: audit_actor
  tenantId :: "string option"
  requestId :: "string option"
  correlationId :: "string option"
  ipAddress :: "string option"
  userAgent :: "string option"
  url :: "string option"
  httpMethod :: "string option"
  tags :: "string list"
  schemaVersion :: string
  createdAt :: string

record chained_event =
  base :: audit_event
  seq :: int
  hash :: string
  prevHash :: string

type_synonym chain_head = "int \<times> string"

abbreviation row_stream :: "chained_event \<Rightarrow> string" where
  "row_stream r \<equiv> stream (base r)"

record verify_report =
  reportStream :: string
  valid :: bool
  firstInvalidSeq :: "int option"
  expectedHash :: "string option"
  actualHash :: "string option"
  checkedCount :: nat

datatype guarantee_mode = BestEffort | RequestCoupled | TransactionalOutbox
datatype overflow_strategy = DropOldest | DropNew | Block
datatype redaction_mode = MaskMode | RemoveMode | HashMode

record prune_report =
  prunedStreams :: "string list"
  totalPruned :: nat
  perEventCounts :: "(string \<times> nat) list"

record pipeline_stats =
  queued :: nat
  written :: nat
  dropped :: nat
  retried :: nat
  deadLettered :: nat
  lastFlushAt :: "int option"

record retention_policy =
  retentionDefault :: string
  retentionPerEvent :: "(string \<times> string) list option"

record retention_segment =
  idempotencyKey :: string
  segmentEvent :: string
  segmentStream :: string
  segmentFrom :: int
  segmentTo :: int
  segmentCount :: nat
  segmentFromCreatedAt :: string
  segmentToCreatedAt :: string

text \<open>Nullable fields as JavaScript values.\<close>

definition opt_str :: "string option \<Rightarrow> jsval" where
  "opt_str x = (case x of None \<Rightarrow> JNull | Some s \<Rightarrow> JStr s)"

definition opt_obj :: "jsobj option \<Rightarrow> jsval" where
  "opt_obj x = (case x of None \<Rightarrow> JNull | Some fs \<Rightarrow> JObj fs)"

lemma opt_str_inject [simp]: "opt_str x = opt_str y \<longleftrightarrow> x = y"
  by (cases x; cases y) (simp_all add: opt_str_def)

lemma opt_str_ok [simp]: "canonical_ok (opt_str x)" "js_wf (opt_str x)" "is_defined (opt_str x)"
  by (cases x; simp add: opt_str_def is_defined_def)+

lemma opt_obj_defined [simp]: "is_defined (opt_obj x)"
  by (cases x) (simp_all add: opt_obj_def is_defined_def)

lemma node_at_str [simp]: "node_at [] (JStr s) = Some (ScalarNode (JStr s))"
  by simp

lemma node_at_opt_str [simp]: "node_at [] (opt_str x) = Some (ScalarNode (opt_str x))"
  by (cases x) (simp_all add: opt_str_def)

end
