(* ===== verification/HashChain.thy ===== *)
theory HashChain
  imports Types
begin

text \<open>
  \<open>src/core/hash_chain.ts\<close>: the hashed view of an event, chaining a batch onto a head, and the
  streaming verifier. The digest \<open>createHash('sha256').update(t).digest('hex')\<close> is code of the
  runtime and a parameter \<open>H\<close> of every definition that uses it.
\<close>

section \<open>Hashing and chaining\<close>

definition GENESIS :: string where
  "GENESIS = replicate 64 (CHR ''0'')"

definition pickHashedFields :: "audit_event \<Rightarrow> int \<Rightarrow> string \<Rightarrow> jsobj" where
  "pickHashedFields e n prev =
    [(''id'', JStr (eventId e)),
     (''seq'', JNum n),
     (''stream'', JStr (stream e)),
     (''event'', JStr (eventName e)),
     (''auditableType'', opt_str (auditableType e)),
     (''auditableId'', opt_str (auditableId e)),
     (''oldValues'', opt_obj (oldValues e)),
     (''newValues'', opt_obj (newValues e)),
     (''metadata'', opt_obj (metadata e)),
     (''actor'', JObj [(''type'', JStr (actorType (actor e))), (''id'', opt_str (actorId (actor e)))]),
     (''tenantId'', opt_str (tenantId e)),
     (''schemaVersion'', JStr (schemaVersion e)),
     (''createdAt'', JStr (createdAt e)),
     (''prevHash'', JStr prev)]"

definition hashed_text :: "audit_event \<Rightarrow> int \<Rightarrow> string \<Rightarrow> string result" where
  "hashed_text e n prev = canonicalJson (JObj (pickHashedFields e n prev))"

definition hashEntry :: "(string \<Rightarrow> string) \<Rightarrow> audit_event \<Rightarrow> int \<Rightarrow> string \<Rightarrow> string result" where
  "hashEntry H e n prev = rmap H (hashed_text e n prev)"

fun chain_from :: "(string \<Rightarrow> string) \<Rightarrow> int \<Rightarrow> string \<Rightarrow> audit_event list \<Rightarrow> chained_event list result" where
  "chain_from H n prev [] = Inr []"
| "chain_from H n prev (e # es) =
     rbind (hashEntry H e n prev) (\<lambda>h.
       rmap ((#) \<lparr>base = e, seq = n, hash = h, prevHash = prev\<rparr>) (chain_from H (n + 1) h es))"

definition chainBatch :: "(string \<Rightarrow> string) \<Rightarrow> audit_event list \<Rightarrow> chain_head option \<Rightarrow> chained_event list result" where
  "chainBatch H batch head =
     (case head of None \<Rightarrow> chain_from H 1 GENESIS batch
      | Some (n, h) \<Rightarrow> chain_from H (n + 1) h batch)"

section \<open>The verifier\<close>

record stream_state =
  prevSeq :: int
  statePrevHash :: string
  checked :: nat
  stateFirstInvalid :: "int option"

definition fresh_state :: stream_state where
  "fresh_state = \<lparr>prevSeq = 0, statePrevHash = GENESIS, checked = 0, stateFirstInvalid = None\<rparr>"

definition check_row :: "(string \<Rightarrow> string) \<Rightarrow> stream_state \<Rightarrow> chained_event \<Rightarrow> (stream_state \<times> verify_report) result" where
  "check_row H st row =
    (let st = st\<lparr>checked := checked st + 1\<rparr>; expectedSeq = prevSeq st + 1 in
     rbind (hashEntry H (base row) expectedSeq (statePrevHash st)) (\<lambda>expected.
       if seq row = expectedSeq \<and> hash row = expected
       then Inr (st\<lparr>prevSeq := seq row, statePrevHash := hash row\<rparr>,
              \<lparr>reportStream = row_stream row, valid = True, firstInvalidSeq = None,
               expectedHash = None, actualHash = None, checkedCount = checked st\<rparr>)
       else (let st = (if stateFirstInvalid st = None then st\<lparr>stateFirstInvalid := Some expectedSeq\<rparr> else st)
             in Inr (st,
              \<lparr>reportStream = row_stream row, valid = False, firstInvalidSeq = stateFirstInvalid st,
               expectedHash = Some expected, actualHash = Some (hash row), checkedCount = checked st\<rparr>))))"

definition stream_state_of :: "(string \<times> stream_state) list \<Rightarrow> string \<Rightarrow> stream_state" where
  "stream_state_of m s = (case map_of m s of None \<Rightarrow> fresh_state | Some st \<Rightarrow> st)"

text \<open>
  The generator yields the reports one by one and ends, or throws after those it has yielded:
  the reports, and the error when it throws.
\<close>

fun verify_rows :: "(string \<Rightarrow> string) \<Rightarrow> (string \<times> stream_state) list \<Rightarrow> chained_event list
    \<Rightarrow> verify_report list \<times> audit_error option" where
  "verify_rows H m [] = ([], None)"
| "verify_rows H m (row # rows) =
     (case check_row H (stream_state_of m (row_stream row)) row of
        Inl e \<Rightarrow> ([], Some e)
      | Inr (st, rep) \<Rightarrow>
          (let (reps, err) = verify_rows H (AList.update (row_stream row) st m) rows
           in (rep # reps, err)))"

definition verifyChain :: "(string \<Rightarrow> string) \<Rightarrow> chained_event list \<Rightarrow> verify_report list \<times> audit_error option" where
  "verifyChain H rows = verify_rows H [] rows"

text \<open>A verification passes when it ends without a throw and every report is valid.\<close>

definition passes :: "verify_report list \<times> audit_error option \<Rightarrow> bool" where
  "passes res \<longleftrightarrow> snd res = None \<and> list_all valid (fst res)"

section \<open>Linked rows\<close>

text \<open>
  The abstract contract: the rows of a stream are numbered consecutively and each carries the
  digest of its own fields, its number and the digest of its predecessor.
\<close>

fun linked_from :: "(string \<Rightarrow> string) \<Rightarrow> int \<Rightarrow> string \<Rightarrow> chained_event list \<Rightarrow> bool" where
  "linked_from H n prev [] \<longleftrightarrow> True"
| "linked_from H n prev (r # rs) \<longleftrightarrow>
     seq r = n \<and> hashEntry H (base r) n prev = Inr (hash r) \<and> linked_from H (n + 1) (hash r) rs"

definition linked :: "(string \<Rightarrow> string) \<Rightarrow> chained_event list \<Rightarrow> bool" where
  "linked H rows = linked_from H 1 GENESIS rows"

definition end_hash :: "string \<Rightarrow> chained_event list \<Rightarrow> string" where
  "end_hash prev rows = (if rows = [] then prev else hash (last rows))"

definition head_of :: "chained_event list \<Rightarrow> chain_head option" where
  "head_of rows = (if rows = [] then None else Some (seq (last rows), hash (last rows)))"

definition of_stream :: "string \<Rightarrow> chained_event list \<Rightarrow> chained_event list" where
  "of_stream s rows = filter (\<lambda>r. row_stream r = s) rows"

lemma of_stream_simps [simp]:
  "of_stream s [] = []"
  "of_stream s (r # rs) = (if row_stream r = s then r # of_stream s rs else of_stream s rs)"
  "of_stream s (xs @ ys) = of_stream s xs @ of_stream s ys"
  by (simp_all add: of_stream_def)

lemma end_hash_simps [simp]:
  "end_hash p [] = p" "end_hash p (r # rs) = end_hash (hash r) rs"
  "end_hash p (xs @ ys) = end_hash (end_hash p xs) ys"
  by (auto simp: end_hash_def)

lemma linked_from_append [simp]:
  "linked_from H n p (xs @ ys) \<longleftrightarrow>
     linked_from H n p xs \<and> linked_from H (n + int (length xs)) (end_hash p xs) ys"
  by (induction xs arbitrary: n p) (auto simp: add.assoc add.commute)

lemma linked_append:
  "linked H (xs @ ys) \<longleftrightarrow> linked H xs \<and> linked_from H (1 + int (length xs)) (end_hash GENESIS xs) ys"
  by (simp add: linked_def)

lemma linked_from_seq: "linked_from H n p rows \<Longrightarrow> i < length rows \<Longrightarrow> seq (rows ! i) = n + int i"
  by (induction rows arbitrary: n p i) (auto simp: nth_Cons split: nat.split)

lemma linked_head:
  assumes "linked H rows"
  shows "head_of rows = (if rows = [] then None else Some (int (length rows), end_hash GENESIS rows))"
  using assms linked_from_seq [of H 1 GENESIS rows "length rows - 1"]
  by (auto simp: head_of_def linked_def last_conv_nth end_hash_def of_nat_diff Suc_leI)

section \<open>Chaining\<close>

lemma chain_from_linked:
  "chain_from H n p es = Inr rs \<Longrightarrow> linked_from H n p rs \<and> map base rs = es"
  by (induction es arbitrary: n p rs) (auto simp: result_iff)

lemma chainBatch_linked:
  assumes "linked H rows" "chainBatch H es (head_of rows) = Inr rs"
  shows "linked H (rows @ rs) \<and> map base rs = es"
  using assms chain_from_linked
  by (fastforce simp: linked_head chainBatch_def linked_append algebra_simps split: if_splits)

lemma is_defined_simps [simp]: "is_defined (JStr s)" "is_defined (JNum n)" "is_defined (JObj fs)" "is_defined JNull"
  by (simp_all add: is_defined_def)

lemma pick_ok:
  "canonical_ok (JObj (pickHashedFields e n p)) \<longleftrightarrow>
     canonical_ok (opt_obj (oldValues e)) \<and> canonical_ok (opt_obj (newValues e)) \<and> canonical_ok (opt_obj (metadata e))"
  by (auto simp: pickHashedFields_def is_plain_def)

definition hashable :: "audit_event \<Rightarrow> bool" where
  "hashable e \<longleftrightarrow> canonical_ok (opt_obj (oldValues e)) \<and> canonical_ok (opt_obj (newValues e))
     \<and> canonical_ok (opt_obj (metadata e))"

lemma hashed_text_returns: "(\<exists>t. hashed_text e n p = Inr t) \<longleftrightarrow> hashable e"
  by (simp add: hashed_text_def canonicalJson_returns_iff pick_ok hashable_def del: canonical_ok.simps)

lemma hashEntry_returns: "(\<exists>h. hashEntry H e n p = Inr h) \<longleftrightarrow> hashable e"
  by (simp add: hashEntry_def rmap_returns hashed_text_returns)

lemma chain_from_returns: "(\<exists>rs. chain_from H n p es = Inr rs) \<longleftrightarrow> list_all hashable es"
proof (induction es arbitrary: n p)
  case (Cons e es)
  then show ?case
    by (cases "hashEntry H e n p") (use hashEntry_returns [of H e n p] in \<open>auto simp: rmap_returns\<close>)
qed simp

lemma chainBatch_returns: "(\<exists>rs. chainBatch H es head = Inr rs) \<longleftrightarrow> list_all hashable es"
  by (cases head) (simp_all add: chainBatch_def chain_from_returns split: prod.split)

lemma linked_from_iff_chain:
  assumes "linked_from H n p rows"
  shows "\<exists>rs. chain_from H n p (map base rows) = Inr rs \<and> map seq rs = map seq rows \<and> map hash rs = map hash rows"
  using assms by (induction rows arbitrary: n p) (auto simp: result_iff, metis rmap_simps(2) list.simps(9) chained_event.select_convs)

section \<open>The verifier accepts exactly the linked rows\<close>

lemma stream_state_of_update [simp]:
  "stream_state_of (AList.update s st m) s' = (if s = s' then st else stream_state_of m s')"
  by (simp add: stream_state_of_def)

definition row_matches :: "(string \<Rightarrow> string) \<Rightarrow> stream_state \<Rightarrow> chained_event \<Rightarrow> bool" where
  "row_matches H st row \<longleftrightarrow>
     seq row = prevSeq st + 1 \<and> hashEntry H (base row) (prevSeq st + 1) (statePrevHash st) = Inr (hash row)"

lemma check_row_match:
  "row_matches H st row \<Longrightarrow>
   check_row H st row = Inr (st\<lparr>checked := checked st + 1, prevSeq := seq row, statePrevHash := hash row\<rparr>,
      \<lparr>reportStream = row_stream row, valid = True, firstInvalidSeq = None,
       expectedHash = None, actualHash = None, checkedCount = checked st + 1\<rparr>)"
  by (simp add: row_matches_def check_row_def Let_def)

definition first_break :: "stream_state \<Rightarrow> int" where
  "first_break st = (case stateFirstInvalid st of None \<Rightarrow> prevSeq st + 1 | Some n \<Rightarrow> n)"

lemma check_row_mismatch:
  assumes "\<not> row_matches H st row" "check_row H st row = Inr (st', rep)"
  shows "st' = st\<lparr>checked := checked st + 1, stateFirstInvalid := Some (first_break st)\<rparr>"
    and "\<not> valid rep" "firstInvalidSeq rep = Some (first_break st)" "reportStream rep = row_stream row"
proof -
  obtain x where x: "hashEntry H (base row) (prevSeq st + 1) (statePrevHash st) = Inr x"
    using assms(2) by (auto simp: check_row_def Let_def result_iff)
  have "\<not> (seq row = prevSeq st + 1 \<and> hash row = x)"
    using assms(1) x by (auto simp: row_matches_def)
  moreover have "st\<lparr>checked := Suc (checked st)\<rparr> =
      st\<lparr>checked := Suc (checked st), stateFirstInvalid := Some n\<rparr>" if "stateFirstInvalid st = Some n" for n
    using that by (cases st) simp
  ultimately show "st' = st\<lparr>checked := checked st + 1, stateFirstInvalid := Some (first_break st)\<rparr>"
    and "\<not> valid rep" "firstInvalidSeq rep = Some (first_break st)" "reportStream rep = row_stream row"
    using assms(2) x
    by (auto simp: check_row_def Let_def first_break_def split: if_splits option.splits)
qed

lemma verify_rows_passes:
  "passes (verify_rows H m rows) \<longleftrightarrow>
     (\<forall>s. linked_from H (prevSeq (stream_state_of m s) + 1) (statePrevHash (stream_state_of m s)) (of_stream s rows))"
proof (induction rows arbitrary: m)
  case Nil
  then show ?case by (simp add: passes_def)
next
  case (Cons row rows)
  let ?st = "stream_state_of m (row_stream row)"
  show ?case
  proof (cases "row_matches H ?st row")
    case True
    then have "passes (verify_rows H m (row # rows)) \<longleftrightarrow> passes (verify_rows H (AList.update (row_stream row)
       (?st\<lparr>checked := checked ?st + 1, prevSeq := seq row, statePrevHash := hash row\<rparr>) m) rows)"
      by (simp add: check_row_match passes_def split: prod.split)
    then show ?thesis using True by (auto simp: Cons.IH row_matches_def)
  next
    case False
    have "\<not> passes (verify_rows H m (row # rows))"
    proof (cases "check_row H ?st row")
      case (Inr p)
      then show ?thesis using check_row_mismatch(2) [OF False, of "fst p" "snd p"]
        by (cases p) (simp add: passes_def split: prod.split)
    qed (simp add: passes_def)
    then show ?thesis using False by (auto simp: row_matches_def)
  qed
qed

lemma verifyChain_passes: "passes (verifyChain H rows) \<longleftrightarrow> (\<forall>s. linked H (of_stream s rows))"
  by (simp add: verifyChain_def verify_rows_passes linked_def stream_state_of_def fresh_state_def)

text \<open>A row that does not fit stays broken for the rows behind it: what the later reports say.\<close>

lemma verify_rows_stuck:
  assumes "list_all (\<lambda>r. row_stream r = s \<and> \<not> row_matches H (stream_state_of m s) r) rows"
    and "snd (verify_rows H m rows) = None"
  shows "list_all (\<lambda>rep. \<not> valid rep \<and> firstInvalidSeq rep = Some (first_break (stream_state_of m s)))
      (fst (verify_rows H m rows))"
  using assms
proof (induction rows arbitrary: m)
  case (Cons row rows)
  let ?st = "stream_state_of m s"
  have row: "row_stream row = s" "\<not> row_matches H ?st row" using Cons.prems(1) by simp_all
  obtain st' rep where c: "check_row H ?st row = Inr (st', rep)"
    using Cons.prems(2) row(1) by (cases "check_row H ?st row") auto
  note mm = check_row_mismatch [OF row(2) c]
  let ?m = "AList.update s st' m"
  have same: "first_break (stream_state_of ?m s) = first_break ?st"
    "row_matches H (stream_state_of ?m s) r = row_matches H ?st r" for r
    by (simp_all add: mm(1) first_break_def row_matches_def)
  have "list_all (\<lambda>rep. \<not> valid rep \<and> firstInvalidSeq rep = Some (first_break (stream_state_of ?m s)))
      (fst (verify_rows H ?m rows))"
    using Cons.prems row(1) c same(2) by (intro Cons.IH) (auto split: prod.splits)
  then show ?case using mm c row(1) same(1) by (auto split: prod.split)
qed simp

lemma verify_rows_good:
  assumes "list_all (\<lambda>r. row_stream r = s) good"
    and "linked_from H (prevSeq (stream_state_of m s) + 1) (statePrevHash (stream_state_of m s)) good"
  shows "\<exists>m'. verify_rows H m (good @ rest) = (let (reps, err) = verify_rows H m' rest in (fst (verify_rows H m good) @ reps, err))
     \<and> length (fst (verify_rows H m good)) = length good \<and> list_all valid (fst (verify_rows H m good))
     \<and> prevSeq (stream_state_of m' s) = prevSeq (stream_state_of m s) + int (length good)
     \<and> statePrevHash (stream_state_of m' s) = end_hash (statePrevHash (stream_state_of m s)) good
     \<and> stateFirstInvalid (stream_state_of m' s) = stateFirstInvalid (stream_state_of m s)"
  using assms
proof (induction good arbitrary: m)
  case Nil
  then show ?case by auto
next
  case (Cons row rows)
  let ?st = "stream_state_of m s"
  let ?m = "AList.update s (?st\<lparr>checked := checked ?st + 1, prevSeq := seq row, statePrevHash := hash row\<rparr>) m"
  have row: "row_stream row = s" "row_matches H ?st row" using Cons.prems by (simp_all add: row_matches_def)
  from Cons.IH [of ?m] Cons.prems obtain m' where m': 
    "verify_rows H ?m (rows @ rest) = (let (reps, err) = verify_rows H m' rest in (fst (verify_rows H ?m rows) @ reps, err))"
    "length (fst (verify_rows H ?m rows)) = length rows" "list_all valid (fst (verify_rows H ?m rows))"
    "prevSeq (stream_state_of m' s) = seq row + int (length rows)"
    "statePrevHash (stream_state_of m' s) = end_hash (hash row) rows"
    "stateFirstInvalid (stream_state_of m' s) = stateFirstInvalid ?st"
    by auto
  then show ?case
    using row Cons.prems by (intro exI [of _ m']) (auto simp: check_row_match split: prod.splits)
qed


section \<open>What the digests determine\<close>

definition payloads_wf :: "audit_event \<Rightarrow> bool" where
  "payloads_wf e \<longleftrightarrow> js_wf (opt_obj (oldValues e)) \<and> js_wf (opt_obj (newValues e)) \<and> js_wf (opt_obj (metadata e))"

text \<open>Equality of everything the hash is meant to cover.\<close>

definition same_hashed_fields :: "audit_event \<Rightarrow> audit_event \<Rightarrow> bool" where
  "same_hashed_fields e f \<longleftrightarrow>
     eventId e = eventId f \<and> stream e = stream f \<and> eventName e = eventName f \<and>
     auditableType e = auditableType f \<and> auditableId e = auditableId f \<and>
     same_data (opt_obj (oldValues e)) (opt_obj (oldValues f)) \<and>
     same_data (opt_obj (newValues e)) (opt_obj (newValues f)) \<and>
     same_data (opt_obj (metadata e)) (opt_obj (metadata f)) \<and>
     actorType (actor e) = actorType (actor f) \<and> actorId (actor e) = actorId (actor f) \<and>
     tenantId e = tenantId f \<and> schemaVersion e = schemaVersion f \<and> createdAt e = createdAt f"

lemma pick_wf: "payloads_wf e \<Longrightarrow> js_wf (JObj (pickHashedFields e n p))"
proof -
  assume w: "payloads_wf e"
  have i: "\<not> is_index_key k" if "k \<in> {''id'', ''seq'', ''stream'', ''event'', ''auditableType'', ''auditableId'',
    ''oldValues'', ''newValues'', ''metadata'', ''actor'', ''tenantId'', ''schemaVersion'', ''createdAt'', ''prevHash'', ''type''}" for k
    using that by (auto simp: is_index_key_def is_digit_def char_code_def)
  show ?thesis using w i
    by (simp add: pickHashedFields_def payloads_wf_def props_ok_def key_before_def)
qed

lemma node_at_field:
  "map_of fs k = Some x \<Longrightarrow> node_at (k # p) (JObj fs) = node_at p x"
  by simp

lemma hashed_text_inject:
  assumes "payloads_wf e" "payloads_wf f" "hashed_text e n p = Inr t" "hashed_text f m q = Inr t"
  shows "same_hashed_fields e f" "n = m" "p = q"
proof -
  let ?E = "JObj (pickHashedFields e n p)" and ?F = "JObj (pickHashedFields f m q)"
  have "same_data ?E ?F"
    using canonicalJson_same_data [OF pick_wf [OF assms(1)] pick_wf [OF assms(2)]] assms(3,4)
    by (simp add: hashed_text_def)
  then have d: "node_at p ?E = node_at p ?F" if "''__proto__'' \<notin> set p" for p
    using that by (simp add: same_data_def)
  have "same_data (opt_obj (oldValues e)) (opt_obj (oldValues f))"
    "same_data (opt_obj (newValues e)) (opt_obj (newValues f))"
    "same_data (opt_obj (metadata e)) (opt_obj (metadata f))"
    using d [of "''oldValues'' # _"] d [of "''newValues'' # _"] d [of "''metadata'' # _"]
    by (simp_all add: same_data_def pickHashedFields_def)
  moreover have "eventId e = eventId f" "stream e = stream f" "eventName e = eventName f"
    using d [of "[''id'']"] d [of "[''stream'']"] d [of "[''event'']"]
    by (simp_all add: pickHashedFields_def)
  moreover have "auditableType e = auditableType f" "auditableId e = auditableId f" "tenantId e = tenantId f"
    using d [of "[''auditableType'']"] d [of "[''auditableId'']"] d [of "[''tenantId'']"]
    by (simp_all add: pickHashedFields_def)
  moreover have "actorType (actor e) = actorType (actor f)" "actorId (actor e) = actorId (actor f)"
    using d [of "[''actor'', ''type'']"] d [of "[''actor'', ''id'']"]
    by (simp_all add: pickHashedFields_def)
  moreover have "schemaVersion e = schemaVersion f" "createdAt e = createdAt f"
    using d [of "[''schemaVersion'']"] d [of "[''createdAt'']"]
    by (simp_all add: pickHashedFields_def)
  ultimately show "same_hashed_fields e f" by (simp add: same_hashed_fields_def)
  show "n = m" "p = q" using d [of "[''seq'']"] d [of "[''prevHash'']"]
    by (simp_all add: pickHashedFields_def)
qed

text \<open>The text whose digest row \<open>i\<close> carries, and two rows whose texts collide under \<open>H\<close>.\<close>

definition row_text :: "chained_event list \<Rightarrow> nat \<Rightarrow> string result" where
  "row_text rows i = hashed_text (base (rows ! i)) (1 + int i) (end_hash GENESIS (take i rows))"

definition collides_at :: "(string \<Rightarrow> string) \<Rightarrow> chained_event list \<Rightarrow> chained_event list \<Rightarrow> nat \<Rightarrow> bool" where
  "collides_at H rows rows' i \<longleftrightarrow>
     (\<exists>t t'. row_text rows i = Inr t \<and> row_text rows' i = Inr t' \<and> t \<noteq> t' \<and> H t = H t')"

lemma linked_snoc:
  "linked H (rows @ [r]) \<longleftrightarrow> linked H rows \<and> seq r = 1 + int (length rows)
     \<and> hashEntry H (base r) (1 + int (length rows)) (end_hash GENESIS rows) = Inr (hash r)"
  by (simp add: linked_append)

lemma row_text_snoc [simp]: "i < length rows \<Longrightarrow> row_text (rows @ [r]) i = row_text rows i"
  by (simp add: row_text_def nth_append)

lemma collides_snoc [simp]:
  "i < length rows \<Longrightarrow> length rows' = length rows \<Longrightarrow>
   collides_at H (rows @ [r]) (rows' @ [r']) i \<longleftrightarrow> collides_at H rows rows' i"
  by (simp add: collides_at_def)

lemma same_head_same_rows:
  assumes "linked H rows" "linked H rows'" "length rows = length rows'"
    and "end_hash GENESIS rows = end_hash GENESIS rows'"
    and "list_all (\<lambda>r. payloads_wf (base r)) rows" "list_all (\<lambda>r. payloads_wf (base r)) rows'"
    and "\<And>i. i < length rows \<Longrightarrow> \<not> collides_at H rows rows' i"
  shows "list_all2 (\<lambda>r r'. same_hashed_fields (base r) (base r') \<and> seq r = seq r' \<and> hash r = hash r') rows rows'"
  using assms
proof (induction rows arbitrary: rows' rule: rev_induct)
  case Nil
  then show ?case by simp
next
  case (snoc r rows)
  obtain us u where us: "rows' = us @ [u]" "length us = length rows"
    using snoc.prems(3) by (cases rows' rule: rev_cases) auto
  let ?n = "1 + int (length rows)"
  obtain t t' where t: "hashed_text (base r) ?n (end_hash GENESIS rows) = Inr t" "H t = hash r"
    and t': "hashed_text (base u) ?n (end_hash GENESIS us) = Inr t'" "H t' = hash u"
    using snoc.prems(1,2) us by (auto simp: linked_snoc hashEntry_def result_iff)
  have "hash r = hash u" using snoc.prems(4) us by simp
  moreover have "\<not> collides_at H (rows @ [r]) (us @ [u]) (length rows)"
    using snoc.prems(7) [of "length rows"] us by simp
  ultimately have tt: "t = t'"
    using t t' us(2) by (auto simp: collides_at_def row_text_def nth_append)
  note inj = hashed_text_inject [of "base r" "base u" ?n "end_hash GENESIS rows" t ?n "end_hash GENESIS us"]
  have same: "same_hashed_fields (base r) (base u)" "end_hash GENESIS rows = end_hash GENESIS us"
    using inj snoc.prems(5,6) us t(1) t'(1) tt by auto
  have nc: "\<not> collides_at H rows us i" if "i < length rows" for i
    using snoc.prems(7) [of i] that us by simp
  have "list_all2 (\<lambda>r r'. same_hashed_fields (base r) (base r') \<and> seq r = seq r' \<and> hash r = hash r') rows us"
    using snoc.prems us same(2) nc by (intro snoc.IH) (simp_all add: linked_snoc)
  then show ?case
    using same(1) \<open>hash r = hash u\<close> snoc.prems(1,2) us by (auto simp: linked_snoc list_all2_appendI)
qed

section \<open>Properties\<close>

text \<open>Batches of one stream chained one after the other, each onto the head the last one left.\<close>

fun append_batches :: "(string \<Rightarrow> string) \<Rightarrow> chained_event list \<Rightarrow> audit_event list list \<Rightarrow> chained_event list result" where
  "append_batches H rows [] = Inr rows"
| "append_batches H rows (b # bs) =
     rbind (chainBatch H b (head_of rows)) (\<lambda>rs. append_batches H (rows @ rs) bs)"

lemma append_batches_linked:
  "linked H rows \<Longrightarrow> append_batches H rows bs = Inr rows' \<Longrightarrow> linked H rows' \<and> map base rows' = map base rows @ concat bs"
  by (induction bs arbitrary: rows) (fastforce simp: result_iff dest: chainBatch_linked)+

lemma linked_Nil [simp]: "linked H []"
  by (simp add: linked_def)

lemma of_stream_same: "list_all (\<lambda>r. row_stream r = s) rows \<Longrightarrow> of_stream s' rows = (if s' = s then rows else [])"
  by (induction rows) auto

lemma verify_one_stream:
  "list_all (\<lambda>r. row_stream r = s) rows \<Longrightarrow> passes (verifyChain H rows) \<longleftrightarrow> linked H rows"
  by (auto simp: verifyChain_passes of_stream_same)

text \<open>
  C4: The verifier accepts a sequence of rows, of any number of interleaved streams, exactly
  when the rows of every stream are linked: numbered 1, 2, 3, ... and each carrying the digest
  of its own fields, its number and its predecessor's digest (64 zeros for the first).
\<close>

theorem verifier_accepts_linked:
  "passes (verifyChain H rows) \<longleftrightarrow> (\<forall>s. linked H (of_stream s rows))"
  by (rule verifyChain_passes)

text \<open>
  C5: Whatever batches of a stream are chained one after the other with \<open>chainBatch\<close>, each onto
  the head its predecessor left, the resulting rows hold the events in order and pass
  verification.
\<close>

theorem chained_batches_verify:
  assumes "append_batches H [] batches = Inr rows" "list_all (\<lambda>e. stream e = s) (concat batches)"
  shows "map base rows = concat batches \<and> passes (verifyChain H rows)"
proof -
  have l: "linked H rows" "map base rows = concat batches"
    using append_batches_linked [OF linked_Nil assms(1)] by simp_all
  then have "list_all (\<lambda>r. row_stream r = s) rows"
    using assms(2) by (metis (no_types, lifting) list.pred_map comp_apply list.pred_cong)
  then show ?thesis using l verify_one_stream by blast
qed

text \<open>The rows the witnesses run on: two events chained with a small digest.\<close>

definition sample_event :: "string \<Rightarrow> jsobj option \<Rightarrow> audit_event" where
  "sample_event i new =
     \<lparr>eventId = i, eventName = ''created'', stream = ''s'', auditableType = Some ''Order'',
      auditableId = Some ''7'', oldValues = None, newValues = new, metadata = None,
      actor = \<lparr>actorType = ''user'', actorId = Some ''1'', actorLabel = None\<rparr>, tenantId = None,
      requestId = None, correlationId = None, ipAddress = None, userAgent = None, url = None,
      httpMethod = None, tags = [], schemaVersion = ''1'', createdAt = ''2026-01-01''\<rparr>"

definition sample_digest :: "string \<Rightarrow> string" where
  "sample_digest t = nat_str (length t)"

definition sample_a :: audit_event where "sample_a = sample_event ''a'' None"
definition sample_b :: audit_event where "sample_b = sample_event ''b'' (Some [(''n'', JNum 1)])"

definition sample_row_a :: chained_event where
  "sample_row_a = \<lparr>base = sample_a, seq = 1, hash = ''313'', prevHash = GENESIS\<rparr>"
definition sample_row_b :: chained_event where
  "sample_row_b = \<lparr>base = sample_b, seq = 2, hash = ''255'', prevHash = ''313''\<rparr>"

lemma sample_hash [simp]:
  "hashEntry sample_digest sample_a 1 GENESIS = Inr ''313''"
  "hashEntry sample_digest sample_b 2 ''313'' = Inr ''255''"
  by code_simp+

lemma sample_stream [simp]: "stream sample_a = ''s''" "stream sample_b = ''s''"
  by (simp_all add: sample_a_def sample_b_def sample_event_def)

lemma sample_append:
  "append_batches sample_digest [] [[sample_a], [sample_b]] = Inr [sample_row_a, sample_row_b]"
  by (simp add: chainBatch_def head_of_def sample_row_a_def sample_row_b_def)

theorem chained_batches_verify_witness:
  "map base [sample_row_a, sample_row_b] = concat [[sample_a], [sample_b]]
   \<and> passes (verifyChain sample_digest [sample_row_a, sample_row_b])"
  by (rule chained_batches_verify [OF sample_append, where s = "''s''"]) simp

text \<open>
  C6: Chaining a batch is all or nothing: \<open>chainBatch\<close> returns rows for the whole batch exactly
  when the payloads of every event of the batch are acceptable to the canonical serialiser,
  whatever the head is; otherwise it throws.
\<close>

theorem chainBatch_total: "(\<exists>rs. chainBatch H es head = Inr rs) \<longleftrightarrow> list_all hashable es"
  by (rule chainBatch_returns)

lemma sorted_no_match:
  assumes "sorted_wrt (<) (map seq (bad # rest))" "prevSeq st < seq bad" "\<not> row_matches H st bad"
  shows "list_all (\<lambda>r. \<not> row_matches H st r) (bad # rest)"
  using assms by (auto simp: row_matches_def list_all_iff)

lemma verify_rows_step:
  "check_row H (stream_state_of m (row_stream row)) row = Inr (st, rep) \<Longrightarrow>
   verify_rows H m (row # rows) = (rep # fst (verify_rows H (AList.update (row_stream row) st m) rows),
     snd (verify_rows H (AList.update (row_stream row) st m) rows))"
  by (simp add: split_beta)

lemma verify_rows_length: "snd (verify_rows H m rows) = None \<Longrightarrow> length (fst (verify_rows H m rows)) = length rows"
proof (induction rows arbitrary: m)
  case (Cons row rows)
  show ?case
  proof (cases "check_row H (stream_state_of m (row_stream row)) row")
    case (Inr p)
    then show ?thesis using Cons by (cases p) (simp add: split_beta)
  qed (use Cons.prems in simp)
qed simp

text \<open>
  C7: A break is located: when the rows of a stream come in the order of their numbers, the
  rows before the first one that does not fit are reported valid, and from that row on every
  report is invalid and names the number the first bad row should have had.
\<close>

theorem break_located:
  assumes "list_all (\<lambda>r. row_stream r = s) (good @ bad # rest)"
    and "sorted_wrt (<) (map seq (bad # rest))" "int (length good) < seq bad"
    and "linked H good" "\<not> linked H (good @ [bad])"
    and "snd (verifyChain H (good @ bad # rest)) = None"
  shows "\<exists>reps reps'. fst (verifyChain H (good @ bad # rest)) = reps @ reps'
     \<and> length reps = length good \<and> list_all valid reps \<and> length reps' = length (bad # rest)
     \<and> list_all (\<lambda>rep. \<not> valid rep \<and> firstInvalidSeq rep = Some (int (length good) + 1)) reps'"
proof -
  have fresh: "stream_state_of [] s = fresh_state" by (simp add: stream_state_of_def)
  obtain m' where m': "verify_rows H [] (good @ bad # rest)
      = (let (reps, err) = verify_rows H m' (bad # rest) in (fst (verify_rows H [] good) @ reps, err))"
    "length (fst (verify_rows H [] good)) = length good" "list_all valid (fst (verify_rows H [] good))"
    "prevSeq (stream_state_of m' s) = int (length good)"
    "statePrevHash (stream_state_of m' s) = end_hash GENESIS good"
    "stateFirstInvalid (stream_state_of m' s) = None"
    using verify_rows_good [of s good H "[]" "bad # rest"] assms(1,4)
    by (auto simp: fresh fresh_state_def linked_def)
  let ?st = "stream_state_of m' s"
  have "\<not> row_matches H ?st bad"
    using assms(4,5) m'(4,5) by (auto simp: linked_append row_matches_def add.commute)
  then have "list_all (\<lambda>r. \<not> row_matches H ?st r) (bad # rest)"
    using assms(2,3) m'(4) by (intro sorted_no_match) simp_all
  then have stuck: "list_all (\<lambda>r. row_stream r = s \<and> \<not> row_matches H ?st r) (bad # rest)"
    using assms(1) by (simp add: list_all_iff)
  have "snd (verify_rows H m' (bad # rest)) = None"
    using assms(6) m'(1) by (auto simp: verifyChain_def Let_def split_beta)
  note stuck' = verify_rows_stuck [OF stuck this] verify_rows_length [OF this]
  have fb: "first_break ?st = int (length good) + 1"
    using m'(4,6) by (simp add: first_break_def)
  have "fst (verifyChain H (good @ bad # rest)) =
      fst (verify_rows H [] good) @ fst (verify_rows H m' (bad # rest))"
    using m'(1) by (simp add: verifyChain_def split_beta)
  then show ?thesis using m'(2,3) stuck' [unfolded fb] by (intro exI conjI) assumption+
qed

theorem break_located_witness:
  "\<exists>reps reps'. fst (verifyChain sample_digest ([sample_row_a] @ sample_row_b\<lparr>hash := ''x''\<rparr> # [])) = reps @ reps'
     \<and> length reps = length [sample_row_a] \<and> list_all valid reps
     \<and> length reps' = length ((sample_row_b\<lparr>hash := ''x''\<rparr>) # [])
     \<and> list_all (\<lambda>rep. \<not> valid rep \<and> firstInvalidSeq rep = Some (int (length [sample_row_a]) + 1)) reps'"
  by (rule break_located [where s = "''s''"])
     (simp_all add: sample_row_a_def sample_row_b_def linked_def verifyChain_def stream_state_of_def
        fresh_state_def check_row_def)

lemma verify_streams_apart:
  "snd (verify_rows H m rows) = None \<Longrightarrow> stream_state_of m' s = stream_state_of m s \<Longrightarrow>
   verify_rows H m' (of_stream s rows) = (filter (\<lambda>rep. reportStream rep = s) (fst (verify_rows H m rows)), None)"
proof (induction rows arbitrary: m m')
  case (Cons row rows)
  let ?st = "stream_state_of m (row_stream row)"
  obtain st' rep where c: "check_row H ?st row = Inr (st', rep)"
    using Cons.prems(1) by (cases "check_row H ?st row") auto
  have r: "reportStream rep = row_stream row"
    using c check_row_mismatch(4) [OF _ c] check_row_match [of H ?st row]
    by (cases "row_matches H ?st row") auto
  let ?m = "AList.update (row_stream row) st' m"
  have n: "snd (verify_rows H ?m rows) = None"
    using Cons.prems(1) c by (auto split: prod.splits)
  show ?case
  proof (cases "row_stream row = s")
    case True
    have "verify_rows H (AList.update s st' m') (of_stream s rows)
        = (filter (\<lambda>rep. reportStream rep = s) (fst (verify_rows H ?m rows)), None)"
      using True by (intro Cons.IH n) simp
    then show ?thesis using True c r Cons.prems(2) by (auto split: prod.split)
  next
    case False
    have "verify_rows H m' (of_stream s rows)
        = (filter (\<lambda>rep. reportStream rep = s) (fst (verify_rows H ?m rows)), None)"
      using False Cons.prems(2) by (intro Cons.IH n) simp
    then show ?thesis using False c r by (auto split: prod.split)
  qed
qed simp


text \<open>
  Streams do not influence each other: if the verification of interleaved rows ends without
  a throw, its reports on a stream are the reports of verifying that stream's rows alone.
\<close>

theorem streams_verify_independently:
  assumes "snd (verifyChain H rows) = None"
  shows "verifyChain H (of_stream s rows) = (filter (\<lambda>rep. reportStream rep = s) (fst (verifyChain H rows)), None)"
  using verify_streams_apart [of H "[]" rows "[]" s] assms by (simp add: verifyChain_def)

theorem streams_verify_independently_witness:
  "verifyChain sample_digest (of_stream ''s'' [sample_row_a, sample_row_b])
     = (filter (\<lambda>rep. reportStream rep = ''s'') (fst (verifyChain sample_digest [sample_row_a, sample_row_b])), None)"
  by (rule streams_verify_independently)
     (simp add: sample_row_a_def sample_row_b_def verifyChain_def stream_state_of_def fresh_state_def check_row_def)

text \<open>
  C8: Tamper evidence: two verified histories of a stream that end in the same head (the same
  sequence number and the same hash) agree, row by row, on every field the hash covers, or two
  of their rows show a collision of the digest: different canonical texts with equal digests.
\<close>

theorem tamper_evidence:
  assumes "passes (verifyChain H rows)" "passes (verifyChain H rows')"
    and "list_all (\<lambda>r. row_stream r = s \<and> payloads_wf (base r)) rows"
    and "list_all (\<lambda>r. row_stream r = s \<and> payloads_wf (base r)) rows'"
    and "head_of rows = head_of rows'"
  shows "list_all2 (\<lambda>r r'. same_hashed_fields (base r) (base r') \<and> seq r = seq r' \<and> hash r = hash r') rows rows'
     \<or> (\<exists>i. i < length rows \<and> collides_at H rows rows' i)"
proof -
  have l: "linked H rows" "linked H rows'"
    using assms(1-4) verify_one_stream [of s rows] verify_one_stream [of s rows']
    by (auto simp: list_all_iff)
  have len: "length rows = length rows'" "end_hash GENESIS rows = end_hash GENESIS rows'"
    using assms(5) linked_head [OF l(1)] linked_head [OF l(2)] by (auto split: if_splits)
  show ?thesis
  proof (cases "\<exists>i. i < length rows \<and> collides_at H rows rows' i")
    case False
    then have "list_all2 (\<lambda>r r'. same_hashed_fields (base r) (base r') \<and> seq r = seq r' \<and> hash r = hash r') rows rows'"
      using assms(3,4) by (intro same_head_same_rows [OF l len]) (auto simp: list_all_iff)
    then show ?thesis by blast
  qed blast
qed

lemma sample_verified: "passes (verifyChain sample_digest [sample_row_a, sample_row_b])"
  by (simp add: passes_def sample_row_a_def sample_row_b_def verifyChain_def stream_state_of_def fresh_state_def check_row_def)

lemma sample_wf: "payloads_wf sample_a" "payloads_wf sample_b"
  by (simp_all add: payloads_wf_def sample_a_def sample_b_def sample_event_def opt_obj_def props_ok_def)

theorem tamper_evidence_witness:
  "list_all2 (\<lambda>r r'. same_hashed_fields (base r) (base r') \<and> seq r = seq r' \<and> hash r = hash r')
       [sample_row_a, sample_row_b] [sample_row_a, sample_row_b\<lparr>prevHash := ''forged''\<rparr>]
     \<or> (\<exists>i. i < length [sample_row_a, sample_row_b]
          \<and> collides_at sample_digest [sample_row_a, sample_row_b] [sample_row_a, sample_row_b\<lparr>prevHash := ''forged''\<rparr>] i)"
proof (rule tamper_evidence [where s = "''s''", OF sample_verified])
  show "passes (verifyChain sample_digest [sample_row_a, sample_row_b\<lparr>prevHash := ''forged''\<rparr>])"
    by (simp add: passes_def sample_row_a_def sample_row_b_def verifyChain_def stream_state_of_def fresh_state_def check_row_def)
qed (simp_all add: sample_row_a_def sample_row_b_def sample_wf head_of_def)

text \<open>
  A chain alone does not show a missing end: any prefix of a verified history of a stream
  passes verification again, so a deleted tail is only found by comparing heads with an anchor.
\<close>

theorem truncation_passes:
  assumes "passes (verifyChain H rows)" "list_all (\<lambda>r. row_stream r = s) rows"
  shows "passes (verifyChain H (take n rows))"
proof -
  have "linked H rows" using assms verify_one_stream by blast
  then have "linked H (take n rows)" using linked_append [of H "take n rows" "drop n rows"] by simp
  moreover have "list_all (\<lambda>r. row_stream r = s) (take n rows)"
    using assms(2) by (auto simp: list_all_iff dest: in_set_takeD)
  ultimately show ?thesis using verify_one_stream by blast
qed

theorem truncation_passes_witness:
  "passes (verifyChain sample_digest (take 1 [sample_row_a, sample_row_b]))"
  by (rule truncation_passes [where s = "''s''", OF sample_verified])
     (simp add: sample_row_a_def sample_row_b_def)

text \<open>
  The fields outside the hashed set can be rewritten in any way without the verifier
  noticing: the actor's label, the transport fields, the tags, and also the stored \<open>prevHash\<close>
  of a row, which the verifier replaces by the hash of the row before.
\<close>

theorem unhashed_fields_unseen:
  "verifyChain H (map (\<lambda>r. r\<lparr>prevHash := p r,
       base := (base r)\<lparr>actor := (actor (base r))\<lparr>actorLabel := l r\<rparr>, requestId := q r, correlationId := c r,
         ipAddress := i r, userAgent := u r, url := w r, httpMethod := m r, tags := t r\<rparr>\<rparr>) rows)
   = verifyChain H rows"
proof -
  let ?f = "\<lambda>r. r\<lparr>prevHash := p r,
       base := (base r)\<lparr>actor := (actor (base r))\<lparr>actorLabel := l r\<rparr>, requestId := q r, correlationId := c r,
         ipAddress := i r, userAgent := u r, url := w r, httpMethod := m r, tags := t r\<rparr>\<rparr>"
  have "check_row H st (?f r) = check_row H st r" for st r
    by (simp add: check_row_def hashEntry_def hashed_text_def pickHashedFields_def Let_def cong: if_cong)
  then have "verify_rows H st (map ?f rows) = verify_rows H st rows" for st
    by (induction rows arbitrary: st) (simp_all split: sum.split prod.split)
  then show ?thesis by (simp add: verifyChain_def)
qed

end
