(* ===== verification/Delivery.thy ===== *)
theory Delivery
  imports HashChain
begin

text \<open>
  What follows a successful write: \<open>src/core/successful_delivery_notifier.ts\<close> and
  \<open>src/core/anchor.ts\<close>. Whether publishing a head succeeds is the parameter \<open>publish\<close>, the clock
  is \<open>now\<close>; the result of a call holds the heads published in order.
\<close>

section \<open>Anchors\<close>

datatype anchor_every = EveryN nat | Daily

record anchored_head =
  headStream :: string
  headSeq :: int
  headHash :: string
  anchoredAt :: string

record anchor_state =
  lastSeq :: int
  lastDate :: string

type_synonym anchors = "(string \<times> anchor_state) list"

definition newer_head :: "(string \<times> chained_event) list \<Rightarrow> chained_event \<Rightarrow> (string \<times> chained_event) list" where
  "newer_head heads e =
     (case map_of heads (row_stream e) of
        None \<Rightarrow> AList.update (row_stream e) e heads
      | Some c \<Rightarrow> if seq e > seq c then AList.update (row_stream e) e heads else heads)"

definition lastPerStream :: "chained_event list \<Rightarrow> (string \<times> chained_event) list" where
  "lastPerStream events = foldl newer_head [] events"

definition shouldAnchor :: "anchor_every \<Rightarrow> int \<Rightarrow> anchors \<Rightarrow> string \<Rightarrow> int \<Rightarrow> bool" where
  "shouldAnchor every now st strm n =
     (case every of
        Daily \<Rightarrow>
          (case map_of st strm of None \<Rightarrow> True | Some a \<Rightarrow> take 10 (lastDate a) \<noteq> take 10 (toISOString now))
      | EveryN k \<Rightarrow>
          (case map_of st strm of None \<Rightarrow> n div int k > -1 | Some a \<Rightarrow> n div int k > lastSeq a div int k))"

text \<open>The loop of \<open>onFlush\<close>: a failing publisher ends it by throwing.\<close>

fun anchor_heads :: "anchor_every \<Rightarrow> (anchored_head \<Rightarrow> bool) \<Rightarrow> int \<Rightarrow> (string \<times> chained_event) list \<Rightarrow> anchors
    \<Rightarrow> anchors \<times> anchored_head list \<times> bool" where
  "anchor_heads every publish now [] st = (st, [], True)"
| "anchor_heads every publish now ((strm, e) # hs) st =
     (if shouldAnchor every now st strm (seq e) then
        (let h = \<lparr>headStream = strm, headSeq = seq e, headHash = hash e, anchoredAt = toISOString now\<rparr> in
         if \<not> publish h then (st, [], False)
         else (let (st', out, ok) = anchor_heads every publish now hs
                     (AList.update strm \<lparr>lastSeq = seq e, lastDate = toISOString now\<rparr> st)
               in (st', h # out, ok)))
      else anchor_heads every publish now hs st)"

definition onFlush :: "anchor_every \<Rightarrow> (anchored_head \<Rightarrow> bool) \<Rightarrow> int \<Rightarrow> chained_event list \<Rightarrow> anchors \<Rightarrow> anchors \<times> anchored_head list \<times> bool" where
  "onFlush every publish now events st = anchor_heads every publish now (lastPerStream events) st"

text \<open>What the two publishers send for a head.\<close>

definition head_json :: "anchored_head \<Rightarrow> jsval" where
  "head_json h = JObj [(''stream'', JStr (headStream h)), (''seq'', JNum (headSeq h)), (''hash'', JStr (headHash h)),
     (''anchoredAt'', JStr (anchoredAt h))]"

definition head_line :: "anchored_head \<Rightarrow> string" where
  "head_line h = (case json_str (head_json h) of Inr (Some t) \<Rightarrow> t @ [CHR 0x0A] | _ \<Rightarrow> [])"

definition httpPostPublisher :: "bool \<Rightarrow> int \<Rightarrow> string \<Rightarrow> unit result" where
  "httpPostPublisher response_ok status body =
     (if response_ok then Inr ()
      else Inl (AuditAnchorError (''Anchor HTTP POST failed: '' @ int_str status @ '' '' @ body)))"

section \<open>The notifier\<close>

record notifier_state =
  deliveredEventIds :: "string list"
  anchorState :: anchors

fun new_events :: "string list \<Rightarrow> chained_event list \<Rightarrow> chained_event list \<times> string list" where
  "new_events ids [] = ([], ids)"
| "new_events ids (e # es) =
     (if eventId (base e) \<in> set ids then new_events ids es
      else (let (out, ids') = new_events (eventId (base e) # ids) es in (e # out, ids')))"

text \<open>The events emitted as \<open>audit:flushed\<close> (an observer's failure is swallowed) and the heads published.\<close>

definition notify :: "(anchor_every \<times> (anchored_head \<Rightarrow> bool)) option \<Rightarrow> int \<Rightarrow> chained_event list \<Rightarrow> notifier_state
    \<Rightarrow> notifier_state \<times> chained_event list \<times> anchored_head list" where
  "notify anchor now events st =
     (let (delivered, ids) = new_events (deliveredEventIds st) events; st = st\<lparr>deliveredEventIds := ids\<rparr> in
      if delivered = [] then (st, [], [])
      else case anchor of
        None \<Rightarrow> (st, delivered, [])
      | Some (every, publish) \<Rightarrow>
          (let (a, out, ok) = onFlush every publish now delivered (anchorState st)
           in (st\<lparr>anchorState := a\<rparr>, delivered, out)))"

fun notify_all :: "(anchor_every \<times> (anchored_head \<Rightarrow> bool)) option \<Rightarrow> (int \<times> chained_event list) list \<Rightarrow> notifier_state \<Rightarrow> chained_event list" where
  "notify_all anchor [] st = []"
| "notify_all anchor ((now, events) # calls) st =
     (let (st', delivered, out) = notify anchor now events st in delivered @ notify_all anchor calls st')"

section \<open>Lemmas\<close>

lemma lastPerStream_snoc: "lastPerStream (es @ [e]) = newer_head (lastPerStream es) e"
  by (simp add: lastPerStream_def)

lemma lastPerStream_distinct [simp]: "distinct (map fst (lastPerStream es))"
  by (induction es rule: rev_induct) (auto simp: lastPerStream_snoc newer_head_def lastPerStream_def[of "[]"] split: option.split)

lemma lastPerStream_keys: "fst ` set (lastPerStream es) = row_stream ` set es"
  by (induction es rule: rev_induct)
     (auto simp: lastPerStream_snoc newer_head_def lastPerStream_def [of "[]"] insert_absorb
       dest!: map_of_SomeD split: option.splits, force+)

lemma lastPerStream_max:
  "map_of (lastPerStream es) s = Some h \<Longrightarrow>
   h \<in> set es \<and> row_stream h = s \<and> (\<forall>e. e \<in> set es \<longrightarrow> row_stream e = s \<longrightarrow> seq e \<le> seq h)"
proof (induction es arbitrary: h rule: rev_induct)
  case Nil
  then show ?case by (simp add: lastPerStream_def)
next
  case (snoc x es)
  show ?case
  proof (cases "row_stream x = s")
    case False
    then have "map_of (lastPerStream es) s = Some h"
      using snoc.prems by (auto simp: lastPerStream_snoc newer_head_def split: option.splits if_splits)
    then show ?thesis using snoc.IH False by auto
  next
    case True
    show ?thesis
    proof (cases "map_of (lastPerStream es) s")
      case None
      then have "s \<notin> row_stream ` set es" using lastPerStream_keys [of es] by (simp add: map_of_eq_None_iff)
      then have "\<And>e. e \<in> set es \<Longrightarrow> row_stream e \<noteq> s" by blast
      then show ?thesis using True None snoc.prems
        by (auto simp: lastPerStream_snoc newer_head_def)
    next
      case (Some c)
      then show ?thesis using True snoc.IH [OF Some] snoc.prems
        by (force simp: lastPerStream_snoc newer_head_def split: if_splits)
    qed
  qed
qed

lemma anchor_heads_keep:
  "anchor_heads every publish now hs st = (st', out, ok) \<Longrightarrow> s \<notin> fst ` set hs \<Longrightarrow> map_of st' s = map_of st s"
  by (induction every publish now hs st arbitrary: st' out rule: anchor_heads.induct)
     (auto simp: Let_def split: if_splits prod.splits)

lemma anchor_heads_lag:
  assumes "anchor_heads (EveryN k) publish now hs st = (st', out, True)" "distinct (map fst hs)" "(s, e) \<in> set hs"
    and "0 < k" "0 \<le> seq e"
  shows "\<exists>a. map_of st' s = Some a \<and> seq e div int k \<le> lastSeq a div int k"
  using assms(1-3)
proof (induction hs arbitrary: st out)
  case (Cons h hs)
  obtain t f where h: "h = (t, f)" by (cases h)
  show ?case
  proof (cases "t = s")
    case True
    then have f: "f = e" using Cons.prems(2,3) h by force
    have s: "s \<notin> fst ` set hs" using Cons.prems(2) h True by simp
    show ?thesis
    proof (cases "shouldAnchor (EveryN k) now st s (seq e)")
      case True
      then have "map_of st' s = Some \<lparr>lastSeq = seq e, lastDate = toISOString now\<rparr>"
        using Cons.prems(1) h f \<open>t = s\<close> anchor_heads_keep [of "EveryN k" publish now hs _ st' _ True s] s
        by (force simp: Let_def split: if_splits prod.splits)
      then show ?thesis by simp
    next
      case False
      moreover have "seq e div int k > -1" using assms(4,5) pos_imp_zdiv_nonneg_iff [of "int k" "seq e"] by simp
      ultimately obtain a where "map_of st s = Some a" "seq e div int k \<le> lastSeq a div int k"
        by (auto simp: shouldAnchor_def split: option.splits)
      moreover have "map_of st' s = map_of st s"
        using Cons.prems(1) h f \<open>t = s\<close> False anchor_heads_keep [OF _ s] by auto
      ultimately show ?thesis by simp
    qed
  next
    case False
    then show ?thesis using Cons h by (auto simp: Let_def split: if_splits prod.splits)
  qed
qed simp

lemma new_events_spec:
  "new_events ids es = (out, ids') \<Longrightarrow>
   set ids' = set ids \<union> (\<lambda>e. eventId (base e)) ` set out \<and> distinct (map (\<lambda>e. eventId (base e)) out)
     \<and> (\<forall>e. e \<in> set out \<longrightarrow> eventId (base e) \<notin> set ids) \<and> set out \<subseteq> set es
     \<and> (\<lambda>e. eventId (base e)) ` set es \<subseteq> set ids'"
proof (induction ids es arbitrary: out ids' rule: new_events.induct)
  case (2 ids e es)
  show ?case
  proof (cases "eventId (base e) \<in> set ids")
    case True
    then have n: "new_events ids es = (out, ids')" using 2(3) by simp
    show ?thesis using 2(1) [OF True n] True by auto
  next
    case False
    then obtain out1 where n: "new_events (eventId (base e) # ids) es = (out1, ids')" "out = e # out1"
      using 2(3) by (auto split: prod.splits)
    show ?thesis using 2(2) [OF False n(1)] False n(2) by auto
  qed
qed simp

lemma notify_ids:
  "notify anchor now events st = (st', delivered, out) \<Longrightarrow>
   new_events (deliveredEventIds st) events = (delivered, deliveredEventIds st')"
  by (auto simp: notify_def Let_def split: prod.splits if_splits option.splits)

lemma notify_all_distinct:
  "distinct (map (\<lambda>e. eventId (base e)) (notify_all anchor calls st))
   \<and> (\<forall>e. e \<in> set (notify_all anchor calls st) \<longrightarrow> eventId (base e) \<notin> set (deliveredEventIds st))"
proof (induction anchor calls st rule: notify_all.induct)
  case (2 anchor now events calls st)
  obtain st' d out where n: "notify anchor now events st = (st', d, out)" by (cases "notify anchor now events st")
  note sp = new_events_spec [OF notify_ids [OF n]]
  have IH: "distinct (map (\<lambda>e. eventId (base e)) (notify_all anchor calls st'))"
    "\<And>e. e \<in> set (notify_all anchor calls st') \<Longrightarrow> eventId (base e) \<notin> set (deliveredEventIds st')"
    using 2 [OF n [symmetric]] by auto
  have "eventId (base a) \<noteq> eventId (base b)" if "a \<in> set d" "b \<in> set (notify_all anchor calls st')" for a b
    using IH(2) [OF that(2)] sp that(1) by (metis UnI2 image_eqI)
  then have "(\<lambda>e. eventId (base e)) ` set d \<inter> (\<lambda>e. eventId (base e)) ` set (notify_all anchor calls st') = {}"
    by blast
  then show ?case using sp IH by (simp add: n)
qed simp

text \<open>
  C11: Every event is announced at most once: over any sequence of deliveries, with repetitions
  inside a batch or between batches, the ids of the events emitted as \<open>audit:flushed\<close> are
  distinct.
\<close>

theorem notified_at_most_once: "distinct (map (\<lambda>e. eventId (base e)) (notify_all anchor calls st))"
  using notify_all_distinct by blast

text \<open>
  Anchors keep up: with an anchor every \<open>k\<close> events, after a flush whose publications all
  succeed, the last anchored number of each stream of the batch is in the same block of \<open>k\<close> as
  the highest number of the stream in the batch, or in a later one.
\<close>

theorem anchor_keeps_up:
  assumes "onFlush (EveryN k) publish now events st = (st', out, True)" "0 < k" "e \<in> set events" "0 \<le> seq e"
  shows "\<exists>a. map_of st' (row_stream e) = Some a \<and> seq e div int k \<le> lastSeq a div int k"
proof -
  obtain h where h: "map_of (lastPerStream events) (row_stream e) = Some h"
    using assms(3) lastPerStream_keys [of events] by (metis image_eqI map_of_eq_None_iff not_None_eq)
  have le: "seq e \<le> seq h" using lastPerStream_max [OF h] assms(3) by simp
  obtain a where a: "map_of st' (row_stream e) = Some a" "seq h div int k \<le> lastSeq a div int k"
    using anchor_heads_lag [OF assms(1) [unfolded onFlush_def] _ map_of_SomeD [OF h] assms(2)] le assms(4) by auto
  have "seq e div int k \<le> seq h div int k" using le assms(2) by (simp add: zdiv_mono1)
  then show ?thesis using a by auto
qed

theorem anchor_keeps_up_witness:
  "\<exists>a. map_of [(''s'', \<lparr>lastSeq = 2, lastDate = toISOString 0\<rparr>)] (row_stream sample_row_b) = Some a
     \<and> seq sample_row_b div int 2 \<le> lastSeq a div int 2"
proof (rule anchor_keeps_up)
  show "onFlush (EveryN 2) (\<lambda>h. True) 0 [sample_row_a, sample_row_b] []
    = ([(''s'', \<lparr>lastSeq = 2, lastDate = toISOString 0\<rparr>)],
       [\<lparr>headStream = ''s'', headSeq = 2, headHash = ''255'', anchoredAt = toISOString 0\<rparr>], True)"
    by (simp add: onFlush_def lastPerStream_def newer_head_def shouldAnchor_def sample_row_a_def sample_row_b_def)
qed (simp_all add: sample_row_b_def)

end
