(* ===== verification/RingBuffer.thy ===== *)
theory RingBuffer
  imports Types
begin

text \<open>
  The ring buffer inside \<open>src/core/pipeline.ts\<close> (\<open>#buffer\<close>, \<open>#head\<close>, \<open>#tail\<close>, \<open>#size\<close>): an array
  of \<open>capacity\<close> slots, an empty slot being \<open>undefined\<close>; the size is an integer since nothing stops the code from
  decrementing it below zero. Its contract, a bounded first-in
  first-out queue, is a locale; the ring interprets it.
\<close>

record 'a ring =
  slots :: "'a option list"
  ringHead :: nat
  ringTail :: nat
  ringSize :: int

abbreviation capacity :: "'a ring \<Rightarrow> nat" where "capacity r \<equiv> length (slots r)"

definition ring_new :: "nat \<Rightarrow> 'a ring" where
  "ring_new cap = \<lparr>slots = replicate cap None, ringHead = 0, ringTail = 0, ringSize = 0\<rparr>"

definition ring_push :: "'a \<Rightarrow> 'a ring \<Rightarrow> 'a ring" where
  "ring_push x r =
     r\<lparr>slots := (slots r)[ringTail r := Some x], ringTail := (ringTail r + 1) mod capacity r,
       ringSize := ringSize r + 1\<rparr>"

definition ring_pop :: "'a ring \<Rightarrow> 'a option \<times> 'a ring" where
  "ring_pop r =
     (slots r ! ringHead r,
      r\<lparr>slots := (slots r)[ringHead r := None], ringHead := (ringHead r + 1) mod capacity r,
        ringSize := ringSize r - 1\<rparr>)"

definition ring_peek :: "nat \<Rightarrow> 'a ring \<Rightarrow> 'a list" where
  "ring_peek n r =
     map (\<lambda>i. the (slots r ! ((ringHead r + i) mod capacity r))) [0..<nat (min (ringSize r) (int n))]"

fun ring_remove :: "nat \<Rightarrow> 'a ring \<Rightarrow> 'a ring" where
  "ring_remove 0 r = r"
| "ring_remove (Suc n) r = ring_remove n (snd (ring_pop r))"

section \<open>The queue contract\<close>

locale bounded_queue =
  fixes inv :: "'q \<Rightarrow> bool" and items :: "'q \<Rightarrow> 'a list" and cap :: "'q \<Rightarrow> nat"
    and push :: "'a \<Rightarrow> 'q \<Rightarrow> 'q" and pop :: "'q \<Rightarrow> 'a option \<times> 'q"
  assumes push_law: "inv q \<Longrightarrow> length (items q) < cap q \<Longrightarrow>
      inv (push x q) \<and> items (push x q) = items q @ [x] \<and> cap (push x q) = cap q"
    and pop_law: "inv q \<Longrightarrow> items q = x # xs \<Longrightarrow>
      fst (pop q) = Some x \<and> inv (snd (pop q)) \<and> items (snd (pop q)) = xs \<and> cap (snd (pop q)) = cap q"
    and bound_law: "inv q \<Longrightarrow> length (items q) \<le> cap q"
begin

lemma pops:
  assumes "inv q" "n \<le> length (items q)"
  shows "inv (((\<lambda>q. snd (pop q)) ^^ n) q) \<and> items (((\<lambda>q. snd (pop q)) ^^ n) q) = drop n (items q)
    \<and> cap (((\<lambda>q. snd (pop q)) ^^ n) q) = cap q"
  using assms
proof (induction n)
  case (Suc n)
  let ?q = "((\<lambda>q. snd (pop q)) ^^ n) q"
  have IH: "inv ?q" "items ?q = drop n (items q)" "cap ?q = cap q" using Suc by simp_all
  obtain x xs where "drop n (items q) = x # xs" using Suc.prems(2) by (cases "drop n (items q)") auto
  then show ?case using IH pop_law [of ?q x xs] by (simp add: drop_Suc tl_drop [symmetric])
qed simp

end

section \<open>The ring implements it\<close>

definition ring_items :: "'a ring \<Rightarrow> 'a list" where
  "ring_items r = map (\<lambda>i. the (slots r ! ((ringHead r + i) mod capacity r))) [0..<nat (ringSize r)]"

definition ring_ok :: "'a ring \<Rightarrow> bool" where
  "ring_ok r \<longleftrightarrow> 0 < capacity r \<and> ringHead r < capacity r \<and> 0 \<le> ringSize r \<and> nat (ringSize r) \<le> capacity r
     \<and> ringTail r = (ringHead r + nat (ringSize r)) mod capacity r
     \<and> (\<forall>i < nat (ringSize r). slots r ! ((ringHead r + i) mod capacity r) \<noteq> None)"

lemma length_ring_items [simp]: "length (ring_items r) = nat (ringSize r)"
  by (simp add: ring_items_def)

lemma ring_new_ok: "0 < n \<Longrightarrow> ring_ok (ring_new n) \<and> ring_items (ring_new n) = []"
  by (simp add: ring_ok_def ring_new_def ring_items_def)

lemma mod_add_inject_le: "i \<le> j \<Longrightarrow> j < c \<Longrightarrow> (h + j) mod c = (h + i) mod c \<Longrightarrow> i = (j :: nat)"
  using mod_eq_dvd_iff_nat [of "h + i" "h + j" c] nat_dvd_not_less [of "j - i" c] by fastforce

lemma mod_add_inject: "i < c \<Longrightarrow> j < c \<Longrightarrow> (h + i) mod c = (h + j) mod c \<longleftrightarrow> i = (j :: nat)"
  using mod_add_inject_le [of i j c h] mod_add_inject_le [of j i c h] by (metis nat_le_linear)

lemma ring_push_ok:
  assumes "ring_ok r" "nat (ringSize r) < capacity r"
  shows "ring_ok (ring_push x r) \<and> ring_items (ring_push x r) = ring_items r @ [x] \<and> capacity (ring_push x r) = capacity r"
proof -
  let ?c = "capacity r" and ?h = "ringHead r" and ?n = "nat (ringSize r)"
  have c: "0 < ?c" "ringTail r = (?h + ?n) mod ?c" "ringTail r < ?c"
    using assms by (auto simp: ring_ok_def)
  have old: "slots (ring_push x r) ! ((?h + i) mod ?c) = slots r ! ((?h + i) mod ?c)" if "i < ?n" for i
    using that assms(2) c mod_add_inject [of i ?c ?n ?h] by (simp add: ring_push_def)
  have new: "slots (ring_push x r) ! ((?h + ?n) mod ?c) = Some x"
    using c by (simp add: ring_push_def)
  have sz: "nat (ringSize (ring_push x r)) = Suc ?n" "0 \<le> ringSize (ring_push x r)" "ringHead (ring_push x r) = ?h" "capacity (ring_push x r) = ?c"
    "ringTail (ring_push x r) = (?h + Suc ?n) mod ?c"
    using c assms(1) nat_add_distrib [of "ringSize r" 1]
    by (simp_all add: ring_push_def mod_Suc_eq ring_ok_def)
  have "ring_items (ring_push x r) = ring_items r @ [x]"
    using old new by (simp add: ring_items_def sz)
  moreover have "ring_ok (ring_push x r)"
    using assms old new by (auto simp: ring_ok_def sz less_Suc_eq)
  ultimately show ?thesis using sz(4) by simp
qed

lemma ring_pop_ok:
  assumes "ring_ok r" "ring_items r = x # xs"
  shows "fst (ring_pop r) = Some x \<and> ring_ok (snd (ring_pop r)) \<and> ring_items (snd (ring_pop r)) = xs
    \<and> capacity (snd (ring_pop r)) = capacity r"
proof -
  let ?c = "capacity r" and ?h = "ringHead r" and ?r = "snd (ring_pop r)"
  obtain n where n: "ringSize r = int (Suc n)" "length xs = n"
    using arg_cong [OF assms(2), of length] by (cases "ringSize r") auto
  have nn: "nat (ringSize r) = Suc n" using n(1) by simp
  have c: "0 < ?c" "?h < ?c" "Suc n \<le> ?c" using assms(1) nn by (auto simp: ring_ok_def)
  have x: "slots r ! ?h = Some x"
  proof -
    have "\<And>i. i < nat (ringSize r) \<Longrightarrow> slots r ! ((?h + i) mod ?c) \<noteq> None"
      using assms(1) by (simp add: ring_ok_def)
    from this [of 0] have "slots r ! ((?h + 0) mod ?c) \<noteq> None" using n by simp
    moreover have "the (slots r ! ((?h + 0) mod ?c)) = x"
      using assms(2) n by (simp add: ring_items_def upt_conv_Cons del: upt_Suc)
    ultimately show ?thesis using c by auto
  qed
  have sh: "((?h + 1) mod ?c + i) mod ?c = (?h + Suc i) mod ?c" for i
    by (simp add: mod_add_left_eq)
  have pos: "0 \<le> ringSize ?r" using n(1) by (simp add: ring_pop_def)
  have rest: "slots ?r ! (((?h + 1) mod ?c + i) mod ?c) = slots r ! ((?h + Suc i) mod ?c)" if "i < n" for i
  proof -
    have "(?h + Suc i) mod ?c \<noteq> (?h + 0) mod ?c"
      using that c mod_add_inject [of "Suc i" ?c 0 ?h] by simp
    then show ?thesis using c unfolding sh by (simp add: ring_pop_def)
  qed
  have sz: "nat (ringSize ?r) = n" "ringHead ?r = (?h + 1) mod ?c" "capacity ?r = ?c" "ringTail ?r = ringTail r"
    using n by (simp_all add: ring_pop_def)
  have "nat (ringSize r) = Suc n" using n(1) by simp
  then have "xs = map (\<lambda>i. the (slots r ! ((?h + Suc i) mod ?c))) [0..<n]"
    using assms(2) by (simp add: ring_items_def upt_conv_Cons map_Suc_upt [symmetric] comp_def del: upt_Suc)
  then have "ring_items ?r = xs"
    using rest by (simp add: ring_items_def sz)
  moreover have "ring_ok ?r"
    unfolding ring_ok_def sz
  proof (intro conjI allI impI)
    show "ringTail r = ((?h + 1) mod ?c + n) mod ?c"
      unfolding sh using assms(1) nn by (simp add: ring_ok_def)
    fix i assume i: "i < n"
    have "\<And>i. i < Suc n \<Longrightarrow> slots r ! ((?h + i) mod ?c) \<noteq> None"
      using assms(1) nn by (simp add: ring_ok_def)
    from this [of "Suc i"] show "slots ?r ! (((?h + 1) mod ?c + i) mod ?c) \<noteq> None"
      using rest [OF i] i by simp
  qed (use c pos in auto)
  ultimately show ?thesis using x sz(3) by (simp add: ring_pop_def)
qed

interpretation ring_queue: bounded_queue ring_ok ring_items "\<lambda>r. capacity r" ring_push ring_pop
  by unfold_locales (simp_all add: ring_push_ok ring_pop_ok, simp add: ring_ok_def)

lemma ring_remove_funpow: "ring_remove n r = ((\<lambda>r. snd (ring_pop r)) ^^ n) r"
  by (induction n arbitrary: r) (simp_all add: funpow_Suc_right del: funpow.simps(2))

lemma ring_remove_ok:
  "ring_ok r \<Longrightarrow> n \<le> nat (ringSize r) \<Longrightarrow>
   ring_ok (ring_remove n r) \<and> ring_items (ring_remove n r) = drop n (ring_items r) \<and> capacity (ring_remove n r) = capacity r"
  using ring_queue.pops [of r n] by (simp add: ring_remove_funpow)

lemma ring_peek_take: "ring_peek n r = take n (ring_items r)"
  by (rule nth_equalityI) (auto simp: ring_peek_def ring_items_def)

lemma ringSize_items: "ring_ok r \<Longrightarrow> ringSize r = int (length (ring_items r))"
  by (simp add: ring_ok_def)

end
