(* ===== verification/Uuid.thy ===== *)
theory Uuid
  imports HashChain "HOL-Library.Word"
begin

unbundle bit_operations_syntax

text \<open>
  \<open>src/core/uuidv7.ts\<close>: sixteen bytes, six of the clock (big-endian), ten random ones with the
  version and variant bits set, printed in hexadecimal. The clock (milliseconds) and the random
  bytes are arguments.
\<close>

definition ts_byte :: "nat \<Rightarrow> nat \<Rightarrow> 8 word" where
  "ts_byte now i = word_of_nat (now div 2 ^ ((5 - i) * 8))"

definition uuid_bytes :: "nat \<Rightarrow> 8 word list \<Rightarrow> 8 word list" where
  "uuid_bytes now rnd =
     (let bytes = map (ts_byte now) [0..<6] @ rnd;
          bytes = bytes[6 := (bytes ! 6 AND 0x0f) OR 0x70]
      in bytes[8 := (bytes ! 8 AND 0x3f) OR 0x80])"

definition hex_byte :: "8 word \<Rightarrow> string" where
  "hex_byte b = [hex_char (unat b div 16), hex_char (unat b mod 16)]"

definition slice :: "nat \<Rightarrow> nat \<Rightarrow> string \<Rightarrow> string" where
  "slice a b s = take (b - a) (drop a s)"

definition uuidv7 :: "nat \<Rightarrow> 8 word list \<Rightarrow> string" where
  "uuidv7 now rnd =
     (let hex = concat (map hex_byte (uuid_bytes now rnd))
      in slice 0 8 hex @ ''-'' @ slice 8 12 hex @ ''-'' @ slice 12 16 hex @ ''-'' @ slice 16 20 hex @ ''-'' @ drop 20 hex)"

text \<open>The clock value read back from the text: the hexadecimal digits before and after the first dash.\<close>

definition uuid_timestamp :: "string \<Rightarrow> nat" where
  "uuid_timestamp s = foldl (\<lambda>n c. 16 * n + the (hex_val c)) 0 (take 8 s @ take 4 (drop 9 s))"

lemma version_nibble: "unat (((w :: 8 word) AND 0x0f) OR 0x70) div 16 = 7"
proof -
  have "drop_bit 4 ((w AND 0x0f) OR 0x70) = (7 :: 8 word)"
    by (simp add: drop_bit_and drop_bit_or)
  then have "unat (((w AND 0x0f) OR 0x70) div 16) = 7" by (simp add: drop_bit_eq_div)
  then show ?thesis by (simp add: unat_div)
qed

lemma variant_nibble: "unat (((w :: 8 word) AND 0x3f) OR 0x80) div 16 \<in> {8, 9, 10, 11}"
proof -
  let ?v = "drop_bit 4 w AND 3"
  have "?v = take_bit 2 (drop_bit 4 w)"
    by (simp add: take_bit_eq_mask mask_eq_exp_minus_1)
  then have "unat ?v = take_bit 2 (unat (drop_bit 4 w))"
    by (simp only: unsigned_take_bit_eq)
  then have "unat ?v < 4" by (simp add: take_bit_eq_mod)
  then have "unat ?v = 0 \<or> unat ?v = 1 \<or> unat ?v = 2 \<or> unat ?v = 3" by linarith
  then have v: "?v = 0 \<or> ?v = 1 \<or> ?v = 2 \<or> ?v = 3"
    by (simp only: word_unat_eq_iff unat_0 unat_1 unat_numeral) simp
  have "drop_bit 4 ((w AND 0x3f) OR 0x80) = ?v OR (8 :: 8 word)"
    by (simp add: drop_bit_and drop_bit_or)
  then have "((w AND 0x3f) OR 0x80) div 16 = ?v OR 8" by (simp add: drop_bit_eq_div)
  then have "unat (((w AND 0x3f) OR 0x80) div 16) = unat (?v OR 8)" by (rule arg_cong)
  moreover have "unat (?v OR 8) \<in> {8, 9, 10, 11}"
    using v by (elim disjE) simp_all
  ultimately show ?thesis by (simp only: unat_div) simp
qed

lemma ten_bytes: "length rnd = 10 \<Longrightarrow> \<exists>a b c d e f g h i j. rnd = [a, b, c, d, e, f, g, h, i, j]"
  by (simp add: length_Suc_conv eval_nat_numeral) blast

lemma uuid_text:
  assumes "rnd = [a, b, c, d, e, f, g, h, i, j]"
  shows "uuidv7 now rnd =
    hex_byte (ts_byte now 0) @ hex_byte (ts_byte now 1) @ hex_byte (ts_byte now 2) @ hex_byte (ts_byte now 3) @ ''-'' @
    hex_byte (ts_byte now 4) @ hex_byte (ts_byte now 5) @ ''-'' @
    hex_byte ((a AND 0x0f) OR 0x70) @ hex_byte b @ ''-'' @ hex_byte ((c AND 0x3f) OR 0x80) @ hex_byte d @ ''-'' @
    hex_byte e @ hex_byte f @ hex_byte g @ hex_byte h @ hex_byte i @ hex_byte j"
  unfolding uuidv7_def uuid_bytes_def assms by (simp add: upt_rec hex_byte_def slice_def flip: numeral_2_eq_2 numeral_3_eq_3)


lemma hex_val_nibbles [simp]:
  "hex_val (hex_char (unat (b :: 8 word) div 16)) = Some (unat b div 16)"
  "hex_val (hex_char (unat b mod 16)) = Some (unat b mod 16)"
  using unsigned_less [of b] by (auto intro!: hex_val_hex_char less_mult_imp_div_less)

lemma unat_ts_byte: "unat (ts_byte now i) = now div 2 ^ ((5 - i) * 8) mod 256"
  by (simp add: ts_byte_def unat_of_nat)

lemma byte_digits: "16 * (16 * n + b div 16) + b mod 16 = 256 * n + (b :: nat)"
  by simp

lemma base256_6:
  fixes n :: nat
  assumes "n < 2 ^ 48"
  shows "256 * (256 * (256 * (256 * (256 * (n div 2 ^ 40 mod 256) + n div 2 ^ 32 mod 256) + n div 2 ^ 24 mod 256)
      + n div 2 ^ 16 mod 256) + n div 2 ^ 8 mod 256) + n mod 256 = n"
proof -
  have "256 * (n div (256 * k)) + n div k mod 256 = n div k" for k
    using div_mult_mod_eq [of "n div k" 256] by (simp add: div_mult2_eq mult.commute)
  from this [of "2 ^ 32"] this [of "2 ^ 24"] this [of "2 ^ 16"] this [of "2 ^ 8"] this [of 1]
  have "256 * (n div 2 ^ 40) + n div 2 ^ 32 mod 256 = n div 2 ^ 32"
    "256 * (n div 2 ^ 32) + n div 2 ^ 24 mod 256 = n div 2 ^ 24"
    "256 * (n div 2 ^ 24) + n div 2 ^ 16 mod 256 = n div 2 ^ 16"
    "256 * (n div 2 ^ 16) + n div 2 ^ 8 mod 256 = n div 2 ^ 8"
    "256 * (n div 2 ^ 8) + n mod 256 = n" by simp_all
  moreover have "n div 2 ^ 40 mod 256 = n div 2 ^ 40"
    using assms by (simp add: less_mult_imp_div_less)
  ultimately show ?thesis by simp
qed

lemma char_of_digits: "char_of (55 :: nat) = CHR ''7''" "char_of (56 :: nat) = CHR ''8''" "char_of (57 :: nat) = CHR ''9''"
  "char_of (97 :: nat) = CHR ''a''" "char_of (98 :: nat) = CHR ''b''"
  by code_simp+

text \<open>
  For any clock value below $2^{48}$ and any ten random bytes \<open>uuidv7\<close> prints 36 characters
  with dashes at positions 8, 13, 18 and 23, the version digit 7, a variant digit 8, 9, a or b,
  and the clock value can be read back from the first twelve hexadecimal digits.
\<close>

theorem uuidv7_layout:
  assumes "length rnd = 10" "now < 2 ^ 48"
  shows "length (uuidv7 now rnd) = 36
    \<and> map (\<lambda>i. uuidv7 now rnd ! i) [8, 13, 18, 23] = ''----''
    \<and> uuidv7 now rnd ! 14 = CHR ''7''
    \<and> uuidv7 now rnd ! 19 \<in> set ''89ab''
    \<and> uuid_timestamp (uuidv7 now rnd) = now"
proof (intro conjI)
  obtain a b c d e f g h i j where r: "rnd = [a, b, c, d, e, f, g, h, i, j]"
    using ten_bytes [OF assms(1)] by blast
  note t = uuid_text [OF r, of now]
  show "length (uuidv7 now rnd) = 36" "map (\<lambda>i. uuidv7 now rnd ! i) [8, 13, 18, 23] = ''----''"
    unfolding t by (simp_all add: hex_byte_def)
  show "uuidv7 now rnd ! 14 = CHR ''7''"
    unfolding t by (simp add: hex_byte_def version_nibble hex_char_def digit_char_def char_of_digits)
  have "uuidv7 now rnd ! 19 = hex_char (unat ((c AND 0x3f) OR 0x80) div 16)"
    unfolding t by (simp add: hex_byte_def)
  then show "uuidv7 now rnd ! 19 \<in> set ''89ab''"
    using variant_nibble [of c] by (auto simp: hex_char_def digit_char_def char_of_digits)
  have "uuid_timestamp (uuidv7 now rnd) =
    256 * (256 * (256 * (256 * (256 * unat (ts_byte now 0) + unat (ts_byte now 1)) + unat (ts_byte now 2))
      + unat (ts_byte now 3)) + unat (ts_byte now 4)) + unat (ts_byte now 5)"
    unfolding t by (simp add: uuid_timestamp_def hex_byte_def byte_digits)
  also have "\<dots> = now" using base256_6 [OF assms(2)] by (simp add: unat_ts_byte)
  finally show "uuid_timestamp (uuidv7 now rnd) = now" .
qed

theorem uuidv7_layout_witness:
  "length (uuidv7 1767225600000 (replicate 10 0xff)) = 36
   \<and> map (\<lambda>i. uuidv7 1767225600000 (replicate 10 0xff) ! i) [8, 13, 18, 23] = ''----''
   \<and> uuidv7 1767225600000 (replicate 10 0xff) ! 14 = CHR ''7''
   \<and> uuidv7 1767225600000 (replicate 10 0xff) ! 19 \<in> set ''89ab''
   \<and> uuid_timestamp (uuidv7 1767225600000 (replicate 10 0xff)) = 1767225600000"
  by (rule uuidv7_layout) simp_all

end
