(* ===== verification/Redactor.thy ===== *)
theory Redactor
  imports HashChain
begin

text \<open>
  \<open>src/core/redactor.ts\<close>: compiled patterns, the recursive walk with its three modes, and the
  factory. The digest is the parameter \<open>H\<close>.
\<close>

section \<open>Patterns\<close>

datatype pattern = ExactPattern string | DeepPattern string | PrefixPattern string

definition starts_with :: "string \<Rightarrow> string \<Rightarrow> bool" where
  "starts_with p s \<longleftrightarrow> take (length p) s = p"

definition ends_with :: "string \<Rightarrow> string \<Rightarrow> bool" where
  "ends_with p s \<longleftrightarrow> length p \<le> length s \<and> drop (length s - length p) s = p"

definition compilePattern :: "string \<Rightarrow> pattern" where
  "compilePattern p =
     (if starts_with ''*.'' p \<and> length p > 2 then DeepPattern (drop 2 p)
      else if ends_with ''.*'' p \<and> length p > 2 then PrefixPattern (take (length p - 2) p)
      else ExactPattern p)"

fun pattern_matches :: "string list \<Rightarrow> pattern \<Rightarrow> bool" where
  "pattern_matches path (ExactPattern v) \<longleftrightarrow> path \<noteq> [] \<and> last path = v"
| "pattern_matches path (DeepPattern v) \<longleftrightarrow> v \<in> set path"
| "pattern_matches path (PrefixPattern v) \<longleftrightarrow> 2 \<le> length path \<and> path ! (length path - 2) = v"

definition isRedacted :: "string list \<Rightarrow> pattern list \<Rightarrow> bool" where
  "isRedacted path patterns = list_ex (pattern_matches path) patterns"

section \<open>The walk\<close>

definition nonfinite_str :: "nonfinite \<Rightarrow> string" where
  "nonfinite_str x = (case x of NaN \<Rightarrow> ''NaN'' | PosInfinity \<Rightarrow> ''Infinity'' | NegInfinity \<Rightarrow> ''-Infinity'')"

text \<open>\<open>String(v)\<close> of a value that is not an object.\<close>

fun prim_string :: "jsval \<Rightarrow> string" where
  "prim_string JUndefined = ''undefined''"
| "prim_string (JBool b) = (if b then ''true'' else ''false'')"
| "prim_string (JNum n) = int_str n"
| "prim_string (JNonFinite x) = nonfinite_str x"
| "prim_string (JStr s) = s"
| "prim_string (JFunction nm src) = src"
| "prim_string (JSymbol d) = ''Symbol('' @ d @ '')''"
| "prim_string (JBigInt n) = int_str n"
| "prim_string v = ''null''"

fun is_object :: "jsval \<Rightarrow> bool" where
  "is_object (JObj fs) \<longleftrightarrow> True"
| "is_object (JArr xs) \<longleftrightarrow> True"
| "is_object (JInst c ti fs) \<longleftrightarrow> True"
| "is_object (JDate t) \<longleftrightarrow> True"
| "is_object v \<longleftrightarrow> False"

definition hashValue :: "(string \<Rightarrow> string) \<Rightarrow> jsval \<Rightarrow> string \<Rightarrow> string result" where
  "hashValue H v salt =
     rmap (\<lambda>input. ''sha256:'' @ H (salt @ input))
       (if is_object v then canonicalJson v else Inr (prim_string v))"

definition falsy_salt :: "string option \<Rightarrow> bool" where
  "falsy_salt salt \<longleftrightarrow> salt = None \<or> salt = Some []"

text \<open>What replaces the value of a redacted key; \<open>None\<close> leaves the key out.\<close>

definition replacement :: "(string \<Rightarrow> string) \<Rightarrow> redaction_mode \<Rightarrow> string option \<Rightarrow> jsval \<Rightarrow> jsval option result" where
  "replacement H mode salt v =
     (case mode of
        RemoveMode \<Rightarrow> Inr None
      | HashMode \<Rightarrow> if falsy_salt salt then Inl redaction_salt_error
          else rmap (\<lambda>h. Some (JStr h)) (hashValue H v (the salt))
      | MaskMode \<Rightarrow> Inr (Some (JStr ''[REDACTED]'')))"

definition add_entry :: "string \<Rightarrow> jsval option \<Rightarrow> jsobj \<Rightarrow> jsobj" where
  "add_entry k v ps = (case v of None \<Rightarrow> ps | Some x \<Rightarrow> (k, x) # ps)"

fun redactValue :: "(string \<Rightarrow> string) \<Rightarrow> redaction_mode \<Rightarrow> string option \<Rightarrow> pattern list \<Rightarrow> string list \<Rightarrow> jsval \<Rightarrow> jsval result"
  and redact_items :: "(string \<Rightarrow> string) \<Rightarrow> redaction_mode \<Rightarrow> string option \<Rightarrow> pattern list \<Rightarrow> string list \<Rightarrow> nat \<Rightarrow> jsval list \<Rightarrow> jsval list result"
  and redact_entries :: "(string \<Rightarrow> string) \<Rightarrow> redaction_mode \<Rightarrow> string option \<Rightarrow> pattern list \<Rightarrow> string list \<Rightarrow> jsobj \<Rightarrow> jsobj result"
where
  "redactValue H mode salt pats path (JArr xs) = rmap JArr (redact_items H mode salt pats path 0 xs)"
| "redactValue H mode salt pats path (JObj fs) = rmap (\<lambda>ps. JObj (assign_all ps)) (redact_entries H mode salt pats path fs)"
| "redactValue H mode salt pats path (JInst c ti fs) = rmap (\<lambda>ps. JObj (assign_all ps)) (redact_entries H mode salt pats path fs)"
| "redactValue H mode salt pats path (JDate t) = Inr (JObj [])"
| "redactValue H mode salt pats path v = Inr v"
| "redact_items H mode salt pats path i [] = Inr []"
| "redact_items H mode salt pats path i (x # xs) =
     rbind (redactValue H mode salt pats (path @ [nat_str i]) x) (\<lambda>y.
       rmap ((#) y) (redact_items H mode salt pats path (Suc i) xs))"
| "redact_entries H mode salt pats path [] = Inr []"
| "redact_entries H mode salt pats path ((k, x) # fs) =
     rbind (if isRedacted (path @ [k]) pats then replacement H mode salt x
            else rmap Some (redactValue H mode salt pats (path @ [k]) x)) (\<lambda>y.
       rmap (add_entry k y) (redact_entries H mode salt pats path fs))"

record redactor_config =
  redactPaths :: "string list"
  redactMode :: redaction_mode
  redactSalt :: "string option"

text \<open>\<open>createRedactor\<close> throws at once for mode hash without a salt; otherwise it gives \<open>redact\<close>.\<close>

definition createRedactor :: "(string \<Rightarrow> string) \<Rightarrow> redactor_config \<Rightarrow> (jsobj \<Rightarrow> jsobj result) result" where
  "createRedactor H cfg =
     (if redactMode cfg = HashMode \<and> falsy_salt (redactSalt cfg) then Inl redaction_salt_error
      else Inr (\<lambda>values. rmap (\<lambda>v. case v of JObj fs \<Rightarrow> fs | _ \<Rightarrow> [])
        (redactValue H (redactMode cfg) (redactSalt cfg) (map compilePattern (redactPaths cfg)) [] (JObj values))))"

section \<open>What a reader of the result can see\<close>

text \<open>The object members of a value with their paths (array indices are path segments).\<close>

fun members_of :: "string list \<Rightarrow> jsval \<Rightarrow> (string list \<times> jsval) list"
  and members_items :: "string list \<Rightarrow> nat \<Rightarrow> jsval list \<Rightarrow> (string list \<times> jsval) list"
  and members_props :: "string list \<Rightarrow> jsobj \<Rightarrow> (string list \<times> jsval) list"
where
  "members_of path (JArr xs) = members_items path 0 xs"
| "members_of path (JObj fs) = members_props path fs"
| "members_of path v = []"
| "members_items path i [] = []"
| "members_items path i (x # xs) = members_of (path @ [nat_str i]) x @ members_items path (Suc i) xs"
| "members_props path [] = []"
| "members_props path ((k, x) # fs) = (path @ [k], x) # members_of (path @ [k]) x @ members_props path fs"

text \<open>What may stand under a redacted key.\<close>

definition replaced :: "(string \<Rightarrow> string) \<Rightarrow> redaction_mode \<Rightarrow> string option \<Rightarrow> jsval \<Rightarrow> bool" where
  "replaced H mode salt x \<longleftrightarrow>
     (case mode of MaskMode \<Rightarrow> x = JStr ''[REDACTED]'' | RemoveMode \<Rightarrow> False
      | HashMode \<Rightarrow> (\<exists>input. x = JStr (''sha256:'' @ H (the salt @ input))))"

lemma members_props_set:
  "set (members_props path fs) =
     (\<Union>p\<in>set fs. insert (path @ [fst p], snd p) (set (members_of (path @ [fst p]) (snd p))))"
proof (induction fs)
  case (Cons p fs)
  then show ?case by (cases p) simp
qed simp

lemma members_props_assign:
  "set (members_props path (assign_all ps)) \<subseteq> set (members_props path ps)"
  unfolding members_props_set using assign_all_set [of ps] by blast

lemma replacement_replaced: "replacement H mode salt v = Inr (Some x) \<Longrightarrow> replaced H mode salt x"
  by (auto simp: replacement_def replaced_def hashValue_def result_iff split: redaction_mode.splits if_splits)

definition clean :: "(string \<Rightarrow> string) \<Rightarrow> redaction_mode \<Rightarrow> string option \<Rightarrow> pattern list \<Rightarrow> (string list \<times> jsval) list \<Rightarrow> bool" where
  "clean H mode salt pats ms \<longleftrightarrow> list_all (\<lambda>(q, x). isRedacted q pats \<longrightarrow> replaced H mode salt x) ms"

lemma replaced_leaf: "replaced H mode salt x \<Longrightarrow> members_of path x = []"
  by (auto simp: replaced_def split: redaction_mode.splits)

lemma clean_assign: "clean H mode salt pats (members_props path ps) \<Longrightarrow> clean H mode salt pats (members_props path (assign_all ps))"
  using members_props_assign [of path ps] by (fastforce simp: clean_def list_all_iff)

lemma clean_simps [simp]:
  "clean H mode salt pats []"
  "clean H mode salt pats (us @ vs) \<longleftrightarrow> clean H mode salt pats us \<and> clean H mode salt pats vs"
  "clean H mode salt pats ((q, x) # vs) \<longleftrightarrow> (isRedacted q pats \<longrightarrow> replaced H mode salt x) \<and> clean H mode salt pats vs"
  by (simp_all add: clean_def)

lemma redactValue_clean:
  "redactValue H mode salt pats path v = Inr r \<Longrightarrow> clean H mode salt pats (members_of path r)"
  "redact_items H mode salt pats path i xs = Inr ys \<Longrightarrow> clean H mode salt pats (members_items path i ys)"
  "redact_entries H mode salt pats path fs = Inr ps \<Longrightarrow> clean H mode salt pats (members_props path ps)"
proof (induction H mode salt pats path v and H mode salt pats path i xs and H mode salt pats path fs
    arbitrary: r and ys and ps rule: redactValue_redact_items_redact_entries.induct)
  case (2 H mode salt pats path fs)
  then show ?case by (auto simp: result_iff clean_assign)
next
  case (3 H mode salt pats path c ti fs)
  then show ?case by (auto simp: result_iff clean_assign)
next
  case (9 H mode salt pats path k x fs)
  show ?case
  proof (cases "isRedacted (path @ [k]) pats")
    case True
    with 9 show ?thesis
      by (auto simp: result_iff add_entry_def replaced_leaf dest: replacement_replaced split: option.splits)
  next
    case False
    with 9 show ?thesis by (auto simp: result_iff add_entry_def)
  qed
qed (auto simp: result_iff)


lemma redact_result:
  assumes "createRedactor H cfg = Inr redact" "redact values = Inr r"
  shows "redactValue H (redactMode cfg) (redactSalt cfg) (map compilePattern (redactPaths cfg)) [] (JObj values) = Inr (JObj r)"
  using assms by (auto simp: createRedactor_def result_iff split: if_splits)

text \<open>The value at a path, through objects and arrays.\<close>

fun value_at :: "string list \<Rightarrow> jsval \<Rightarrow> jsval option" where
  "value_at [] v = Some v"
| "value_at (k # p) (JObj fs) = (case map_of fs k of None \<Rightarrow> None | Some x \<Rightarrow> value_at p x)"
| "value_at (k # p) (JArr xs) =
     (if k = nat_str (str_nat k) \<and> str_nat k < length xs then value_at p (xs ! str_nat k) else None)"
| "value_at (k # p) v = None"

text \<open>No prefix of the path, after the first \<open>path\<close>, is redacted.\<close>

fun unredacted :: "pattern list \<Rightarrow> string list \<Rightarrow> string list \<Rightarrow> bool" where
  "unredacted pats path [] \<longleftrightarrow> True"
| "unredacted pats path (k # p) \<longleftrightarrow> \<not> isRedacted (path @ [k]) pats \<and> unredacted pats (path @ [k]) p"

lemma redact_items_nth:
  "redact_items H mode salt pats path i xs = Inr ys \<Longrightarrow> length ys = length xs \<and>
     (\<forall>j. j < length xs \<longrightarrow> redactValue H mode salt pats (path @ [nat_str (i + j)]) (xs ! j) = Inr (ys ! j))"
proof (induction xs arbitrary: i ys)
  case (Cons x xs)
  then obtain y zs where yz: "ys = y # zs" "redactValue H mode salt pats (path @ [nat_str i]) x = Inr y"
    "redact_items H mode salt pats path (Suc i) xs = Inr zs"
    by (auto simp: result_iff)
  then show ?case using Cons.IH [OF yz(3)] by (auto simp: nth_Cons split: nat.split)
qed simp

lemma redact_entries_keys: "redact_entries H mode salt pats path fs = Inr ps \<Longrightarrow> set (map fst ps) \<subseteq> set (map fst fs) \<and>
    (distinct (map fst fs) \<longrightarrow> distinct (map fst ps))"
proof (induction fs arbitrary: ps)
  case (Cons p fs)
  obtain k x where p: "p = (k, x)" by (cases p)
  obtain y qs where "ps = add_entry k y qs" "redact_entries H mode salt pats path fs = Inr qs"
    using Cons.prems by (auto simp: p result_iff split: if_splits)
  then show ?case using Cons.IH [of qs] by (auto simp: p add_entry_def split: option.split)
qed simp

lemma redact_entries_lookup:
  "redact_entries H mode salt pats path fs = Inr ps \<Longrightarrow> distinct (map fst fs) \<Longrightarrow> map_of fs k = Some x \<Longrightarrow>
   \<not> isRedacted (path @ [k]) pats \<Longrightarrow>
   \<exists>y. map_of ps k = Some y \<and> redactValue H mode salt pats (path @ [k]) x = Inr y"
proof (induction fs arbitrary: ps)
  case (Cons p fs)
  obtain k' x' where p: "p = (k', x')" by (cases p)
  from Cons.prems(1) obtain y qs where q: "ps = add_entry k' y qs" "redact_entries H mode salt pats path fs = Inr qs"
    "(if isRedacted (path @ [k']) pats then replacement H mode salt x'
      else rmap Some (redactValue H mode salt pats (path @ [k']) x')) = Inr y"
    unfolding p redact_entries.simps rbind_Inr_iff rmap_Inr_iff by blast
  show ?case
  proof (cases "k' = k")
    case True
    then show ?thesis using Cons.prems q by (auto simp: p add_entry_def result_iff)
  next
    case False
    then show ?thesis using Cons.prems Cons.IH [OF q(2)] q(1) by (auto simp: p add_entry_def split: option.split)
  qed
qed simp

lemma redactValue_frame:
  "js_wf v \<Longrightarrow> redactValue H mode salt pats path v = Inr r \<Longrightarrow> value_at p v = Some x \<Longrightarrow> \<not> is_object x \<Longrightarrow>
   unredacted pats path p \<Longrightarrow> ''__proto__'' \<notin> set p \<Longrightarrow> value_at p r = Some x"
proof (induction p arbitrary: v r path)
  case Nil
  then show ?case by (cases v) auto
next
  case (Cons k p)
  show ?case
  proof (cases v)
    case (JObj fs)
    obtain y where y: "map_of fs k = Some y" "value_at p y = Some x"
      using Cons.prems(3) by (auto simp: JObj split: option.splits)
    obtain ps where ps: "redact_entries H mode salt pats path fs = Inr ps" "r = JObj (assign_all ps)"
      using Cons.prems(2) by (auto simp: JObj result_iff)
    have d: "distinct (map fst fs)" using Cons.prems(1) by (simp add: JObj props_ok_def)
    obtain z where z: "map_of ps k = Some z" "redactValue H mode salt pats (path @ [k]) y = Inr z"
      using redact_entries_lookup [OF ps(1) d y(1)] Cons.prems(5) by auto
    have "map_of (assign_all ps) k = Some z"
      using assign_all_lookup [of ps k] redact_entries_keys [OF ps(1)] d z(1) Cons.prems(6) by auto
    moreover have "js_wf y" using Cons.prems(1) map_of_SomeD [OF y(1)] by (auto simp: JObj list_all_iff)
    ultimately show ?thesis
      using Cons.IH [OF _ z(2) y(2) Cons.prems(4)] Cons.prems(5,6) ps(2) by simp
  next
    case (JArr xs)
    then obtain ys where ys: "redact_items H mode salt pats path 0 xs = Inr ys" "r = JArr ys"
      using Cons.prems(2) by (auto simp: result_iff)
    let ?i = "str_nat k"
    have k: "k = nat_str ?i" "?i < length xs" "value_at p (xs ! ?i) = Some x"
      using Cons.prems(3) by (auto simp: JArr split: if_splits)
    have "redactValue H mode salt pats (path @ [k]) (xs ! ?i) = Inr (ys ! ?i)" "length ys = length xs"
      using redact_items_nth [OF ys(1)] k(1,2) by auto
    moreover have "js_wf (xs ! ?i)" using Cons.prems(1) k(2) by (simp add: JArr list_all_length)
    ultimately show ?thesis
      using Cons.IH [of "xs ! ?i" "path @ [k]" "ys ! ?i"] Cons.prems(4-6) k ys(2) by auto
  qed (use Cons.prems in auto)
qed

section \<open>Properties\<close>

text \<open>
  C9: Nothing a pattern selects survives: in what \<open>redact\<close> returns, every object member whose
  path is redacted holds the mask, or a \<open>sha256:\<close> digest in mode hash, and in mode remove there
  is no such member.
\<close>

theorem redacted_members_replaced:
  assumes "createRedactor H cfg = Inr redact" "redact values = Inr r"
  shows "clean H (redactMode cfg) (redactSalt cfg) (map compilePattern (redactPaths cfg)) (members_of [] (JObj r))"
  using redactValue_clean(1) [OF redact_result [OF assms]] .

definition sample_redactor :: redactor_config where
  "sample_redactor = \<lparr>redactPaths = [''password'', ''card.*''], redactMode = MaskMode, redactSalt = None\<rparr>"

theorem redacted_members_replaced_witness:
  "clean (\<lambda>t. t) MaskMode None (map compilePattern [''password'', ''card.*''])
     (members_of [] (JObj [(''user'', JObj [(''password'', JStr ''[REDACTED]''), (''name'', JStr ''x'')]),
        (''card'', JObj [(''number'', JStr ''[REDACTED]'')])]))"
proof -
  define vs where "vs = [(''user'', JObj [(''password'', JStr ''p''), (''name'', JStr ''x'')]), (''card'', JObj [(''number'', JNum 1)])]"
  obtain red where r: "createRedactor (\<lambda>t. t) sample_redactor = Inr red" "red =
    (\<lambda>values. rmap (\<lambda>v. case v of JObj fs \<Rightarrow> fs | _ \<Rightarrow> [])
        (redactValue (\<lambda>t. t) MaskMode None (map compilePattern [''password'', ''card.*'']) [] (JObj values)))"
    by (simp add: createRedactor_def sample_redactor_def)
  have "red vs = Inr [(''user'', JObj [(''password'', JStr ''[REDACTED]''), (''name'', JStr ''x'')]),
        (''card'', JObj [(''number'', JStr ''[REDACTED]'')])]"
    unfolding r(2) vs_def by code_simp
  from redacted_members_replaced [OF r(1) this] show ?thesis
    by (simp add: sample_redactor_def)
qed

text \<open>
  Nothing else is touched: a scalar at a path none of whose members is redacted (and that
  does not go through a property \<open>__proto__\<close>) stands unchanged in what \<open>redact\<close> returns.
\<close>

theorem unredacted_scalars_kept:
  assumes "createRedactor H cfg = Inr redact" "redact values = Inr r" "js_wf (JObj values)"
    and "value_at p (JObj values) = Some x" "\<not> is_object x"
    and "unredacted (map compilePattern (redactPaths cfg)) [] p" "''__proto__'' \<notin> set p"
  shows "value_at p (JObj r) = Some x"
  using redactValue_frame [OF assms(3) redact_result [OF assms(1,2)] assms(4-7)] .

theorem unredacted_scalars_kept_witness:
  "value_at [''user'', ''name''] (JObj [(''user'', JObj [(''password'', JStr ''[REDACTED]''), (''name'', JStr ''x'')])]) = Some (JStr ''x'')"
proof -
  obtain red where r: "createRedactor (\<lambda>t. t) sample_redactor = Inr red" "red =
    (\<lambda>values. rmap (\<lambda>v. case v of JObj fs \<Rightarrow> fs | _ \<Rightarrow> [])
        (redactValue (\<lambda>t. t) MaskMode None (map compilePattern [''password'', ''card.*'']) [] (JObj values)))"
    by (simp add: createRedactor_def sample_redactor_def)
  have "red [(''user'', JObj [(''password'', JStr ''p''), (''name'', JStr ''x'')])]
      = Inr [(''user'', JObj [(''password'', JStr ''[REDACTED]''), (''name'', JStr ''x'')])]"
    unfolding r(2) by code_simp
  from unredacted_scalars_kept [OF r(1) this, of "[''user'', ''name'']" "JStr ''x''"] show ?thesis
    by code_simp
qed

end
