(* ===== verification/Retention.thy ===== *)
theory Retention
  imports HashChain
begin

text \<open>
  \<open>src/core/retention.ts\<close>: the parser of retention durations. \<open>Number.parseInt\<close> of the digits is
  exact in the model (JavaScript rounds values above $2^{53}$).
\<close>

definition is_space :: "char \<Rightarrow> bool" where
  "is_space c \<longleftrightarrow> char_code c \<in> {9, 10, 11, 12, 13, 32, 160}"

definition lower_char :: "char \<Rightarrow> char" where
  "lower_char c = (if 65 \<le> char_code c \<and> char_code c \<le> 90 then char_of (char_code c + 32) else c)"

definition toLowerCase :: "string \<Rightarrow> string" where
  "toLowerCase s = map lower_char s"

definition msPerDay :: int where
  "msPerDay = 24 * 60 * 60 * 1000"

definition unit_days :: "string \<Rightarrow> int option" where
  "unit_days u =
     (if u \<in> {''day'', ''days''} then Some 1
      else if u \<in> {''week'', ''weeks''} then Some 7
      else if u \<in> {''month'', ''months''} then Some 30
      else if u \<in> {''year'', ''years''} then Some 365
      else None)"

definition parseDuration :: "string \<Rightarrow> int result" where
  "parseDuration s =
     (let ds = takeWhile is_digit s; u = dropWhile is_space (dropWhile is_digit s)
      in case unit_days (toLowerCase u) of
           Some k \<Rightarrow> if ds = [] then Inl (AuditStoreError (''Invalid retention duration: '' @ s))
             else Inr (int (str_nat ds) * (k * msPerDay))
         | None \<Rightarrow> Inl (AuditStoreError (''Invalid retention duration: '' @ s)))"

lemma space_not_digit: "is_space c \<Longrightarrow> \<not> is_digit c"
  by (auto simp: is_space_def is_digit_def)

lemma lower_unit_hd: "unit_days (toLowerCase u) = Some k \<Longrightarrow> u \<noteq> [] \<and> \<not> is_space (hd u) \<and> \<not> is_digit (hd u)"
proof -
  assume u: "unit_days (toLowerCase u) = Some k"
  then obtain c cs where cs: "u = c # cs" by (cases u) (auto simp: unit_days_def toLowerCase_def)
  have "lower_char c \<in> {CHR ''d'', CHR ''w'', CHR ''m'', CHR ''y''}"
    using u by (auto simp: cs unit_days_def toLowerCase_def split: if_splits)
  then have "char_code (lower_char c) \<ge> 97" by (auto simp: char_code_def)
  then have "char_code c \<ge> 65" "char_code c \<noteq> 160"
    using \<open>lower_char c \<in> _\<close> by (auto simp: lower_char_def char_code_def split: if_splits)
  then show ?thesis by (auto simp: cs is_space_def is_digit_def)
qed

lemma takeWhile_split:
  "list_all P xs \<Longrightarrow> (ys = [] \<or> \<not> P (hd ys)) \<Longrightarrow> takeWhile P (xs @ ys) = xs \<and> dropWhile P (xs @ ys) = ys"
  by (cases ys) (auto simp: list_all_iff takeWhile_append dropWhile_append)

text \<open>
  \<open>parseDuration\<close> accepts exactly a non-empty run of digits, any white space and a unit in
  any case, and returns the number of milliseconds of that many days, weeks, months of 30 days
  or years of 365 days; on every other text it throws.
\<close>

theorem parseDuration_iff:
  "parseDuration s = Inr ms \<longleftrightarrow>
     (\<exists>ds ws u k. s = ds @ ws @ u \<and> ds \<noteq> [] \<and> list_all is_digit ds \<and> list_all is_space ws
        \<and> unit_days (toLowerCase u) = Some k \<and> ms = int (str_nat ds) * (k * msPerDay))"
proof
  assume p: "parseDuration s = Inr ms"
  let ?r = "dropWhile is_digit s"
  have "s = takeWhile is_digit s @ takeWhile is_space ?r @ dropWhile is_space ?r"
    by simp
  moreover have "list_all is_digit (takeWhile is_digit s)" "list_all is_space (takeWhile is_space ?r)"
    by (auto simp: list_all_iff dest: set_takeWhileD)
  ultimately show "\<exists>ds ws u k. s = ds @ ws @ u \<and> ds \<noteq> [] \<and> list_all is_digit ds \<and> list_all is_space ws
        \<and> unit_days (toLowerCase u) = Some k \<and> ms = int (str_nat ds) * (k * msPerDay)"
    using p unfolding parseDuration_def Let_def
    by (intro exI [of _ "takeWhile is_digit s"] exI [of _ "takeWhile is_space ?r"]
        exI [of _ "dropWhile is_space ?r"]) (auto split: option.splits if_splits)
next
  assume "\<exists>ds ws u k. s = ds @ ws @ u \<and> ds \<noteq> [] \<and> list_all is_digit ds \<and> list_all is_space ws
        \<and> unit_days (toLowerCase u) = Some k \<and> ms = int (str_nat ds) * (k * msPerDay)"
  then obtain ds ws u k where s: "s = ds @ ws @ u" "ds \<noteq> []" "list_all is_digit ds" "list_all is_space ws"
    "unit_days (toLowerCase u) = Some k" "ms = int (str_nat ds) * (k * msPerDay)" by blast
  note h = lower_unit_hd [OF s(5)]
  have "\<not> is_digit (hd (ws @ u))"
    using h s(4) space_not_digit by (cases ws) auto
  then have "takeWhile is_digit s = ds" "dropWhile is_digit s = ws @ u"
    using takeWhile_split [OF s(3), of "ws @ u"] s(1) by auto
  moreover have "dropWhile is_space (ws @ u) = u"
    using takeWhile_split [OF s(4), of u] h by auto
  ultimately show "parseDuration s = Inr ms"
    using s(2,5,6) by (simp add: parseDuration_def Let_def)
qed

end
