(* ===== verification/Assembler.thy ===== *)
theory Assembler
  imports Uuid Redactor Retention
begin

text \<open>
  \<open>src/core/assembler.ts\<close>: from a log call and the request context to an event. The clock, the
  random bytes and the digest \<open>H\<close> are arguments; \<open>encrypt\<close> acts on the state \<open>'s\<close> of the key
  store it uses. Tenant ids are values of any type, since the code checks the type at run time.
\<close>

section \<open>Input, context and configuration\<close>

datatype ctx_actor = NoActor | StaticActor audit_actor | ResolvedActor "audit_actor option result"

record assemble_input =
  inEvent :: string
  inAuditableType :: "string option"
  inAuditableId :: "string option"
  inOldValues :: "jsobj option"
  inNewValues :: "jsobj option"
  inMetadata :: "jsobj option"
  inTags :: "string list option"
  inActor :: "audit_actor option"

record audit_context =
  ctxActor :: ctx_actor
  ctxTenantId :: jsval
  ctxRequestId :: "string option"
  ctxCorrelationId :: "string option"
  ctxIp :: "string option"
  ctxUserAgent :: "string option"
  ctxUrl :: "string option"
  ctxHttpMethod :: "string option"

datatype stream_by = GlobalStream | TenantStream | StreamOf "assemble_input \<Rightarrow> string option \<Rightarrow> string"

record 's assemble_config =
  payloadMaxBytes :: nat
  streamBy :: stream_by
  cfgTenantId :: jsval
  environment :: "string option"
  cryptoEncrypt :: "(audit_event \<Rightarrow> 's \<Rightarrow> audit_event result \<times> 's) option"
  redactorFn :: "(jsobj \<Rightarrow> jsobj result) option"

record fresh =
  freshClock :: nat
  freshRandom :: "8 word list"
  freshCreated :: int

section \<open>Resolution\<close>

definition nullish :: "jsval \<Rightarrow> bool" where
  "nullish v \<longleftrightarrow> v = JUndefined \<or> v = JNull"

definition trim :: "string \<Rightarrow> string" where
  "trim s = rev (dropWhile is_space (rev (dropWhile is_space s)))"

definition resolveTenantId :: "jsval \<Rightarrow> jsval \<Rightarrow> string option result" where
  "resolveTenantId ctx cfg =
     (let t = (if nullish ctx then cfg else ctx) in
      if nullish t then Inr None
      else case t of
        JStr s \<Rightarrow> if s = [] \<or> trim s \<noteq> s
          then Inl (AuditConfigurationError ''Audit tenant IDs must be non-empty, trimmed strings'')
          else Inr (Some s)
      | _ \<Rightarrow> Inl (AuditConfigurationError ''Audit tenant IDs must be non-empty, trimmed strings''))"

definition resolveStream :: "assemble_input \<Rightarrow> stream_by \<Rightarrow> string option \<Rightarrow> string result" where
  "resolveStream inp by_what tenant =
     (case by_what of
        GlobalStream \<Rightarrow> Inr ''default''
      | TenantStream \<Rightarrow>
          (case tenant of
             None \<Rightarrow> Inl (AuditConfigurationError ''Tenant stream mode requires a tenant ID'')
           | Some t \<Rightarrow> Inr t)
      | StreamOf f \<Rightarrow> Inr (f inp tenant))"

definition default_actor :: "string option \<Rightarrow> audit_actor" where
  "default_actor env =
     \<lparr>actorType = (if env = Some ''console'' then ''cli'' else ''system''), actorId = None, actorLabel = None\<rparr>"

definition resolveActor :: "ctx_actor \<Rightarrow> string option \<Rightarrow> audit_actor result" where
  "resolveActor ca env =
     (case ca of
        NoActor \<Rightarrow> Inr (default_actor env)
      | ResolvedActor r \<Rightarrow> rmap (\<lambda>a. case a of None \<Rightarrow> default_actor env | Some x \<Rightarrow> x) r
      | StaticActor a \<Rightarrow> Inr a)"

section \<open>Truncation\<close>

text \<open>\<open>Buffer.byteLength(s, 'utf8')\<close>: a code unit from 128 to 255 takes two bytes.\<close>

definition byteLength :: "string \<Rightarrow> nat" where
  "byteLength s = sum_list (map (\<lambda>c. if char_code c < 128 then 1 else 2) s)"

definition truncated_marker :: "(string \<Rightarrow> string) \<Rightarrow> string \<Rightarrow> jsobj" where
  "truncated_marker H text = [(''_truncated'', JBool True), (''_sha256'', JStr (H text))]"

definition maybeTruncate :: "(string \<Rightarrow> string) \<Rightarrow> jsobj option \<Rightarrow> nat \<Rightarrow> jsobj option result" where
  "maybeTruncate H values limit =
     (case values of
        None \<Rightarrow> Inr None
      | Some fs \<Rightarrow>
          rmap (\<lambda>t. let text = (case t of Some s \<Rightarrow> s | None \<Rightarrow> []) in
            if byteLength text \<le> limit then Some fs else Some (truncated_marker H text))
          (json_str (JObj fs)))"

definition truncatePayloads :: "(string \<Rightarrow> string) \<Rightarrow> audit_event \<Rightarrow> nat \<Rightarrow> audit_event result" where
  "truncatePayloads H e limit =
     rbind (maybeTruncate H (oldValues e) limit) (\<lambda>a.
     rbind (maybeTruncate H (newValues e) limit) (\<lambda>b.
     rmap (\<lambda>c. e\<lparr>oldValues := a, newValues := b, metadata := c\<rparr>) (maybeTruncate H (metadata e) limit)))"

text \<open>\<open>url.replace(/\?.*$/, '')\<close>: from the first question mark no line terminator follows.\<close>

fun strip_query :: "string \<Rightarrow> string" where
  "strip_query [] = []"
| "strip_query (c # cs) =
     (if c = CHR ''?'' \<and> list_all (\<lambda>d. char_code d \<notin> {10, 13}) cs then [] else c # strip_query cs)"

section \<open>Assembly\<close>

definition redact_opt :: "(jsobj \<Rightarrow> jsobj result) \<Rightarrow> jsobj option \<Rightarrow> jsobj option result" where
  "redact_opt f values = (case values of None \<Rightarrow> Inr None | Some fs \<Rightarrow> rmap Some (f fs))"

definition redact_event :: "(jsobj \<Rightarrow> jsobj result) option \<Rightarrow> audit_event \<Rightarrow> audit_event result" where
  "redact_event red e =
     (case red of
        None \<Rightarrow> Inr e
      | Some f \<Rightarrow>
          rbind (redact_opt f (oldValues e)) (\<lambda>a.
          rbind (redact_opt f (newValues e)) (\<lambda>b.
          rmap (\<lambda>c. e\<lparr>oldValues := a, newValues := b, metadata := c\<rparr>) (redact_opt f (metadata e)))))"

definition draft_event :: "assemble_input \<Rightarrow> audit_context \<Rightarrow> 's assemble_config \<Rightarrow> fresh \<Rightarrow> audit_event result" where
  "draft_event inp ctx cfg fr =
     rbind (case inActor inp of Some a \<Rightarrow> Inr a | None \<Rightarrow> resolveActor (ctxActor ctx) (environment cfg)) (\<lambda>a.
     rbind (resolveTenantId (ctxTenantId ctx) (cfgTenantId cfg)) (\<lambda>t.
     rmap (\<lambda>s.
       \<lparr>eventId = uuidv7 (freshClock fr) (freshRandom fr), eventName = inEvent inp, stream = s,
        auditableType = inAuditableType inp, auditableId = inAuditableId inp,
        oldValues = inOldValues inp, newValues = inNewValues inp, metadata = inMetadata inp,
        actor = a, tenantId = t, requestId = ctxRequestId ctx, correlationId = ctxCorrelationId ctx,
        ipAddress = ctxIp ctx, userAgent = ctxUserAgent ctx,
        url = map_option strip_query (ctxUrl ctx), httpMethod = ctxHttpMethod ctx,
        tags = (case inTags inp of None \<Rightarrow> [] | Some ts \<Rightarrow> ts),
        schemaVersion = ''1'', createdAt = toISOString (freshCreated fr)\<rparr>)
     (resolveStream inp (streamBy cfg) t)))"

definition assembleEvent ::
  "(string \<Rightarrow> string) \<Rightarrow> assemble_input \<Rightarrow> audit_context \<Rightarrow> 's assemble_config \<Rightarrow> fresh \<Rightarrow> 's \<Rightarrow> audit_event result \<times> 's" where
  "assembleEvent H inp ctx cfg fr st =
     (case rbind (draft_event inp ctx cfg fr) (redact_event (redactorFn cfg)) of
        Inl err \<Rightarrow> (Inl err, st)
      | Inr e \<Rightarrow>
          (let (r, st') = (case cryptoEncrypt cfg of None \<Rightarrow> (Inr e, st) | Some f \<Rightarrow> f e st)
           in (rbind r (\<lambda>e'. truncatePayloads H e' (payloadMaxBytes cfg)), st')))"

section \<open>Lemmas\<close>

definition within_limit :: "(string \<Rightarrow> string) \<Rightarrow> nat \<Rightarrow> jsobj option \<Rightarrow> bool" where
  "within_limit H limit values =
     (case values of
        None \<Rightarrow> True
      | Some fs \<Rightarrow>
          (\<exists>text. json_str (JObj fs) = Inr (Some text) \<and> byteLength text \<le> limit) \<or>
          (\<exists>text. fs = truncated_marker H text \<and> limit < byteLength text))"

lemma json_str_obj: "json_str (JObj fs) = Inr t \<Longrightarrow> \<exists>s. t = Some s"
  by (auto simp: result_iff)

lemma maybeTruncate_within:
  assumes "maybeTruncate H values limit = Inr r"
  shows "within_limit H limit r"
proof (cases "values")
  case None
  then show ?thesis using assms by (simp add: maybeTruncate_def within_limit_def)
next
  case (Some fs)
  then obtain t where t: "json_str (JObj fs) = Inr t"
    using assms unfolding maybeTruncate_def by (auto simp: rmap_Inr_iff simp del: json_str.simps)
  then obtain j where j: "t = Some j" using json_str_obj by blast
  then have "r = (if byteLength j \<le> limit then Some fs else Some (truncated_marker H j))"
    using assms Some t unfolding maybeTruncate_def by (simp add: Let_def del: json_str.simps cong: if_cong)
  then show ?thesis using t j unfolding within_limit_def
    by (cases "byteLength j \<le> limit") (simp_all add: not_le del: json_str.simps, blast+)
qed

text \<open>Two events that differ in their payloads only.\<close>

definition same_header :: "audit_event \<Rightarrow> audit_event \<Rightarrow> bool" where
  "same_header e f \<longleftrightarrow> (\<exists>a b c. f = e\<lparr>oldValues := a, newValues := b, metadata := c\<rparr>)"

lemma same_header_refl [simp]: "same_header e e"
  unfolding same_header_def by (intro exI [of _ "oldValues e"] exI [of _ "newValues e"] exI [of _ "metadata e"]) (cases e, simp)

lemma same_header_update [simp]: "same_header e (e\<lparr>oldValues := a, newValues := b, metadata := c\<rparr>)"
  unfolding same_header_def by blast

lemma same_header_trans: "same_header e f \<Longrightarrow> same_header f g \<Longrightarrow> same_header e g"
  by (clarsimp simp: same_header_def) blast

lemma same_header_fields:
  "same_header e f \<Longrightarrow> eventId f = eventId e \<and> eventName f = eventName e \<and> stream f = stream e \<and>
     tenantId f = tenantId e \<and> url f = url e \<and> actor f = actor e \<and> createdAt f = createdAt e \<and>
     schemaVersion f = schemaVersion e"
  by (auto simp: same_header_def)

lemma truncatePayloads_within:
  assumes "truncatePayloads H e limit = Inr r"
  shows "within_limit H limit (oldValues r) \<and> within_limit H limit (newValues r) \<and> within_limit H limit (metadata r)"
    and "same_header e r"
proof -
  obtain a b c where r: "maybeTruncate H (oldValues e) limit = Inr a" "maybeTruncate H (newValues e) limit = Inr b"
    "maybeTruncate H (metadata e) limit = Inr c" "r = e\<lparr>oldValues := a, newValues := b, metadata := c\<rparr>"
    using assms unfolding truncatePayloads_def rbind_Inr_iff rmap_Inr_iff by blast
  then show "within_limit H limit (oldValues r) \<and> within_limit H limit (newValues r) \<and> within_limit H limit (metadata r)"
    using maybeTruncate_within by simp
  show "same_header e r" by (simp add: r(4))
qed

lemma redact_event_keeps:
  assumes "redact_event red e = Inr r"
  shows "same_header e r"
proof (cases red)
  case (Some f)
  then obtain a b c where "r = e\<lparr>oldValues := a, newValues := b, metadata := c\<rparr>"
    using assms unfolding redact_event_def by (simp add: rbind_Inr_iff rmap_Inr_iff) blast
  then show ?thesis by simp
qed (use assms in \<open>simp add: redact_event_def\<close>)

lemma strip_query_no_question:
  "list_all (\<lambda>d. char_code d \<notin> {10, 13}) u \<Longrightarrow> CHR ''?'' \<notin> set (strip_query u)"
  by (induction u) auto

lemma strip_query_prefix: "\<exists>q. u = strip_query u @ q \<and> (q = [] \<or> hd q = CHR ''?'')"
  by (induction u) auto

text \<open>A tenant id the library lets through.\<close>

definition tenant_ok :: "string option \<Rightarrow> bool" where
  "tenant_ok t = (case t of None \<Rightarrow> True | Some s \<Rightarrow> s \<noteq> [] \<and> trim s = s)"

lemma resolveTenantId_ok: "resolveTenantId a b = Inr t \<Longrightarrow> tenant_ok t"
  by (auto simp: resolveTenantId_def tenant_ok_def Let_def split: if_splits jsval.splits)

text \<open>
  C14: Every payload of an assembled event is within the configured size: its JSON text takes at
  most \<open>payloadMaxBytes\<close> bytes, or it has been replaced by the marker that holds the digest of
  the longer text. This holds whatever the redactor and the encryption return.
\<close>

theorem assembled_payloads_bounded:
  assumes "assembleEvent H inp ctx cfg fr st = (Inr e, st')"
  shows "within_limit H (payloadMaxBytes cfg) (oldValues e) \<and> within_limit H (payloadMaxBytes cfg) (newValues e)
     \<and> within_limit H (payloadMaxBytes cfg) (metadata e)"
proof -
  obtain e' where "truncatePayloads H e' (payloadMaxBytes cfg) = Inr e"
    using assms by (auto simp: assembleEvent_def result_iff split: sum.splits prod.splits)
  then show ?thesis by (rule truncatePayloads_within(1))
qed

definition sample_input :: assemble_input where
  "sample_input = \<lparr>inEvent = ''order.created'', inAuditableType = None, inAuditableId = None, inOldValues = None,
     inNewValues = Some [(''n'', JNum 12345)], inMetadata = None, inTags = None, inActor = None\<rparr>"

definition sample_context :: audit_context where
  "sample_context = \<lparr>ctxActor = NoActor, ctxTenantId = JStr ''acme'', ctxRequestId = None, ctxCorrelationId = None,
     ctxIp = None, ctxUserAgent = None, ctxUrl = Some ''/a?token=1'', ctxHttpMethod = None\<rparr>"

definition sample_config :: "unit assemble_config" where
  "sample_config = \<lparr>payloadMaxBytes = 10, streamBy = TenantStream, cfgTenantId = JNull, environment = Some ''console'',
     cryptoEncrypt = None, redactorFn = None\<rparr>"

definition sample_fresh :: fresh where
  "sample_fresh = \<lparr>freshClock = 5, freshRandom = replicate 10 0, freshCreated = 0\<rparr>"

lemma sample_assembled:
  "\<exists>e. assembleEvent (\<lambda>t. ''digest'') sample_input sample_context sample_config sample_fresh () = (Inr e, ())
     \<and> newValues e = Some [(''_truncated'', JBool True), (''_sha256'', JStr ''digest'')]"
  by (simp add: assembleEvent_def draft_event_def sample_input_def sample_context_def sample_config_def
      resolveActor_def resolveTenantId_def nullish_def resolveStream_def redact_event_def trim_def is_space_def
      char_code_def truncatePayloads_def maybeTruncate_def truncated_marker_def byteLength_def json_quote_def
      int_str_def nat_str.simps esc_char_def)

theorem assembled_payloads_bounded_witness:
  "\<exists>e :: audit_event. within_limit (\<lambda>t. ''digest'') 10 (oldValues e) \<and> within_limit (\<lambda>t. ''digest'') 10 (newValues e)
     \<and> within_limit (\<lambda>t. ''digest'') 10 (metadata e)
     \<and> newValues e = Some [(''_truncated'', JBool True), (''_sha256'', JStr ''digest'')]"
proof -
  obtain e where e: "assembleEvent (\<lambda>t. ''digest'') sample_input sample_context sample_config sample_fresh () = (Inr e, ())"
    "newValues e = Some [(''_truncated'', JBool True), (''_sha256'', JStr ''digest'')]"
    using sample_assembled by blast
  have "within_limit (\<lambda>t. ''digest'') 10 (oldValues e) \<and> within_limit (\<lambda>t. ''digest'') 10 (newValues e)
     \<and> within_limit (\<lambda>t. ''digest'') 10 (metadata e)"
    using assembled_payloads_bounded [OF e(1)] by (simp add: sample_config_def)
  then show ?thesis using e(2) by blast
qed


text \<open>Encryption that changes payloads only.\<close>

definition keeps_header :: "(audit_event \<Rightarrow> 's \<Rightarrow> audit_event result \<times> 's) \<Rightarrow> bool" where
  "keeps_header f \<longleftrightarrow> (\<forall>e st r st'. f e st = (Inr r, st') \<longrightarrow> same_header e r)"

lemma assembleEvent_header:
  assumes "assembleEvent H inp ctx cfg fr st = (Inr e, st')"
    and "case cryptoEncrypt cfg of None \<Rightarrow> True | Some f \<Rightarrow> keeps_header f"
  shows "\<exists>d. draft_event inp ctx cfg fr = Inr d \<and> same_header d e"
proof -
  obtain d d' where d: "draft_event inp ctx cfg fr = Inr d" "redact_event (redactorFn cfg) d = Inr d'"
    using assms(1) by (auto simp: assembleEvent_def rbind_Inr_iff split: sum.splits)
  then obtain r where r: "(case cryptoEncrypt cfg of None \<Rightarrow> (Inr d', st) | Some f \<Rightarrow> f d' st) = (r, st')"
    "rbind r (\<lambda>e'. truncatePayloads H e' (payloadMaxBytes cfg)) = Inr e"
    using assms(1) by (auto simp: assembleEvent_def split: prod.splits)
  then obtain e' where e': "r = Inr e'" "truncatePayloads H e' (payloadMaxBytes cfg) = Inr e"
    by (auto simp: rbind_Inr_iff)
  have "same_header d' e'"
    using r(1) e'(1) assms(2) by (auto simp: keeps_header_def split: option.splits)
  then show ?thesis
    using d redact_event_keeps truncatePayloads_within(2) [OF e'(2)] same_header_trans by metis
qed

text \<open>The actor of a call: its own, else the context's, else the process.\<close>

definition actor_of :: "assemble_input \<Rightarrow> audit_context \<Rightarrow> 's assemble_config \<Rightarrow> audit_actor \<Rightarrow> bool" where
  "actor_of inp ctx cfg a \<longleftrightarrow>
     (case inActor inp of
        Some b \<Rightarrow> a = b
      | None \<Rightarrow>
          (case ctxActor ctx of
             StaticActor b \<Rightarrow> a = b
           | ResolvedActor r \<Rightarrow> r = Inr (Some a) \<or> r = Inr None \<and> a = default_actor (environment cfg)
           | NoActor \<Rightarrow> a = default_actor (environment cfg)))"

definition uuid7_at :: "nat \<Rightarrow> string \<Rightarrow> bool" where
  "uuid7_at now i \<longleftrightarrow> length i = 36 \<and> map (\<lambda>k. i ! k) [8, 13, 18, 23] = ''----'' \<and> i ! 14 = CHR ''7''
     \<and> i ! 19 \<in> set ''89ab'' \<and> uuid_timestamp i = now"

text \<open>
  C0: An assembled event is attributed to what the call and its context say. Its id is a version 7
  UUID whose time stamp is the clock's (for ten random bytes and a clock below $2^{48}$). Its actor is
  the call's, else the context's, else the process itself. Its tenant id is the context's, else the
  configured one, absent or a non-empty trimmed string; in tenant mode the stream is exactly that
  tenant id, in global mode it is \<open>default\<close>. Its URL ends before the query string, unless line breaks
  follow the question mark. The encryption is only assumed to leave everything but the payloads alone.
\<close>

theorem assembled_attribution:
  assumes "assembleEvent H inp ctx cfg fr st = (Inr e, st')"
    and "case cryptoEncrypt cfg of None \<Rightarrow> True | Some f \<Rightarrow> keeps_header f"
    and "length (freshRandom fr) = 10" "freshClock fr < 2 ^ 48"
  shows "uuid7_at (freshClock fr) (eventId e) \<and> actor_of inp ctx cfg (actor e)
     \<and> opt_str (tenantId e) = (let t = (if nullish (ctxTenantId ctx) then cfgTenantId cfg else ctxTenantId ctx) in if nullish t then JNull else t)
     \<and> tenant_ok (tenantId e)
     \<and> (case streamBy cfg of TenantStream \<Rightarrow> Some (stream e) = tenantId e | GlobalStream \<Rightarrow> stream e = ''default'' | StreamOf f \<Rightarrow> stream e = f inp (tenantId e))
     \<and> (case ctxUrl ctx of None \<Rightarrow> url e = None
        | Some u \<Rightarrow> list_all (\<lambda>c. char_code c \<notin> {10, 13}) u \<longrightarrow> (\<exists>v. url e = Some v \<and> CHR ''?'' \<notin> set v))"
proof -
  obtain d where d: "draft_event inp ctx cfg fr = Inr d" "same_header d e"
    using assembleEvent_header [OF assms(1,2)] by blast
  note f = same_header_fields [OF d(2)]
  obtain t where t: "resolveTenantId (ctxTenantId ctx) (cfgTenantId cfg) = Inr t"
    "resolveStream inp (streamBy cfg) t = Inr (stream d)" "tenantId d = t" "url d = map_option strip_query (ctxUrl ctx)"
    using d(1) by (auto simp: draft_event_def result_iff)
  have i: "eventId d = uuidv7 (freshClock fr) (freshRandom fr)"
    and a: "(case inActor inp of Some a \<Rightarrow> Inr a | None \<Rightarrow> resolveActor (ctxActor ctx) (environment cfg)) = Inr (actor d)"
    using d(1) by (auto simp: draft_event_def result_iff)
  have "uuid7_at (freshClock fr) (eventId e)"
    using uuidv7_layout [OF assms(3,4)] i f by (simp add: uuid7_at_def)
  moreover have "actor_of inp ctx cfg (actor e)"
    using a f by (auto simp: actor_of_def resolveActor_def result_iff split: option.splits ctx_actor.splits) (metis option.exhaust)
  moreover have "opt_str (tenantId e) = (let t = (if nullish (ctxTenantId ctx) then cfgTenantId cfg else ctxTenantId ctx) in if nullish t then JNull else t)"
  proof -
    have "opt_str t = (let t = (if nullish (ctxTenantId ctx) then cfgTenantId cfg else ctxTenantId ctx) in if nullish t then JNull else t)"
      using t(1) by (auto simp: resolveTenantId_def Let_def opt_str_def split: if_splits jsval.splits)
    then show ?thesis using t(3) f by simp
  qed
  moreover have "tenant_ok (tenantId e)" using resolveTenantId_ok [OF t(1)] t(3) f by simp
  ultimately show ?thesis
    using t(2-4) f strip_query_no_question by (auto simp: resolveStream_def split: stream_by.splits option.splits)
qed

theorem assembled_attribution_witness:
  "\<exists>e :: audit_event. uuid7_at 5 (eventId e) \<and> actor_of sample_input sample_context sample_config (actor e)
     \<and> opt_str (tenantId e) = JStr ''acme'' \<and> Some (stream e) = tenantId e \<and> (\<exists>v. url e = Some v \<and> CHR ''?'' \<notin> set v)"
proof -
  obtain e where e: "assembleEvent (\<lambda>t. ''digest'') sample_input sample_context sample_config sample_fresh () = (Inr e, ())"
    using sample_assembled by blast
  have c: "case cryptoEncrypt sample_config of None \<Rightarrow> True | Some f \<Rightarrow> keeps_header f"
    "length (freshRandom sample_fresh) = 10" "freshClock sample_fresh < 2 ^ 48"
    by (simp_all add: sample_config_def sample_fresh_def)
  have u: "streamBy sample_config = TenantStream" "ctxUrl sample_context = Some ''/a?token=1''"
    "freshClock sample_fresh = 5" "\<not> nullish (ctxTenantId sample_context)" "ctxTenantId sample_context = JStr ''acme''"
    "list_all (\<lambda>c. char_code c \<notin> {10, 13}) ''/a?token=1''"
    by (simp_all add: sample_config_def sample_context_def sample_fresh_def nullish_def char_code_def)
  have "uuid7_at 5 (eventId e) \<and> actor_of sample_input sample_context sample_config (actor e)
     \<and> opt_str (tenantId e) = JStr ''acme'' \<and> Some (stream e) = tenantId e \<and> (\<exists>v. url e = Some v \<and> CHR ''?'' \<notin> set v)"
    using assembled_attribution [OF e c] u by (simp add: Let_def)
  then show ?thesis by blast
qed

end
