(* ===== verification/Pipeline.thy ===== *)
theory Pipeline
  imports RingBuffer Assembler
begin

text \<open>
  \<open>src/core/pipeline.ts\<close>: the buffered delivery pipeline. The code runs on one thread and gives up
  control only at an \<open>await\<close>, so the pipeline is a state machine whose steps are the pieces of
  code between two awaits. \<open>pOut\<close> records, in order, what the pipeline does to the outside:
  events accepted, drops announced, batches a store has written, batches handed to the
  dead-letter handler, coupled waiters released. What a store, the dead-letter handler, the
  clock and the timers do is chosen by the step.
\<close>

section \<open>State\<close>

record pipe_config =
  maxBatchSize :: nat
  flushIntervalMs :: nat
  pipeCapacity :: nat
  overflow :: overflow_strategy
  retryBaseDelayMs :: nat

datatype pipe_out =
    Accepted audit_event
  | AnnouncedDrop overflow_strategy "audit_event option"
  | StoreWrote string "audit_event list"
  | DeadLettered "audit_event list"
  | Released nat
  | TimedOut nat

text \<open>Where the active flush stands: in its n-th retry of the first group, notifying after a
  successful write, or settled (the promise has resolved or rejected, \<open>completeFlush\<close> is queued).\<close>

datatype flush_phase = Writing nat | Notifying | Settled bool

record flush =
  flBatch :: "audit_event list"
  flGroups :: "(string \<times> audit_event list) list"
  flPhase :: flush_phase

datatype shutdown_phase = Running | Draining | AwaitingFlush | ReadyToDrain | Stopped | StopFailed

text \<open>A coupled waiter: its number and the event ids it was registered for.\<close>

type_synonym waiter = "nat \<times> string list"

record pipe_state =
  pRing :: "audit_event ring"
  pFlush :: "flush option"
  pAccepting :: bool
  pStarted :: bool
  pTimer :: bool
  pBlocked :: "audit_event list"
  pWoken :: "audit_event list"
  pCoupled :: "(string \<times> waiter) list"
  pShutdown :: shutdown_phase
  pStats :: pipeline_stats
  pOut :: "pipe_out list"

definition pipe_new :: "pipe_config \<Rightarrow> pipe_state" where
  "pipe_new cfg =
     \<lparr>pRing = ring_new (pipeCapacity cfg), pFlush = None, pAccepting = True, pStarted = False, pTimer = False,
      pBlocked = [], pWoken = [], pCoupled = [], pShutdown = Running,
      pStats = \<lparr>queued = 0, written = 0, dropped = 0, retried = 0, deadLettered = 0, lastFlushAt = None\<rparr>, pOut = []\<rparr>"

definition stats :: "pipe_state \<Rightarrow> pipeline_stats" where
  "stats st = pStats st"

definition emit :: "pipe_out \<Rightarrow> pipe_state \<Rightarrow> pipe_state" where
  "emit out_event st = st\<lparr>pOut := pOut st @ [out_event]\<rparr>"

definition start :: "pipe_state \<Rightarrow> pipe_state" where
  "start st = (if pStarted st then st else st\<lparr>pStarted := True, pTimer := True\<rparr>)"

definition wakeCapacityWaiters :: "pipe_state \<Rightarrow> pipe_state" where
  "wakeCapacityWaiters st = st\<lparr>pWoken := pWoken st @ pBlocked st, pBlocked := []\<rparr>"

section \<open>Flushing\<close>

text \<open>\<open>groupByStore\<close>; \<open>route\<close> gives the store's name or throws.\<close>

definition groupByStore :: "(audit_event \<Rightarrow> string option) \<Rightarrow> audit_event list \<Rightarrow> (string \<times> audit_event list) list option" where
  "groupByStore route batch =
     (if list_all (\<lambda>e. route e \<noteq> None) batch then Some (group_by (\<lambda>e. the (route e)) batch) else None)"

definition removeBuffered :: "nat \<Rightarrow> pipe_state \<Rightarrow> pipe_state" where
  "removeBuffered n st = wakeCapacityWaiters (st\<lparr>pRing := ring_remove n (pRing st)\<rparr>)"

text \<open>The end of \<open>flushBatch\<close> once no group is left, or the next group.\<close>

definition next_group :: "flush \<Rightarrow> pipe_state \<Rightarrow> pipe_state" where
  "next_group f st =
     (if flGroups f = []
      then (removeBuffered (length (flBatch f)) st)\<lparr>pFlush := Some (f\<lparr>flPhase := Settled True\<rparr>)\<rparr>
      else st\<lparr>pFlush := Some (f\<lparr>flPhase := Writing 0\<rparr>)\<rparr>)"

definition begin_flush :: "pipe_config \<Rightarrow> (audit_event \<Rightarrow> string option) \<Rightarrow> pipe_state \<Rightarrow> pipe_state" where
  "begin_flush cfg route st =
     (if pFlush st \<noteq> None \<or> ringSize (pRing st) = 0 then st
      else (let batch = ring_peek (maxBatchSize cfg) (pRing st) in
        case groupByStore route batch of
          None \<Rightarrow> st\<lparr>pFlush := Some \<lparr>flBatch = batch, flGroups = [], flPhase = Settled False\<rparr>\<rparr>
        | Some gs \<Rightarrow> next_group \<lparr>flBatch = batch, flGroups = gs, flPhase = Writing 0\<rparr> st))"

definition completeFlush :: "pipe_config \<Rightarrow> (audit_event \<Rightarrow> string option) \<Rightarrow> pipe_state \<Rightarrow> pipe_state" where
  "completeFlush cfg route st =
     (let st = wakeCapacityWaiters (st\<lparr>pFlush := None\<rparr>)
      in if ringSize (pRing st) \<ge> int (maxBatchSize cfg) then begin_flush cfg route st else st)"

text \<open>
  \<open>resolveCoupled\<close>: the resolvers registered for the ids, each called once; a resolver removes
  all the ids of its own request and settles it.
\<close>

definition drop_ids :: "string list \<Rightarrow> pipe_state \<Rightarrow> pipe_state" where
  "drop_ids ids st = st\<lparr>pCoupled := filter (\<lambda>p. fst p \<notin> set ids) (pCoupled st)\<rparr>"

fun release_all :: "waiter list \<Rightarrow> pipe_state \<Rightarrow> pipe_state" where
  "release_all [] st = st"
| "release_all (w # ws) st = release_all ws (emit (Released (fst w)) (drop_ids (snd w) st))"

definition resolveCoupled :: "string list \<Rightarrow> pipe_state \<Rightarrow> pipe_state" where
  "resolveCoupled ids st =
     release_all (remdups (List.map_filter (map_of (pCoupled st)) ids)) (drop_ids ids st)"

text \<open>\<open>writeWithRetry\<close>: the three ways an attempt goes on.\<close>

definition retry_delay :: "pipe_config \<Rightarrow> nat \<Rightarrow> nat \<Rightarrow> nat" where
  "retry_delay cfg attempts jitter = 2 ^ attempts * retryBaseDelayMs cfg + jitter"

definition maxAttempts :: nat where "maxAttempts = 5"

definition write_ok :: "int \<Rightarrow> flush \<Rightarrow> pipe_state \<Rightarrow> pipe_state" where
  "write_ok now f st =
     (let (name, evs) = hd (flGroups f); s = pStats st in
      emit (StoreWrote name evs)
        (st\<lparr>pFlush := Some (f\<lparr>flPhase := Notifying\<rparr>),
            pStats := s\<lparr>written := written s + length evs, lastFlushAt := Some now\<rparr>\<rparr>))"

definition notified :: "flush \<Rightarrow> pipe_state \<Rightarrow> pipe_state" where
  "notified f st =
     next_group (f\<lparr>flGroups := tl (flGroups f)\<rparr>) (resolveCoupled (map eventId (snd (hd (flGroups f)))) st)"

definition write_failed :: "bool \<Rightarrow> nat \<Rightarrow> flush \<Rightarrow> pipe_state \<Rightarrow> pipe_state" where
  "write_failed handler_ok attempts f st =
     (let s = pStats st; st = st\<lparr>pStats := s\<lparr>retried := retried s + 1\<rparr>\<rparr>; evs = snd (hd (flGroups f)) in
      if attempts + 1 \<ge> maxAttempts then
        (if \<not> handler_ok then st\<lparr>pFlush := Some (f\<lparr>flPhase := Settled False\<rparr>)\<rparr>
         else (let s = pStats st in
           next_group (f\<lparr>flGroups := tl (flGroups f)\<rparr>)
             (emit (DeadLettered evs) (st\<lparr>pStats := s\<lparr>deadLettered := deadLettered s + length evs\<rparr>\<rparr>))))
      else st\<lparr>pFlush := Some (f\<lparr>flPhase := Writing (attempts + 1)\<rparr>)\<rparr>)"

section \<open>Enqueueing\<close>

datatype enqueue_result = Taken | Refused | Blocked | Threw audit_error

definition dropOldest :: "pipe_state \<Rightarrow> audit_event option \<times> pipe_state" where
  "dropOldest st =
     (let (d, r) = ring_pop (pRing st); s = pStats st in
      (d, wakeCapacityWaiters (st\<lparr>pRing := r, pStats := s\<lparr>dropped := dropped s + 1\<rparr>\<rparr>)))"

definition accept_event :: "pipe_config \<Rightarrow> (audit_event \<Rightarrow> string option) \<Rightarrow> audit_event \<Rightarrow> pipe_state \<Rightarrow> enqueue_result \<times> pipe_state" where
  "accept_event cfg route e st =
     (if \<not> pAccepting st then (Refused, st)
      else (let s = pStats st;
                st = emit (Accepted e) (st\<lparr>pRing := ring_push e (pRing st), pStats := s\<lparr>queued := queued s + 1\<rparr>\<rparr>)
            in (Taken, if ringSize (pRing st) \<ge> int (maxBatchSize cfg) then begin_flush cfg route st else st)))"

definition enqueue_loop :: "pipe_config \<Rightarrow> (audit_event \<Rightarrow> string option) \<Rightarrow> audit_event \<Rightarrow> pipe_state \<Rightarrow> enqueue_result \<times> pipe_state" where
  "enqueue_loop cfg route e st =
     (if ringSize (pRing st) < int (pipeCapacity cfg) then accept_event cfg route e st
      else case overflow cfg of
        DropNew \<Rightarrow> (let s = pStats st in
          (Refused, emit (AnnouncedDrop DropNew (Some e)) (st\<lparr>pStats := s\<lparr>dropped := dropped s + 1\<rparr>\<rparr>)))
      | DropOldest \<Rightarrow> (let (d, st) = dropOldest st in accept_event cfg route e (emit (AnnouncedDrop DropOldest d) st))
      | Block \<Rightarrow>
          if \<not> pAccepting st then (Refused, st)
          else (Blocked, (let st = begin_flush cfg route st in st\<lparr>pBlocked := pBlocked st @ [e]\<rparr>)))"

definition enqueue ::
  "pipe_config \<Rightarrow> (audit_event \<Rightarrow> string option) \<Rightarrow> (jsobj \<Rightarrow> jsobj result) option \<Rightarrow> audit_event \<Rightarrow> pipe_state \<Rightarrow> enqueue_result \<times> pipe_state" where
  "enqueue cfg route red e st =
     (case redact_event red e of
        Inl err \<Rightarrow> (Threw err, st)
      | Inr e' \<Rightarrow> enqueue_loop cfg route e' st)"

section \<open>Coupled flushes and shutdown\<close>

definition requestCoupledFlush :: "pipe_config \<Rightarrow> (audit_event \<Rightarrow> string option) \<Rightarrow> nat \<Rightarrow> string list \<Rightarrow> pipe_state \<Rightarrow> pipe_state" where
  "requestCoupledFlush cfg route w ids st =
     begin_flush cfg route (st\<lparr>pCoupled := foldl (\<lambda>m i. AList.update i (w, ids) m) (pCoupled st) ids\<rparr>)"

definition settled_waiters :: "pipe_state \<Rightarrow> nat list" where
  "settled_waiters st = List.map_filter (\<lambda>out_event. case out_event of Released w \<Rightarrow> Some w | TimedOut w \<Rightarrow> Some w | _ \<Rightarrow> None) (pOut st)"

definition coupled_timeout :: "nat \<Rightarrow> string list \<Rightarrow> pipe_state \<Rightarrow> pipe_state" where
  "coupled_timeout w ids st =
     (if w \<in> set (settled_waiters st) then st else emit (TimedOut w) (drop_ids ids st))"

definition shutdown_begin :: "pipe_state \<Rightarrow> pipe_state" where
  "shutdown_begin st = wakeCapacityWaiters (st\<lparr>pAccepting := False, pTimer := False, pShutdown := Draining\<rparr>)"

text \<open>The end of the loop in \<open>shutdown\<close> (nothing left, or the deadline), and what follows it.\<close>

definition shutdown_leave_loop :: "pipe_state \<Rightarrow> pipe_state" where
  "shutdown_leave_loop st = st\<lparr>pShutdown := (if pFlush st = None then ReadyToDrain else AwaitingFlush)\<rparr>"

definition shutdown_drain :: "pipe_config \<Rightarrow> bool \<Rightarrow> pipe_state \<Rightarrow> pipe_state" where
  "shutdown_drain cfg handler_ok st =
     (if ringSize (pRing st) > 0 then
        (let pending = ring_peek (maxBatchSize cfg) (pRing st);
             st = removeBuffered (length pending) st; s = pStats st in
         if \<not> handler_ok then st\<lparr>pShutdown := StopFailed\<rparr>
         else emit (DeadLettered pending)
           (st\<lparr>pStats := s\<lparr>deadLettered := deadLettered s + length pending\<rparr>, pShutdown := Stopped\<rparr>))
      else st\<lparr>pShutdown := Stopped\<rparr>)"

text \<open>After \<open>completeFlush\<close> the continuation of \<open>shutdown\<close> that awaited this flush runs.\<close>

definition settle_flush :: "pipe_config \<Rightarrow> (audit_event \<Rightarrow> string option) \<Rightarrow> bool \<Rightarrow> pipe_state \<Rightarrow> pipe_state" where
  "settle_flush cfg route ok st =
     (let st = completeFlush cfg route st in
      if \<not> ok \<and> pShutdown st \<in> {Draining, AwaitingFlush} then st\<lparr>pShutdown := StopFailed\<rparr>
      else if pShutdown st = AwaitingFlush then st\<lparr>pShutdown := ReadyToDrain\<rparr> else st)"

section \<open>The machine\<close>

datatype pipe_op =
    Start
  | Enqueue audit_event
  | Resume
  | Tick
  | WriteOk int
  | WriteFailed bool
  | Notified
  | Complete
  | Couple nat "string list"
  | CoupledTimeout nat "string list"
  | ShutdownBegin
  | LeaveLoop
  | Drain bool

definition with_flush :: "(flush \<Rightarrow> pipe_state option) \<Rightarrow> pipe_state \<Rightarrow> pipe_state option" where
  "with_flush g st = (case pFlush st of None \<Rightarrow> None | Some f \<Rightarrow> g f)"

text \<open>A step that is not enabled gives \<open>None\<close>.\<close>

fun pipe_step :: "pipe_config \<Rightarrow> (audit_event \<Rightarrow> string option) \<Rightarrow> (jsobj \<Rightarrow> jsobj result) option \<Rightarrow> pipe_op \<Rightarrow> pipe_state \<Rightarrow> pipe_state option" where
  "pipe_step cfg route red Start st = Some (start st)"
| "pipe_step cfg route red (Enqueue e) st = Some (snd (enqueue cfg route red e st))"
| "pipe_step cfg route red Resume st =
     (case pWoken st of [] \<Rightarrow> None | e # es \<Rightarrow> Some (snd (enqueue_loop cfg route e (st\<lparr>pWoken := es\<rparr>))))"
| "pipe_step cfg route red Tick st = (if pTimer st \<or> pShutdown st = Draining then Some (begin_flush cfg route st) else None)"
| "pipe_step cfg route red (WriteOk now) st =
     with_flush (\<lambda>f. case flPhase f of Writing n \<Rightarrow> Some (write_ok now f st) | _ \<Rightarrow> None) st"
| "pipe_step cfg route red (WriteFailed handler_ok) st =
     with_flush (\<lambda>f. case flPhase f of Writing n \<Rightarrow> Some (write_failed handler_ok n f st) | _ \<Rightarrow> None) st"
| "pipe_step cfg route red Notified st =
     with_flush (\<lambda>f. case flPhase f of Notifying \<Rightarrow> Some (notified f st) | _ \<Rightarrow> None) st"
| "pipe_step cfg route red Complete st =
     with_flush (\<lambda>f. case flPhase f of
Settled ok \<Rightarrow> Some (settle_flush cfg route ok st) | _ \<Rightarrow> None) st"
| "pipe_step cfg route red (Couple w ids) st = Some (requestCoupledFlush cfg route w ids st)"
| "pipe_step cfg route red (CoupledTimeout w ids) st = Some (coupled_timeout w ids st)"
| "pipe_step cfg route red ShutdownBegin st = Some (shutdown_begin st)"
| "pipe_step cfg route red LeaveLoop st = (if pShutdown st = Draining then Some (shutdown_leave_loop st) else None)"
| "pipe_step cfg route red (Drain handler_ok) st =
     (if pShutdown st = ReadyToDrain then Some (shutdown_drain cfg handler_ok st) else None)"

fun pipe_run :: "pipe_config \<Rightarrow> (audit_event \<Rightarrow> string option) \<Rightarrow> (jsobj \<Rightarrow> jsobj result) option \<Rightarrow> pipe_op list \<Rightarrow> pipe_state \<Rightarrow> pipe_state option" where
  "pipe_run cfg route red [] st = Some st"
| "pipe_run cfg route red (p # ps) st =
     (case pipe_step cfg route red p st of None \<Rightarrow> None | Some st' \<Rightarrow> pipe_run cfg route red ps st')"


section \<open>What becomes of the accepted events\<close>

fun accepted_events :: "pipe_out list \<Rightarrow> audit_event list" where
  "accepted_events [] = []"
| "accepted_events (Accepted e # out) = e # accepted_events out"
| "accepted_events (_ # out) = accepted_events out"

fun settled_events :: "pipe_out list \<Rightarrow> audit_event list" where
  "settled_events [] = []"
| "settled_events (StoreWrote n evs # out) = evs @ settled_events out"
| "settled_events (DeadLettered evs # out) = evs @ settled_events out"
| "settled_events (_ # out) = settled_events out"

text \<open>The events a full buffer has given up for a newer one, each announced as dropped.\<close>

fun evicted_events :: "pipe_out list \<Rightarrow> audit_event list" where
  "evicted_events [] = []"
| "evicted_events (AnnouncedDrop DropOldest (Some e) # out) = e # evicted_events out"
| "evicted_events (_ # out) = evicted_events out"

lemma evicted_append [simp]: "evicted_events (xs @ ys) = evicted_events xs @ evicted_events ys"
  by (induction xs rule: evicted_events.induct) simp_all

lemma accepted_append [simp]: "accepted_events (xs @ ys) = accepted_events xs @ accepted_events ys"
  by (induction xs rule: accepted_events.induct) simp_all

lemma settled_append [simp]: "settled_events (xs @ ys) = settled_events xs @ settled_events ys"
  by (induction xs rule: settled_events.induct) simp_all

abbreviation buffered :: "pipe_state \<Rightarrow> audit_event list" where "buffered st \<equiv> ring_items (pRing st)"
abbreviation accepted :: "pipe_state \<Rightarrow> audit_event multiset" where "accepted st \<equiv> mset (accepted_events (pOut st))"
abbreviation settled :: "pipe_state \<Rightarrow> audit_event multiset" where "settled st \<equiv> mset (settled_events (pOut st))"
abbreviation evicted :: "pipe_state \<Rightarrow> audit_event multiset" where "evicted st \<equiv> mset (evicted_events (pOut st))"

text \<open>The groups of the active flush not yet settled.\<close>

definition pending :: "flush \<Rightarrow> audit_event list" where
  "pending f = concat (map snd (case flPhase f of Notifying \<Rightarrow> tl (flGroups f) | _ \<Rightarrow> flGroups f))"

definition balanced :: "pipe_state \<Rightarrow> bool" where
  "balanced st \<longleftrightarrow> accepted st = settled st + evicted st + mset (buffered st)"

definition flush_ok :: "flush \<Rightarrow> pipe_state \<Rightarrow> bool" where
  "flush_ok f st \<longleftrightarrow>
     (case flPhase f of
        Settled ok \<Rightarrow> balanced st
      | _ \<Rightarrow> flGroups f \<noteq> [] \<and> take (length (flBatch f)) (buffered st) = flBatch f
          \<and> accepted st + mset (flBatch f) = settled st + evicted st + mset (buffered st) + mset (pending f))"

definition pipe_inv :: "pipe_config \<Rightarrow> pipe_state \<Rightarrow> bool" where
  "pipe_inv cfg st \<longleftrightarrow>
     ring_ok (pRing st) \<and> capacity (pRing st) = pipeCapacity cfg
     \<and> (case pFlush st of None \<Rightarrow> balanced st | Some f \<Rightarrow> flush_ok f st)"

lemma wake_simps [simp]:
  "pRing (wakeCapacityWaiters st) = pRing st" "pOut (wakeCapacityWaiters st) = pOut st"
  "pFlush (wakeCapacityWaiters st) = pFlush st" "pStats (wakeCapacityWaiters st) = pStats st"
  "pShutdown (wakeCapacityWaiters st) = pShutdown st" "pAccepting (wakeCapacityWaiters st) = pAccepting st"
  by (simp_all add: wakeCapacityWaiters_def)

lemma emit_simps [simp]:
  "pRing (emit x st) = pRing st" "pOut (emit x st) = pOut st @ [x]" "pFlush (emit x st) = pFlush st"
  "pStats (emit x st) = pStats st" "pShutdown (emit x st) = pShutdown st" "pAccepting (emit x st) = pAccepting st"
  by (simp_all add: emit_def)

lemma removeBuffered_simps [simp]:
  "pRing (removeBuffered n st) = ring_remove n (pRing st)" "pOut (removeBuffered n st) = pOut st"
  "pFlush (removeBuffered n st) = pFlush st" "pStats (removeBuffered n st) = pStats st"
  by (simp_all add: removeBuffered_def)

lemma release_all_simps [simp]:
  "pRing (release_all ws st) = pRing st" "pFlush (release_all ws st) = pFlush st"
  "accepted_events (pOut (release_all ws st)) = accepted_events (pOut st)"
  "settled_events (pOut (release_all ws st)) = settled_events (pOut st)"
  "evicted_events (pOut (release_all ws st)) = evicted_events (pOut st)"
  by (induction ws st rule: release_all.induct) (simp_all add: drop_ids_def)

lemma resolveCoupled_simps [simp]:
  "pRing (resolveCoupled ids st) = pRing st" "pFlush (resolveCoupled ids st) = pFlush st"
  "accepted_events (pOut (resolveCoupled ids st)) = accepted_events (pOut st)"
  "settled_events (pOut (resolveCoupled ids st)) = settled_events (pOut st)"
  "evicted_events (pOut (resolveCoupled ids st)) = evicted_events (pOut st)"
  by (simp_all add: resolveCoupled_def drop_ids_def)

lemma pipe_inv_cong:
  "pRing st' = pRing st \<Longrightarrow> pFlush st' = pFlush st \<Longrightarrow> accepted st' = accepted st \<Longrightarrow> settled st' = settled st \<Longrightarrow>
   evicted st' = evicted st \<Longrightarrow> pipe_inv cfg st' = pipe_inv cfg st"
  by (simp add: pipe_inv_def flush_ok_def balanced_def split: option.split flush_phase.split)

lemma next_group_inv:
  assumes "ring_ok (pRing st)" "capacity (pRing st) = pipeCapacity cfg"
    and "take (length (flBatch f)) (buffered st) = flBatch f"
    and "accepted st + mset (flBatch f) = settled st + evicted st + mset (buffered st) + mset (concat (map snd (flGroups f)))"
  shows "pipe_inv cfg (next_group f st)"
proof (cases "flGroups f = []")
  case True
  have len: "length (flBatch f) \<le> length (buffered st)"
    using arg_cong [OF assms(3), of length] by simp
  have "mset (buffered st) = mset (flBatch f) + mset (drop (length (flBatch f)) (buffered st))"
    using assms(3) by (metis append_take_drop_id mset_append)
  then show ?thesis
    using True assms ring_remove_ok [OF assms(1), of "length (flBatch f)"] len
    by (simp add: next_group_def pipe_inv_def flush_ok_def balanced_def)
next
  case False
  then show ?thesis using assms by (simp add: next_group_def pipe_inv_def flush_ok_def pending_def)
qed

lemma groupByStore_mset: "groupByStore route batch = Some gs \<Longrightarrow> mset (concat (map snd gs)) = mset batch"
  by (auto simp: groupByStore_def group_by_mset split: if_splits)

lemma take_length_take: "take (length (take n xs)) xs = take n xs"
  by (cases "n \<le> length xs") simp_all

lemma begin_flush_inv:
  assumes "pipe_inv cfg st"
  shows "pipe_inv cfg (begin_flush cfg route st)"
proof (cases "pFlush st \<noteq> None \<or> ringSize (pRing st) = 0")
  case False
  let ?b = "ring_peek (maxBatchSize cfg) (pRing st)"
  show ?thesis
  proof (cases "groupByStore route ?b")
    case None
    then show ?thesis using False assms by (simp add: begin_flush_def pipe_inv_def flush_ok_def balanced_def)
  next
    case (Some gs)
    have "pipe_inv cfg (next_group \<lparr>flBatch = ?b, flGroups = gs, flPhase = Writing 0\<rparr> st)"
      using assms False groupByStore_mset [OF Some] take_length_take [of "maxBatchSize cfg" "buffered st"]
      by (intro next_group_inv) (simp_all add: pipe_inv_def balanced_def ring_peek_take del: length_take)
    then show ?thesis using False Some by (simp add: begin_flush_def)
  qed
qed (use assms in \<open>simp add: begin_flush_def\<close>)

lemma completeFlush_inv:
  assumes "pipe_inv cfg st" "pFlush st = Some f" "flPhase f = Settled ok"
  shows "pipe_inv cfg (completeFlush cfg route st)"
proof -
  have "pipe_inv cfg (wakeCapacityWaiters (st\<lparr>pFlush := None\<rparr>))"
    using assms by (simp add: pipe_inv_def flush_ok_def balanced_def)
  then show ?thesis using begin_flush_inv by (simp add: completeFlush_def Let_def)
qed

lemma write_ok_inv:
  assumes "pipe_inv cfg st" "pFlush st = Some f" "flPhase f = Writing n"
  shows "pipe_inv cfg (write_ok now f st)"
proof -
  obtain name evs gs where g: "flGroups f = (name, evs) # gs"
    using assms by (cases "flGroups f") (auto simp: pipe_inv_def flush_ok_def)
  then show ?thesis using assms
    by (simp add: pipe_inv_def flush_ok_def write_ok_def pending_def Let_def ac_simps)
qed

lemma notified_inv:
  assumes "pipe_inv cfg st" "pFlush st = Some f" "flPhase f = Notifying"
  shows "pipe_inv cfg (notified f st)"
  using assms unfolding notified_def
  by (intro next_group_inv) (simp_all add: pipe_inv_def flush_ok_def pending_def)

lemma write_failed_inv:
  assumes "pipe_inv cfg st" "pFlush st = Some f" "flPhase f = Writing n"
  shows "pipe_inv cfg (write_failed True n f st)"
proof -
  obtain name evs gs where g: "flGroups f = (name, evs) # gs"
    using assms by (cases "flGroups f") (auto simp: pipe_inv_def flush_ok_def)
  show ?thesis
  proof (cases "n + 1 \<ge> maxAttempts")
    case True
    then show ?thesis using assms g unfolding write_failed_def
      by (simp add: Let_def) (intro next_group_inv; simp add: pipe_inv_def flush_ok_def pending_def ac_simps)
  next
    case False
    then show ?thesis using assms g
      by (simp add: write_failed_def Let_def pipe_inv_def flush_ok_def pending_def)
  qed
qed


lemma take_append_prefix:
  assumes "take (length ys) xs = ys"
  shows "take (length ys) (xs @ zs) = ys"
proof -
  have "length ys \<le> length xs" using arg_cong [OF assms, of length] by simp
  then show ?thesis using assms by simp
qed

lemma accept_event_inv:
  assumes "pipe_inv cfg st" "ringSize (pRing st) < int (pipeCapacity cfg)"
  shows "pipe_inv cfg (snd (accept_event cfg route e st))"
proof -
  let ?s = "pStats st"
  let ?st = "emit (Accepted e) (st\<lparr>pRing := ring_push e (pRing st), pStats := ?s\<lparr>queued := queued ?s + 1\<rparr>\<rparr>)"
  have sz: "nat (ringSize (pRing st)) < capacity (pRing st)"
    using assms by (auto simp: pipe_inv_def ring_ok_def nat_less_iff)
  have push: "ring_ok (ring_push e (pRing st))" "ring_items (ring_push e (pRing st)) = buffered st @ [e]"
    "capacity (ring_push e (pRing st)) = capacity (pRing st)"
    using ring_push_ok [of "pRing st" e] sz assms(1) by (auto simp: pipe_inv_def)
  have "flush_ok f ?st" if "flush_ok f st" for f
    using that push by (auto simp: flush_ok_def balanced_def take_append_prefix simp del: take_append split: flush_phase.splits)
  then have "pipe_inv cfg ?st"
    using push assms(1) by (auto simp: pipe_inv_def balanced_def split: option.splits)
  then show ?thesis
    using assms(1) begin_flush_inv by (simp add: accept_event_def Let_def)
qed

lemma pipe_inv_frame:
  "pipe_inv cfg (st\<lparr>pBlocked := b\<rparr>) = pipe_inv cfg st" "pipe_inv cfg (st\<lparr>pWoken := w\<rparr>) = pipe_inv cfg st"
  "pipe_inv cfg (st\<lparr>pShutdown := p\<rparr>) = pipe_inv cfg st" "pipe_inv cfg (st\<lparr>pStats := q\<rparr>) = pipe_inv cfg st"
  "pipe_inv cfg (st\<lparr>pCoupled := c\<rparr>) = pipe_inv cfg st" "pipe_inv cfg (st\<lparr>pAccepting := a, pTimer := t, pShutdown := p\<rparr>) = pipe_inv cfg st"
  "pipe_inv cfg (st\<lparr>pStarted := a, pTimer := t\<rparr>) = pipe_inv cfg st"
  "pipe_inv cfg (wakeCapacityWaiters st) = pipe_inv cfg st"
  "pipe_inv cfg (st\<lparr>pAccepting := a, pTimer := t\<rparr>) = pipe_inv cfg st"
  by (rule pipe_inv_cong; simp)+

text \<open>No batch of the active flush is still in the buffer.\<close>

definition idle :: "pipe_state \<Rightarrow> bool" where
  "idle st \<longleftrightarrow> (case pFlush st of None \<Rightarrow> True | Some f \<Rightarrow> (case flPhase f of Settled ok \<Rightarrow> True | _ \<Rightarrow> False))"

lemma dropOldest_inv:
  assumes "pipe_inv cfg st" "idle st" "int (pipeCapacity cfg) \<le> ringSize (pRing st)" "0 < pipeCapacity cfg"
    and "dropOldest st = (d, st')"
  shows "pipe_inv cfg (emit (AnnouncedDrop DropOldest d) st')" "ringSize (pRing st') < int (pipeCapacity cfg)"
proof -
  have ring: "ring_ok (pRing st)" "capacity (pRing st) = pipeCapacity cfg" using assms(1) by (simp_all add: pipe_inv_def)
  then have size: "ringSize (pRing st) = int (pipeCapacity cfg)" "ringSize (pRing st) = int (length (buffered st))"
    using assms(3) ringSize_items by (auto simp: ring_ok_def)
  then obtain x xs where x: "buffered st = x # xs" using assms(4) by (cases "buffered st") auto
  note pop = ring_pop_ok [OF ring(1) x]
  have st': "d = Some x" "pRing st' = snd (ring_pop (pRing st))" "pFlush st' = pFlush st" "pOut st' = pOut st"
    using assms(5) pop by (auto simp: dropOldest_def Let_def split: prod.splits)
  have "balanced st" using assms(1,2) by (auto simp: pipe_inv_def idle_def flush_ok_def split: option.splits flush_phase.splits)
  then have "balanced (emit (AnnouncedDrop DropOldest d) st')" using pop x by (simp add: balanced_def st')
  then show "pipe_inv cfg (emit (AnnouncedDrop DropOldest d) st')"
    using pop ring(2) assms(2) by (auto simp: pipe_inv_def st' flush_ok_def idle_def split: option.splits flush_phase.splits)
  show "ringSize (pRing st') < int (pipeCapacity cfg)"
    using pop x size ringSize_items [of "snd (ring_pop (pRing st))"] by (simp add: st')
qed

definition may_evict :: "pipe_config \<Rightarrow> pipe_state \<Rightarrow> bool" where
  "may_evict cfg st \<longleftrightarrow> overflow cfg = DropOldest \<longrightarrow> ringSize (pRing st) < int (pipeCapacity cfg) \<or> idle st"

lemma enqueue_loop_inv:
  assumes "pipe_inv cfg st" "may_evict cfg st" "0 < pipeCapacity cfg"
  shows "pipe_inv cfg (snd (enqueue_loop cfg route e st))"
proof (cases "ringSize (pRing st) < int (pipeCapacity cfg)")
  case True
  then show ?thesis using accept_event_inv [OF assms(1)] by (simp add: enqueue_loop_def)
next
  case False
  show ?thesis
  proof (cases "overflow cfg")
    case DropOldest
    obtain d st' where d: "dropOldest st = (d, st')" by (rule prod.exhaust)
    have "idle st" using assms(2) False DropOldest by (simp add: may_evict_def)
    note dropped = dropOldest_inv [OF assms(1) this _ assms(3) d]
    show ?thesis using accept_event_inv [OF dropped(1)] dropped(2) False DropOldest by (simp add: enqueue_loop_def d)
  next
    case DropNew
    have "pipe_inv cfg (emit (AnnouncedDrop DropNew (Some e)) (st\<lparr>pStats := q\<rparr>))" for q
      using assms(1) by (subst pipe_inv_cong [of _ st]) simp_all
    then show ?thesis using False DropNew by (simp add: enqueue_loop_def Let_def)
  next
    case Block
    then show ?thesis using False assms(1) begin_flush_inv by (simp add: enqueue_loop_def Let_def pipe_inv_frame)
  qed
qed

lemma shutdown_drain_inv:
  assumes "pipe_inv cfg st" "pFlush st = None"
  shows "pipe_inv cfg (shutdown_drain cfg True st)"
proof -
  let ?b = "ring_peek (maxBatchSize cfg) (pRing st)"
  have b: "?b = take (maxBatchSize cfg) (buffered st)" "length ?b \<le> nat (ringSize (pRing st))"
    by (simp_all add: ring_peek_take)
  have r: "ring_ok (ring_remove (length ?b) (pRing st))"
    "ring_items (ring_remove (length ?b) (pRing st)) = drop (length ?b) (buffered st)"
    "capacity (ring_remove (length ?b) (pRing st)) = capacity (pRing st)"
    using ring_remove_ok [of "pRing st" "length ?b"] b(2) assms(1) by (auto simp: pipe_inv_def)
  have "mset (buffered st) = mset ?b + mset (drop (length ?b) (buffered st))"
    using take_length_take [of "maxBatchSize cfg" "buffered st"] b(1) by (metis append_take_drop_id mset_append)
  then show ?thesis using assms r
    by (simp add: shutdown_drain_def Let_def pipe_inv_def balanced_def)
qed

text \<open>
  The steps the conservation law covers: the dead-letter handler does not throw, the final drain
  happens while no flush is active, and under \<open>dropOldest\<close> the buffer overflows only while no batch
  is being written.
\<close>

fun ordinary :: "pipe_config \<Rightarrow> pipe_op \<Rightarrow> pipe_state \<Rightarrow> bool" where
  "ordinary cfg (WriteFailed handler_ok) st \<longleftrightarrow> handler_ok"
| "ordinary cfg (Drain handler_ok) st \<longleftrightarrow> handler_ok \<and> pFlush st = None"
| "ordinary cfg (Enqueue e) st \<longleftrightarrow> may_evict cfg st"
| "ordinary cfg Resume st \<longleftrightarrow> may_evict cfg st"
| "ordinary cfg p st \<longleftrightarrow> True"

inductive reachable :: "pipe_config \<Rightarrow> (audit_event \<Rightarrow> string option) \<Rightarrow> (jsobj \<Rightarrow> jsobj result) option \<Rightarrow> pipe_state \<Rightarrow> bool"
  for cfg route red where
  init: "reachable cfg route red (pipe_new cfg)"
| step: "reachable cfg route red st \<Longrightarrow> ordinary cfg p st \<Longrightarrow> pipe_step cfg route red p st = Some st' \<Longrightarrow>
     reachable cfg route red st'"

lemma with_flush_Some: "with_flush g st = Some st' \<longleftrightarrow> (\<exists>f. pFlush st = Some f \<and> g f = Some st')"
  by (simp add: with_flush_def split: option.split)

lemma phase_Some:
  "(case ph of Writing n \<Rightarrow> Some (a n) | _ \<Rightarrow> None) = Some x \<longleftrightarrow> (\<exists>n. ph = Writing n \<and> x = a n)"
  "(case ph of Notifying \<Rightarrow> Some b | _ \<Rightarrow> None) = Some x \<longleftrightarrow> ph = Notifying \<and> x = b"
  "(case ph of Settled ok \<Rightarrow> Some (c ok) | _ \<Rightarrow> None) = Some x \<longleftrightarrow> (\<exists>ok. ph = Settled ok \<and> x = c ok)"
  by (cases ph; auto)+

lemma pipe_step_inv:
  assumes "0 < pipeCapacity cfg" "pipe_inv cfg st" "ordinary cfg p st"
    "pipe_step cfg route red p st = Some st'"
  shows "pipe_inv cfg st'"
proof (cases p)
  case (Enqueue e)
  then show ?thesis using assms enqueue_loop_inv [OF assms(2) _ assms(1)]
    by (auto simp: enqueue_def split: sum.splits)
next
  case Resume
  have "pipe_inv cfg (st\<lparr>pWoken := es\<rparr>)" "may_evict cfg (st\<lparr>pWoken := es\<rparr>)" for es
    using assms(2,3) Resume by (simp_all add: pipe_inv_frame may_evict_def idle_def)
  then show ?thesis using assms(1,4) Resume enqueue_loop_inv by (auto split: list.splits)
next
  case (WriteOk now)
  then show ?thesis using assms write_ok_inv by (auto simp: with_flush_Some phase_Some)
next
  case (WriteFailed h)
  then show ?thesis using assms write_failed_inv by (auto simp: with_flush_Some phase_Some)
next
  case Notified
  then show ?thesis using assms notified_inv by (auto simp: with_flush_Some phase_Some)
next
  case Complete
  then show ?thesis using assms completeFlush_inv [OF assms(2)]
    by (auto simp: with_flush_Some phase_Some settle_flush_def Let_def pipe_inv_frame)
next
  case (Couple w ids)
  then show ?thesis using assms begin_flush_inv
    by (auto simp: requestCoupledFlush_def pipe_inv_frame)
next
  case (CoupledTimeout w ids)
  have "pipe_inv cfg (emit (TimedOut w) (drop_ids ids st))"
    using assms(2) by (subst pipe_inv_cong [of _ st]) (simp_all add: drop_ids_def)
  then show ?thesis using CoupledTimeout assms by (auto simp: coupled_timeout_def)
next
  case (Drain h)
  then show ?thesis using assms shutdown_drain_inv [OF assms(2)] by (auto split: if_splits)
qed (use assms begin_flush_inv in
  \<open>auto simp: start_def shutdown_begin_def shutdown_leave_loop_def pipe_inv_frame split: if_splits\<close>)

lemma pipe_new_inv: "0 < pipeCapacity cfg \<Longrightarrow> pipe_inv cfg (pipe_new cfg)"
  using ring_new_ok [of "pipeCapacity cfg"] by (simp add: pipe_new_def pipe_inv_def balanced_def ring_new_def)

lemma reachable_inv:
  assumes "reachable cfg route red st" "0 < pipeCapacity cfg"
  shows "pipe_inv cfg st"
  using assms(1)
proof induction
  case init
  then show ?case using pipe_new_inv [OF assms(2)] .
next
  case (step st p st')
  then show ?case using pipe_step_inv [OF assms(2)] by blast
qed



text \<open>Runs, for concrete states.\<close>

fun ordinary_run :: "pipe_config \<Rightarrow> (audit_event \<Rightarrow> string option) \<Rightarrow> (jsobj \<Rightarrow> jsobj result) option \<Rightarrow> pipe_op list \<Rightarrow> pipe_state \<Rightarrow> pipe_state option" where
  "ordinary_run cfg route red [] st = Some st"
| "ordinary_run cfg route red (p # ps) st =
     (if ordinary cfg p st then
        (case pipe_step cfg route red p st of None \<Rightarrow> None | Some st' \<Rightarrow> ordinary_run cfg route red ps st')
      else None)"

lemma ordinary_run_reachable:
  "reachable cfg route red st \<Longrightarrow> ordinary_run cfg route red ps st = Some st' \<Longrightarrow> reachable cfg route red st'"
  by (induction ps arbitrary: st) (auto split: if_splits option.splits intro: reachable.step)

definition sample_pipe :: "nat \<Rightarrow> nat \<Rightarrow> overflow_strategy \<Rightarrow> pipe_config" where
  "sample_pipe cap batch strategy =
     \<lparr>maxBatchSize = batch, flushIntervalMs = 1000, pipeCapacity = cap, overflow = strategy, retryBaseDelayMs = 100\<rparr>"

definition to_default :: "audit_event \<Rightarrow> string option" where
  "to_default e = Some ''default''"

definition sample_c :: audit_event where "sample_c = sample_event ''c'' None"

definition sample_d :: audit_event where "sample_d = sample_event ''d'' None"

text \<open>One event written, then the buffer overflows.\<close>

definition sample_ops :: "pipe_op list" where
  "sample_ops = [Enqueue sample_a, Tick, WriteOk 7, Notified, Complete, Enqueue sample_b, Enqueue sample_c, Enqueue sample_d]"

lemma sample_pipe_run:
  "case ordinary_run (sample_pipe 2 9 DropOldest) to_default None (Start # sample_ops) (pipe_new (sample_pipe 2 9 DropOldest)) of
     None \<Rightarrow> False
   | Some st \<Rightarrow> pFlush st = None \<and> settled_events (pOut st) = [sample_a] \<and> evicted_events (pOut st) = [sample_b]
       \<and> buffered st = [sample_c, sample_d]"
  by code_simp


text \<open>
  With strategy \<open>dropOldest\<close> the pipeline loses events silently: when the buffer overflows
  while a flush is writing, the slot freed is one of the flush's own batch, and after the write
  the whole batch size is removed again, so an event that was accepted, never written, never
  announced as dropped and never dead-lettered disappears.
\<close>

theorem dropOldest_loses_event:
  "case pipe_run (sample_pipe 2 2 DropOldest) to_default None
       [Enqueue sample_a, Enqueue sample_b, Enqueue sample_c, WriteOk 7, Notified, Complete]
       (pipe_new (sample_pipe 2 2 DropOldest)) of
     None \<Rightarrow> False
   | Some st \<Rightarrow>
       pOut st = [Accepted sample_a, Accepted sample_b, AnnouncedDrop DropOldest (Some sample_a), Accepted sample_c,
         StoreWrote ''default'' [sample_a, sample_b]]
       \<and> buffered st = []"
  by code_simp

text \<open>
  Shutdown can deliver an event twice: when the deadline passes while a flush is active and
  enough events remain, the end of that flush starts the next one, and the drain that follows
  hands the same batch to the dead-letter handler while the store is still writing it.
\<close>

theorem shutdown_delivers_twice:
  "case pipe_run (sample_pipe 4 1 Block) to_default None
       [Enqueue sample_a, Enqueue sample_b, ShutdownBegin, LeaveLoop, WriteOk 7, Notified, Complete, Drain True, WriteOk 8]
       (pipe_new (sample_pipe 4 1 Block)) of
     None \<Rightarrow> False
   | Some st \<Rightarrow>
       pOut st = [Accepted sample_a, Accepted sample_b, StoreWrote ''default'' [sample_a], DeadLettered [sample_b],
         StoreWrote ''default'' [sample_b]]"
  by code_simp

section \<open>A batch that cannot be routed\<close>

text \<open>The event \<open>e\<close> at the head of the buffer, no flush writing.\<close>

definition poisoned :: "audit_event \<Rightarrow> pipe_config \<Rightarrow> pipe_state \<Rightarrow> bool" where
  "poisoned e cfg st \<longleftrightarrow>
     ring_ok (pRing st) \<and> capacity (pRing st) = pipeCapacity cfg \<and> buffered st \<noteq> [] \<and> hd (buffered st) = e
     \<and> (case pFlush st of None \<Rightarrow> True | Some f \<Rightarrow> flPhase f = Settled False)"

definition unroutable :: "(audit_event \<Rightarrow> string option) \<Rightarrow> audit_event \<Rightarrow> bool" where
  "unroutable route e \<longleftrightarrow> route e = None"

definition still_poisoned :: "audit_event \<Rightarrow> pipe_config \<Rightarrow> pipe_state \<Rightarrow> pipe_state \<Rightarrow> bool" where
  "still_poisoned e cfg st st' \<longleftrightarrow> poisoned e cfg st' \<and> settled_events (pOut st') = settled_events (pOut st)"

lemma still_poisoned_refl [simp]: "still_poisoned e cfg st st \<longleftrightarrow> poisoned e cfg st"
  by (simp add: still_poisoned_def)

lemma still_poisoned_trans: "still_poisoned e cfg st st' \<Longrightarrow> still_poisoned e cfg st' st'' \<Longrightarrow> still_poisoned e cfg st st''"
  by (simp add: still_poisoned_def)

lemma still_poisoned_same:
  "pRing st' = pRing st \<Longrightarrow> pFlush st' = pFlush st \<Longrightarrow> settled_events (pOut st') = settled_events (pOut st) \<Longrightarrow>
   poisoned e cfg st \<Longrightarrow> still_poisoned e cfg st st'"
  by (simp add: still_poisoned_def poisoned_def)

lemma begin_flush_poisoned:
  assumes "unroutable route e" "0 < maxBatchSize cfg" "poisoned e cfg st"
  shows "still_poisoned e cfg st (begin_flush cfg route st)"
proof (cases "pFlush st \<noteq> None \<or> ringSize (pRing st) = 0")
  case False
  have "e \<in> set (ring_peek (maxBatchSize cfg) (pRing st))"
    using assms(2,3) by (cases "buffered st"; cases "maxBatchSize cfg") (auto simp: ring_peek_take poisoned_def)
  then have "groupByStore route (ring_peek (maxBatchSize cfg) (pRing st)) = None"
    using assms(1) by (auto simp: groupByStore_def list_all_iff unroutable_def)
  then show ?thesis using False assms(3) by (simp add: begin_flush_def still_poisoned_def poisoned_def)
qed (use assms(3) in \<open>simp add: begin_flush_def\<close>)

lemma accept_event_poisoned:
  assumes "unroutable route e" "0 < maxBatchSize cfg" "poisoned e cfg st" "ringSize (pRing st) < int (pipeCapacity cfg)"
  shows "still_poisoned e cfg st (snd (accept_event cfg route x st))"
proof -
  let ?s = "pStats st"
  let ?st = "emit (Accepted x) (st\<lparr>pRing := ring_push x (pRing st), pStats := ?s\<lparr>queued := queued ?s + 1\<rparr>\<rparr>)"
  have sz: "nat (ringSize (pRing st)) < capacity (pRing st)"
    using assms(3,4) by (auto simp: poisoned_def ring_ok_def nat_less_iff)
  then have "ring_ok (ring_push x (pRing st))" "ring_items (ring_push x (pRing st)) = buffered st @ [x]"
    "capacity (ring_push x (pRing st)) = capacity (pRing st)"
    using ring_push_ok [of "pRing st" x] assms(3) by (auto simp: poisoned_def)
  then have "still_poisoned e cfg st ?st"
    using assms(3) by (simp add: still_poisoned_def poisoned_def)
  then show ?thesis
    using assms(3) begin_flush_poisoned [OF assms(1,2), of ?st] still_poisoned_trans
    by (auto simp: accept_event_def Let_def still_poisoned_def)
qed

lemma enqueue_loop_poisoned:
  assumes "unroutable route e" "0 < maxBatchSize cfg" "overflow cfg \<noteq> DropOldest" "poisoned e cfg st"
  shows "still_poisoned e cfg st (snd (enqueue_loop cfg route x st))"
proof (cases "ringSize (pRing st) < int (pipeCapacity cfg)")
  case True
  then show ?thesis using accept_event_poisoned [OF assms(1,2,4)] by (simp add: enqueue_loop_def)
next
  case False
  have "still_poisoned e cfg st (emit (AnnouncedDrop DropNew (Some x)) (st\<lparr>pStats := q\<rparr>))" for q
    using assms(4) by (intro still_poisoned_same) simp_all
  moreover have "still_poisoned e cfg st ((begin_flush cfg route st)\<lparr>pBlocked := b\<rparr>)" for b
    using begin_flush_poisoned [OF assms(1,2,4)] by (simp add: still_poisoned_def poisoned_def)
  ultimately show ?thesis using False assms(3,4)
    by (cases "overflow cfg") (simp_all add: enqueue_loop_def Let_def)
qed

lemma settle_flush_simps [simp]:
  "pRing (settle_flush cfg route ok st) = pRing (completeFlush cfg route st)"
  "pFlush (settle_flush cfg route ok st) = pFlush (completeFlush cfg route st)"
  "pOut (settle_flush cfg route ok st) = pOut (completeFlush cfg route st)"
  by (simp_all add: settle_flush_def Let_def)

lemma pipe_step_poisoned:
  assumes "unroutable route e" "0 < maxBatchSize cfg" "overflow cfg \<noteq> DropOldest" "poisoned e cfg st"
    and "\<And>h. p \<noteq> Drain h" "pipe_step cfg route red p st = Some st'"
  shows "still_poisoned e cfg st st'"
proof (cases p)
  case (Enqueue x)
  then show ?thesis using assms enqueue_loop_poisoned [OF assms(1-4)]
    by (auto simp: enqueue_def split: sum.splits)
next
  case Resume
  then obtain x xs where x: "pWoken st = x # xs" "st' = snd (enqueue_loop cfg route x (st\<lparr>pWoken := xs\<rparr>))"
    using assms(6) by (auto split: list.splits)
  have "still_poisoned e cfg st (st\<lparr>pWoken := xs\<rparr>)" using assms(4) by (intro still_poisoned_same) simp_all
  then show ?thesis
    using x enqueue_loop_poisoned [OF assms(1-3)] still_poisoned_trans by (metis still_poisoned_def)
next
  case Complete
  let ?st = "wakeCapacityWaiters (st\<lparr>pFlush := None\<rparr>)"
  have "still_poisoned e cfg st ?st" using assms(4) by (simp add: still_poisoned_def poisoned_def)
  then have "still_poisoned e cfg st (completeFlush cfg route st)"
    using begin_flush_poisoned [OF assms(1,2), of ?st] still_poisoned_trans
    by (auto simp: completeFlush_def Let_def still_poisoned_def)
  moreover have "\<exists>ok. st' = settle_flush cfg route ok st"
    using Complete assms(6) by (auto simp: with_flush_Some phase_Some)
  ultimately show ?thesis
    by (auto simp: still_poisoned_def poisoned_def)
next
  case (Couple w ids)
  let ?st = "st\<lparr>pCoupled := foldl (\<lambda>m i. AList.update i (w, ids) m) (pCoupled st) ids\<rparr>"
  have "still_poisoned e cfg st ?st" using assms(4) by (intro still_poisoned_same) simp_all
  then show ?thesis using Couple assms(6) begin_flush_poisoned [OF assms(1,2), of ?st] still_poisoned_trans
    by (auto simp: requestCoupledFlush_def still_poisoned_def)
next
  case (CoupledTimeout w ids)
  have "still_poisoned e cfg st (emit (TimedOut w) (drop_ids ids st))"
    using assms(4) by (intro still_poisoned_same) (simp_all add: drop_ids_def)
  then show ?thesis using CoupledTimeout assms(4,6) by (auto simp: coupled_timeout_def)
next
  case Tick
  then show ?thesis using begin_flush_poisoned [OF assms(1,2,4)] assms(6) by (auto split: if_splits)
qed (use assms in \<open>auto simp: start_def shutdown_begin_def shutdown_leave_loop_def with_flush_Some phase_Some
    still_poisoned_def poisoned_def wakeCapacityWaiters_def split: if_splits\<close>)

text \<open>
  One unroutable event at the head of the buffer stops all delivery: with strategy \<open>block\<close>
  or \<open>dropNew\<close> no sequence of steps without the final drain ever writes or dead-letters an event
  again.
\<close>

theorem unroutable_event_blocks:
  assumes "poisoned e cfg st" "unroutable route e" "0 < maxBatchSize cfg" "overflow cfg \<noteq> DropOldest"
    and "pipe_run cfg route red ps st = Some st'" "list_all (\<lambda>p. \<forall>h. p \<noteq> Drain h) ps"
  shows "settled_events (pOut st') = settled_events (pOut st) \<and> poisoned e cfg st'"
  using assms(1,5,6)
proof (induction ps arbitrary: st)
  case (Cons p ps)
  then obtain st1 where st1: "pipe_step cfg route red p st = Some st1" "pipe_run cfg route red ps st1 = Some st'"
    by (auto split: option.splits)
  have "still_poisoned e cfg st st1"
    using pipe_step_poisoned [OF assms(2-4) Cons.prems(1) _ st1(1)] Cons.prems(3) by simp
  then show ?case using Cons.IH [OF _ st1(2)] Cons.prems(3) by (simp add: still_poisoned_def)
qed simp

definition only_b :: "audit_event \<Rightarrow> string option" where
  "only_b e = (if eventId e = ''b'' then Some ''default'' else None)"

lemma sample_poison_run:
  "case pipe_run (sample_pipe 4 1 Block) only_b None [Enqueue sample_a] (pipe_new (sample_pipe 4 1 Block)) of
     None \<Rightarrow> False
   | Some st \<Rightarrow> (case pipe_run (sample_pipe 4 1 Block) only_b None [Enqueue sample_b, Complete, Couple 1 [''b''], Complete] st of
       None \<Rightarrow> False
     | Some st' \<Rightarrow> buffered st = [sample_a] \<and> ringSize (pRing st) = 1 \<and> ringHead (pRing st) = 0 \<and> ringTail (pRing st) = 1
         \<and> slots (pRing st) = [Some sample_a, None, None, None]
         \<and> pOut st = [Accepted sample_a] \<and> pFlush st = Some \<lparr>flBatch = [sample_a], flGroups = [], flPhase = Settled False\<rparr>
         \<and> buffered st' = [sample_a, sample_b])"
  by code_simp

theorem unroutable_event_blocks_witness:
  "\<exists>st'. settled_events (pOut st') = [] \<and> buffered st' = [sample_a, sample_b] \<and> poisoned sample_a (sample_pipe 4 1 Block) st'"
proof -
  obtain st st' where r: "pipe_run (sample_pipe 4 1 Block) only_b None [Enqueue sample_b, Complete, Couple 1 [''b''], Complete] st = Some st'"
    "buffered st = [sample_a]" "ringSize (pRing st) = 1" "ringHead (pRing st) = 0" "ringTail (pRing st) = 1"
    "slots (pRing st) = [Some sample_a, None, None, None]" "pOut st = [Accepted sample_a]"
    "pFlush st = Some \<lparr>flBatch = [sample_a], flGroups = [], flPhase = Settled False\<rparr>" "buffered st' = [sample_a, sample_b]"
    using sample_poison_run by (auto split: option.splits)
  have "poisoned sample_a (sample_pipe 4 1 Block) st"
    using r by (simp add: poisoned_def ring_ok_def sample_pipe_def)
  moreover have "unroutable only_b sample_a" "0 < maxBatchSize (sample_pipe 4 1 Block)"
    "overflow (sample_pipe 4 1 Block) \<noteq> DropOldest" by code_simp+
  ultimately have "settled_events (pOut st') = settled_events (pOut st) \<and> poisoned sample_a (sample_pipe 4 1 Block) st'"
    using r(1) by (rule unroutable_event_blocks) simp
  then show ?thesis using r by auto
qed

end
