(* ===== verification/SubjectCrypto.thy ===== *)
theory SubjectCrypto
  imports Assembler
begin

text \<open>
  \<open>src/core/subject_crypto.ts\<close>: the two key stores and the per-subject encryption of payload
  fields. The cipher is code of the framework: \<open>enc key v\<close> is the ciphertext, \<open>dec key c\<close> the
  value or \<open>null\<close>. A key store is a record of its three operations over a state \<open>'s\<close>; the laws
  the encryption relies on form a locale, interpreted on both stores of the code.
\<close>

section \<open>Key stores\<close>

record 's key_store =
  ksGet :: "'s \<Rightarrow> string \<Rightarrow> string option result"
  ksSet :: "'s \<Rightarrow> string \<Rightarrow> string \<Rightarrow> 's result"
  ksDelete :: "'s \<Rightarrow> string \<Rightarrow> 's result"

text \<open>\<open>MemorySubjectKeyStore\<close>: a map; \<open>set\<close> keeps a key that is already there.\<close>

type_synonym memory_keys = "(string \<times> string) list"

definition memory_get :: "memory_keys \<Rightarrow> string \<Rightarrow> string option" where
  "memory_get m subj = map_of m subj"

definition memory_set :: "memory_keys \<Rightarrow> string \<Rightarrow> string \<Rightarrow> memory_keys" where
  "memory_set m subj key = (if subj \<in> fst ` set m then m else AList.update subj key m)"

definition memory_delete :: "memory_keys \<Rightarrow> string \<Rightarrow> memory_keys" where
  "memory_delete m subj = AList.delete subj m"

definition memory_key_store :: "memory_keys key_store" where
  "memory_key_store =
     \<lparr>ksGet = (\<lambda>m subj. Inr (memory_get m subj)), ksSet = (\<lambda>m subj key. Inr (memory_set m subj key)),
      ksDelete = (\<lambda>m subj. Inr (memory_delete m subj))\<rparr>"

text \<open>
  \<open>LucidSubjectKeyStore\<close>: the rows of the table (\<open>subject_id\<close> is unique) and whether a client or
  an application gives access to a database.
\<close>

record lucid_keys =
  keyRows :: "(string \<times> string) list"
  hasDatabase :: bool

definition no_app_error :: audit_error where
  "no_app_error = AuditConfigurationError ''LucidSubjectKeyStore requires an application instance''"

definition lucid_key_get :: "lucid_keys \<Rightarrow> string \<Rightarrow> string option result" where
  "lucid_key_get st subj =
     (if \<not> hasDatabase st then Inl no_app_error
      else case filter (\<lambda>r. fst r = subj) (keyRows st) of [] \<Rightarrow> Inr None | r # rs \<Rightarrow> Inr (Some (snd r)))"

definition lucid_key_set :: "lucid_keys \<Rightarrow> string \<Rightarrow> string \<Rightarrow> lucid_keys result" where
  "lucid_key_set st subj key =
     (if \<not> hasDatabase st then Inl no_app_error
      else if subj \<in> fst ` set (keyRows st) then Inr st
      else Inr (st\<lparr>keyRows := keyRows st @ [(subj, key)]\<rparr>))"

definition lucid_key_delete :: "lucid_keys \<Rightarrow> string \<Rightarrow> lucid_keys result" where
  "lucid_key_delete st subj =
     (if \<not> hasDatabase st then Inl no_app_error
      else Inr (st\<lparr>keyRows := filter (\<lambda>r. fst r \<noteq> subj) (keyRows st)\<rparr>))"

definition lucid_key_store :: "lucid_keys key_store" where
  "lucid_key_store = \<lparr>ksGet = lucid_key_get, ksSet = lucid_key_set, ksDelete = lucid_key_delete\<rparr>"

section \<open>Encryption\<close>

record crypto_config =
  cryptoFields :: "string list"
  subjectResolver :: "(audit_event \<Rightarrow> string option) option"

definition truthy :: "string option \<Rightarrow> bool" where
  "truthy s \<longleftrightarrow> s \<noteq> None \<and> s \<noteq> Some []"

definition resolveSubject :: "crypto_config \<Rightarrow> audit_event \<Rightarrow> string option result" where
  "resolveSubject cfg e =
     (case subjectResolver cfg of
        Some f \<Rightarrow> Inr (f e)
      | None \<Rightarrow>
          if \<not> truthy (actorId (actor e)) then Inr None
          else rmap Some (canonicalJson (JArr [JStr ''audit-subject'', opt_str (tenantId e),
                 JStr (actorType (actor e)), opt_str (actorId (actor e))])))"

definition encryptValue :: "(jsval \<Rightarrow> string) \<Rightarrow> jsval \<Rightarrow> jsval" where
  "encryptValue enc v =
     (if v = JNull \<or> v = JUndefined then v
      else JObj [(''_encrypted'', JBool True), (''ciphertext'', JStr (enc v))])"

definition own_props :: "jsval \<Rightarrow> jsobj" where
  "own_props v = (case v of JObj fs \<Rightarrow> fs | JInst c ti fs \<Rightarrow> fs | _ \<Rightarrow> [])"

definition has_marker :: "jsval \<Rightarrow> bool" where
  "has_marker v \<longleftrightarrow> ''_encrypted'' \<in> fst ` set (own_props v)"

definition decryptValue :: "(string \<Rightarrow> jsval) \<Rightarrow> jsval \<Rightarrow> jsval" where
  "decryptValue dec v =
     (if \<not> has_marker v then v
      else case map_of (own_props v) ''ciphertext'' of Some (JStr c) \<Rightarrow> dec c | _ \<Rightarrow> v)"

definition transformValues :: "string list \<Rightarrow> (jsval \<Rightarrow> jsval) \<Rightarrow> jsobj option \<Rightarrow> jsobj option" where
  "transformValues flds f vs =
     map_option (\<lambda>fs. assign_all (map (\<lambda>(k, x). (k, if k \<in> set flds then f x else x)) fs)) vs"

definition forgottenValue :: "jsval \<Rightarrow> jsval" where
  "forgottenValue v =
     (if has_marker v then JObj [(''_encrypted'', JBool True), (''_forgotten'', JBool True)] else v)"

definition markForgotten :: "string list \<Rightarrow> jsobj option \<Rightarrow> jsobj option" where
  "markForgotten flds vs = transformValues flds forgottenValue vs"

definition map_payloads :: "(jsobj option \<Rightarrow> jsobj option) \<Rightarrow> audit_event \<Rightarrow> audit_event" where
  "map_payloads f e = e\<lparr>oldValues := f (oldValues e), newValues := f (newValues e), metadata := f (metadata e)\<rparr>"

text \<open>The key of a subject, created on first use: read, write if absent, read again.\<close>

definition obtain_key :: "'s key_store \<Rightarrow> string \<Rightarrow> string \<Rightarrow> 's \<Rightarrow> string result \<times> 's" where
  "obtain_key ks subj fresh_key st =
     (case ksGet ks st subj of
        Inl err \<Rightarrow> (Inl err, st)
      | Inr k \<Rightarrow>
          if truthy k then (Inr (the k), st)
          else case ksSet ks st subj fresh_key of
            Inl err \<Rightarrow> (Inl err, st)
          | Inr st' \<Rightarrow>
              (case ksGet ks st' subj of
                 Inl err \<Rightarrow> (Inl err, st')
               | Inr k' \<Rightarrow>
                   if truthy k' then (Inr (the k'), st')
                   else (Inl (AuditConfigurationError (''Subject key creation failed for \"'' @ subj @ ''\"'')), st')))"

definition encrypt_event ::
  "(string \<Rightarrow> jsval \<Rightarrow> string) \<Rightarrow> crypto_config \<Rightarrow> 's key_store \<Rightarrow> string \<Rightarrow> audit_event \<Rightarrow> 's \<Rightarrow> audit_event result \<times> 's" where
  "encrypt_event enc cfg ks fresh_key e st =
     (case resolveSubject cfg e of
        Inl err \<Rightarrow> (Inl err, st)
      | Inr subj \<Rightarrow>
          if \<not> truthy subj then (Inr e, st)
          else (let (key, st') = obtain_key ks (the subj) fresh_key st in
            (rmap (\<lambda>k. map_payloads (transformValues (cryptoFields cfg) (encryptValue (enc k))) e) key, st')))"

definition decrypt_event ::
  "(string \<Rightarrow> string \<Rightarrow> jsval) \<Rightarrow> crypto_config \<Rightarrow> 's key_store \<Rightarrow> audit_event \<Rightarrow> 's \<Rightarrow> audit_event result" where
  "decrypt_event dec cfg ks e st =
     rbind (resolveSubject cfg e) (\<lambda>subj.
       if \<not> truthy subj then Inr e
       else rmap (\<lambda>key.
         if \<not> truthy key then map_payloads (markForgotten (cryptoFields cfg)) e
         else map_payloads (transformValues (cryptoFields cfg) (decryptValue (dec (the key)))) e)
       (ksGet ks st (the subj)))"

definition createSubjectCrypto :: "(bool \<times> crypto_config) option \<Rightarrow> crypto_config option" where
  "createSubjectCrypto cfg = (case cfg of None \<Rightarrow> None | Some (enabled, c) \<Rightarrow> if enabled then Some c else None)"

section \<open>Transforming payloads\<close>

lemma assign_all_id: "props_ok fs \<Longrightarrow> ''__proto__'' \<notin> fst ` set fs \<Longrightarrow> assign_all fs = fs"
proof -
  assume a: "props_ok fs" "''__proto__'' \<notin> fst ` set fs"
  have "''__proto__'' \<notin> fst ` set gs \<Longrightarrow> assign_all gs = obj_of gs" for gs
    by (induction gs rule: rev_induct) (auto simp: assign_all_snoc obj_of_snoc obj_assign_def obj_of_def)
  then show ?thesis using a by simp
qed

definition at_fields :: "string list \<Rightarrow> (jsval \<Rightarrow> jsval) \<Rightarrow> jsobj \<Rightarrow> jsobj" where
  "at_fields flds f fs = map (\<lambda>(k, x). (k, if k \<in> set flds then f x else x)) fs"

lemma at_fields_keys [simp]: "map fst (at_fields flds f fs) = map fst fs"
  by (simp add: at_fields_def comp_def split_beta)

lemma at_fields_keyset [simp]: "fst ` set (at_fields flds f fs) = fst ` set fs"
  by (metis at_fields_keys set_map)

lemma at_fields_props_ok [simp]: "props_ok (at_fields flds f fs) \<longleftrightarrow> props_ok fs"
  by (simp add: props_ok_def)

lemma transformValues_at_fields:
  "props_ok fs \<Longrightarrow> ''__proto__'' \<notin> fst ` set fs \<Longrightarrow> transformValues flds f (Some fs) = Some (at_fields flds f fs)"
  using assign_all_id [of "at_fields flds f fs"]
  by (simp add: transformValues_def at_fields_def [symmetric])

definition json_finite :: "jsval \<Rightarrow> bool" where
  "json_finite v \<longleftrightarrow> json_value v \<and> json_image v = v"

text \<open>The payloads encryption restores: ordered properties, none called \<open>__proto__\<close>, finite JSON values in the fields.\<close>

definition encryptable :: "string list \<Rightarrow> jsobj option \<Rightarrow> bool" where
  "encryptable flds vs \<longleftrightarrow>
     (case vs of None \<Rightarrow> True
      | Some fs \<Rightarrow> props_ok fs \<and> ''__proto__'' \<notin> fst ` set fs
          \<and> list_all (\<lambda>p. fst p \<in> set flds \<longrightarrow> snd p = JUndefined \<or> json_finite (snd p)) fs)"

lemma decrypt_encrypt_value:
  assumes "\<And>v. json_finite v \<Longrightarrow> dec (enc v) = v" "v = JUndefined \<or> json_finite v"
  shows "decryptValue dec (encryptValue enc v) = v"
  using assms by (auto simp: encryptValue_def decryptValue_def has_marker_def own_props_def)

lemma transform_roundtrip:
  assumes "\<And>v. json_finite v \<Longrightarrow> dec (enc v) = v" "encryptable flds vs"
  shows "transformValues flds (decryptValue dec) (transformValues flds (encryptValue enc) vs) = vs"
proof (cases vs)
  case (Some fs)
  have ok: "props_ok fs" "''__proto__'' \<notin> fst ` set fs"
    and v: "\<And>p. p \<in> set fs \<Longrightarrow> fst p \<in> set flds \<Longrightarrow> snd p = JUndefined \<or> json_finite (snd p)"
    using assms(2) by (auto simp: encryptable_def Some list_all_iff)
  have "at_fields flds (decryptValue dec) (at_fields flds (encryptValue enc) fs) = fs"
    using v by (force simp: at_fields_def decrypt_encrypt_value [OF assms(1)] intro!: map_idI)
  then show ?thesis using ok by (simp add: Some transformValues_at_fields)
qed (simp add: transformValues_def)

lemma map_payloads_simps [simp]:
  "actor (map_payloads f e) = actor e" "tenantId (map_payloads f e) = tenantId e"
  "oldValues (map_payloads f e) = f (oldValues e)" "newValues (map_payloads f e) = f (newValues e)"
  "metadata (map_payloads f e) = f (metadata e)"
  by (simp_all add: map_payloads_def)

lemma map_payloads_id:
  "f (oldValues e) = oldValues e \<Longrightarrow> f (newValues e) = newValues e \<Longrightarrow> f (metadata e) = metadata e \<Longrightarrow> map_payloads f e = e"
  by (cases e) (simp add: map_payloads_def)

lemma map_payloads_comp: "map_payloads f (map_payloads g e) = map_payloads (\<lambda>v. f (g v)) e"
  by (simp add: map_payloads_def)

lemma resolveSubject_payloads:
  "subjectResolver cfg = None \<Longrightarrow> resolveSubject cfg (map_payloads f e) = resolveSubject cfg e"
  by (simp add: resolveSubject_def)

definition event_encryptable :: "string list \<Rightarrow> audit_event \<Rightarrow> bool" where
  "event_encryptable flds e \<longleftrightarrow>
     encryptable flds (oldValues e) \<and> encryptable flds (newValues e) \<and> encryptable flds (metadata e)"

lemma encrypt_keeps_header: "keeps_header (encrypt_event enc cfg ks fresh_key)"
  by (auto simp: keeps_header_def encrypt_event_def result_iff map_payloads_def
      split: sum.splits if_splits prod.splits)

text \<open>No ciphertext of a field is left.\<close>

definition forgotten_only :: "string list \<Rightarrow> jsobj option \<Rightarrow> bool" where
  "forgotten_only flds vs \<longleftrightarrow>
     (case vs of None \<Rightarrow> True
      | Some fs \<Rightarrow> list_all (\<lambda>p. fst p \<in> set flds \<longrightarrow> has_marker (snd p) \<longrightarrow>
          snd p = JObj [(''_encrypted'', JBool True), (''_forgotten'', JBool True)]) fs)"

lemma list_all_subset: "list_all P xs \<Longrightarrow> set ys \<subseteq> set xs \<Longrightarrow> list_all P ys"
  by (auto simp: list_all_iff)

lemma markForgotten_only: "forgotten_only flds (markForgotten flds vs)"
proof (cases vs)
  case (Some fs)
  have "list_all (\<lambda>p. fst p \<in> set flds \<longrightarrow> has_marker (snd p) \<longrightarrow>
          snd p = JObj [(''_encrypted'', JBool True), (''_forgotten'', JBool True)])
        (at_fields flds forgottenValue fs)"
    by (auto simp: at_fields_def list_all_iff forgottenValue_def)
  from list_all_subset [OF this assign_all_set] show ?thesis
    by (simp add: forgotten_only_def markForgotten_def transformValues_def at_fields_def [symmetric] Some)
qed (simp add: forgotten_only_def markForgotten_def transformValues_def)

section \<open>The key-store contract\<close>

locale subject_key_store =
  fixes ks :: "'s key_store" and keys :: "'s \<Rightarrow> string \<Rightarrow> string option" and usable :: "'s \<Rightarrow> bool"
  assumes get_law: "usable st \<Longrightarrow> ksGet ks st subj = Inr (keys st subj)"
    and set_law: "usable st \<Longrightarrow> \<exists>st'. ksSet ks st subj key = Inr st' \<and> usable st' \<and>
      keys st' = (if keys st subj = None then (keys st)(subj \<mapsto> key) else keys st)"
    and delete_law: "usable st \<Longrightarrow> \<exists>st'. ksDelete ks st subj = Inr st' \<and> usable st' \<and> keys st' = (keys st)(subj := None)"
begin

lemma obtain_key_spec:
  assumes "usable st" "keys st subj \<noteq> Some []" "fresh_key \<noteq> []"
  shows "\<exists>k st'. obtain_key ks subj fresh_key st = (Inr k, st') \<and> k \<noteq> [] \<and> usable st' \<and> keys st' subj = Some k
    \<and> (\<forall>k0. keys st subj = Some k0 \<longrightarrow> k = k0 \<and> st' = st) \<and> (\<forall>s. s \<noteq> subj \<longrightarrow> keys st' s = keys st s)"
proof (cases "keys st subj")
  case None
  obtain st' where st': "ksSet ks st subj fresh_key = Inr st'" "usable st'" "keys st' = (keys st)(subj \<mapsto> fresh_key)"
    using set_law [OF assms(1), of subj fresh_key] None by auto
  then show ?thesis using assms(3) None
    by (simp add: obtain_key_def get_law [OF assms(1)] get_law [OF st'(2)] truthy_def)
next
  case (Some k)
  then show ?thesis using assms by (simp add: obtain_key_def get_law truthy_def)
qed

lemma encrypt_decrypt:
  assumes "encrypt_event enc cfg ks fresh_key e st = (Inr e', st')" "usable st" "fresh_key \<noteq> []"
    and "subjectResolver cfg = None" "event_encryptable (cryptoFields cfg) e"
    and "\<And>k v. json_finite v \<Longrightarrow> dec k (enc k v) = v"
  shows "decrypt_event dec cfg ks e' st' = Inr e"
proof -
  obtain subj where subj: "resolveSubject cfg e = Inr subj"
    using assms(1) by (cases "resolveSubject cfg e") (auto simp: encrypt_event_def)
  show ?thesis
  proof (cases "truthy subj")
    case False
    then show ?thesis using assms(1) subj by (simp add: encrypt_event_def decrypt_event_def)
  next
    case True
    then obtain key where key: "obtain_key ks (the subj) fresh_key st = (Inr key, st')"
      "e' = map_payloads (transformValues (cryptoFields cfg) (encryptValue (enc key))) e"
      using assms(1) subj by (auto simp: encrypt_event_def result_iff split: prod.splits)
    have "keys st (the subj) \<noteq> Some []"
      using key(1) assms(2) set_law [OF assms(2), of "the subj" fresh_key]
      by (auto simp: obtain_key_def get_law truthy_def)
    then have k: "key \<noteq> []" "usable st'" "keys st' (the subj) = Some key"
      using obtain_key_spec [OF assms(2) _ assms(3), of "the subj"] key(1) by auto
    have r: "transformValues (cryptoFields cfg) (decryptValue (dec key))
        (transformValues (cryptoFields cfg) (encryptValue (enc key)) vs) = vs"
      if "encryptable (cryptoFields cfg) vs" for vs
      using transform_roundtrip [OF assms(6) that] .
    have "map_payloads (transformValues (cryptoFields cfg) (decryptValue (dec key))) e' = e"
      using r assms(5) unfolding key(2) map_payloads_comp
      by (intro map_payloads_id) (simp_all add: event_encryptable_def)
    then show ?thesis
      using k True subj resolveSubject_payloads [OF assms(4)]
      by (auto simp: decrypt_event_def key(2) get_law truthy_def)
  qed
qed

lemma delete_then_get:
  assumes "usable st" "ksDelete ks st subj = Inr st'"
  shows "ksGet ks st' subj = Inr None"
  using delete_law [OF assms(1), of subj] assms(2) get_law by fastforce

lemma forget_decrypt:
  assumes "usable st" "ksDelete ks st subj = Inr st'" "resolveSubject cfg e = Inr (Some subj)" "subj \<noteq> []"
  shows "decrypt_event dec cfg ks e st' = Inr (map_payloads (markForgotten (cryptoFields cfg)) e)"
  using delete_then_get [OF assms(1,2)] assms(3,4) by (simp add: decrypt_event_def truthy_def)

end

lemma map_of_filter_ne: "map_of (filter (\<lambda>r. fst r \<noteq> k) m) = (map_of m)(k := None)"
  by (induction m) auto

lemma map_of_snoc: "map_of m k = None \<Longrightarrow> map_of (m @ [(k, v)]) = (map_of m)(k \<mapsto> v)"
  by (induction m) (auto split: if_splits)

lemma key_in_rows: "k \<in> fst ` set m \<longleftrightarrow> map_of m k \<noteq> None"
  by (simp add: map_of_eq_None_iff)

lemma first_row: "(case filter (\<lambda>r. fst r = k) m of [] \<Rightarrow> Inr None | r # rs \<Rightarrow> Inr (Some (snd r))) = Inr (map_of m k)"
  by (induction m) auto

interpretation memory_keys: subject_key_store memory_key_store map_of "\<lambda>m. True"
  by unfold_locales
    (auto simp: memory_key_store_def memory_get_def memory_set_def memory_delete_def key_in_rows delete_conv')

interpretation lucid_keys: subject_key_store lucid_key_store "\<lambda>st. map_of (keyRows st)" hasDatabase
  by unfold_locales
    (auto simp: lucid_key_store_def lucid_key_get_def lucid_key_set_def lucid_key_delete_def key_in_rows
      first_row map_of_filter_ne map_of_snoc simp del: map_of_append)


section \<open>Properties\<close>


text \<open>
  C13: Crypto-shredding: once the subject's key is deleted, decrypting any event of that subject
  returns it with every encrypted field replaced by the forgotten marker and no ciphertext left,
  whatever the cipher does.
\<close>

theorem forgotten_subject_unreadable:
  assumes "hasDatabase st" "lucid_key_delete st subj = Inr st'"
    and "resolveSubject cfg e = Inr (Some subj)" "subj \<noteq> []"
  shows "\<exists>e'. decrypt_event dec cfg lucid_key_store e st' = Inr e'
     \<and> forgotten_only (cryptoFields cfg) (oldValues e') \<and> forgotten_only (cryptoFields cfg) (newValues e')
     \<and> forgotten_only (cryptoFields cfg) (metadata e')"
proof -
  have "ksDelete lucid_key_store st subj = Inr st'" using assms(2) by (simp add: lucid_key_store_def)
  from lucid_keys.forget_decrypt [OF assms(1) this assms(3,4)] show ?thesis
    by (simp add: markForgotten_only)
qed

definition sample_crypto :: crypto_config where
  "sample_crypto = \<lparr>cryptoFields = [''n''], subjectResolver = None\<rparr>"

definition sample_encrypted :: audit_event where
  "sample_encrypted = sample_b\<lparr>newValues := Some [(''n'', JObj [(''_encrypted'', JBool True), (''ciphertext'', JStr ''1'')])]\<rparr>"

lemma sample_subject: "resolveSubject sample_crypto sample_b = Inr (Some ''[\"audit-subject\",null,\"user\",\"1\"]'')"
  "resolveSubject sample_crypto sample_encrypted = Inr (Some ''[\"audit-subject\",null,\"user\",\"1\"]'')"
  by code_simp+

text \<open>A cipher for the witness: the text is the JSON text itself.\<close>

definition sample_enc :: "string \<Rightarrow> jsval \<Rightarrow> string" where
  "sample_enc k v = (case json_str v of Inr (Some t) \<Rightarrow> t | _ \<Rightarrow> [])"

definition sample_dec :: "string \<Rightarrow> string \<Rightarrow> jsval" where
  "sample_dec k c = (case json_parse c of Inr v \<Rightarrow> v | Inl e \<Rightarrow> JNull)"


theorem forgotten_subject_unreadable_witness:
  "\<exists>e' :: audit_event. decrypt_event (\<lambda>k c. JNull) sample_crypto lucid_key_store sample_encrypted \<lparr>keyRows = [], hasDatabase = True\<rparr> = Inr e'
     \<and> forgotten_only (cryptoFields sample_crypto) (oldValues e') \<and> forgotten_only (cryptoFields sample_crypto) (newValues e')
     \<and> forgotten_only (cryptoFields sample_crypto) (metadata e')"
proof (rule forgotten_subject_unreadable [where st = "\<lparr>keyRows = [(''[\"audit-subject\",null,\"user\",\"1\"]'', ''k'')], hasDatabase = True\<rparr>"])
  show "resolveSubject sample_crypto sample_encrypted = Inr (Some ''[\"audit-subject\",null,\"user\",\"1\"]'')"
    by (rule sample_subject)
qed (simp_all add: lucid_key_delete_def)

end
