(* ===== verification/EventJson.thy ===== *)
theory EventJson
  imports SubjectCrypto
begin

text \<open>
  Events as JSON: the object of an event and of a chained event (with the properties in the order
  the code creates them), the reading of such an object (\<open>JSON.parse(...) as AuditEvent\<close>), the
  check \<open>isAuditEvent\<close> of \<open>src/core/outbox_drainer.ts\<close>, and the facts that let an event be
  stored as JSON text and hashed again.
\<close>

declare map_of_eq_Some_iff [simp del]

section \<open>Objects of events\<close>

definition actor_obj :: "audit_actor \<Rightarrow> jsobj" where
  "actor_obj a =
     [(''type'', JStr (actorType a)), (''id'', opt_str (actorId a))]
     @ (case actorLabel a of None \<Rightarrow> [] | Some l \<Rightarrow> [(''label'', opt_str l)])"

definition event_obj :: "audit_event \<Rightarrow> jsobj" where
  "event_obj e =
    [(''id'', JStr (eventId e)),
     (''event'', JStr (eventName e)),
     (''stream'', JStr (stream e)),
     (''auditableType'', opt_str (auditableType e)),
     (''auditableId'', opt_str (auditableId e)),
     (''oldValues'', opt_obj (oldValues e)),
     (''newValues'', opt_obj (newValues e)),
     (''metadata'', opt_obj (metadata e)),
     (''actor'', JObj (actor_obj (actor e))),
     (''tenantId'', opt_str (tenantId e)),
     (''requestId'', opt_str (requestId e)),
     (''correlationId'', opt_str (correlationId e)),
     (''ipAddress'', opt_str (ipAddress e)),
     (''userAgent'', opt_str (userAgent e)),
     (''url'', opt_str (url e)),
     (''httpMethod'', opt_str (httpMethod e)),
     (''tags'', JArr (map JStr (tags e))),
     (''schemaVersion'', JStr (schemaVersion e)),
     (''createdAt'', JStr (createdAt e))]"

definition chained_obj :: "chained_event \<Rightarrow> jsobj" where
  "chained_obj r =
     event_obj (base r) @ [(''seq'', JNum (seq r)), (''prevHash'', JStr (prevHash r)), (''hash'', JStr (hash r))]"

text \<open>A property of a value: \<open>undefined\<close> when it is absent.\<close>

definition field :: "string \<Rightarrow> jsval \<Rightarrow> jsval" where
  "field k v = (case map_of (own_props v) k of None \<Rightarrow> JUndefined | Some x \<Rightarrow> x)"

fun str_of :: "jsval \<Rightarrow> string" where
  "str_of (JStr s) = s"
| "str_of _ = []"

fun num_of :: "jsval \<Rightarrow> int" where
  "num_of (JNum n) = n"
| "num_of _ = 0"

fun items_of :: "jsval \<Rightarrow> jsval list" where
  "items_of (JArr xs) = xs"
| "items_of _ = []"

definition str_opt :: "jsval \<Rightarrow> string option" where
  "str_opt v = (case v of JStr s \<Rightarrow> Some s | _ \<Rightarrow> None)"

definition obj_opt :: "jsval \<Rightarrow> jsobj option" where
  "obj_opt v = (case v of JObj fs \<Rightarrow> Some fs | JInst c ti fs \<Rightarrow> Some fs | JDate t \<Rightarrow> Some [] | _ \<Rightarrow> None)"

definition actor_of :: "jsval \<Rightarrow> audit_actor" where
  "actor_of v =
     \<lparr>actorType = str_of (field ''type'' v), actorId = str_opt (field ''id'' v),
      actorLabel = (if field ''label'' v = JUndefined then None else Some (str_opt (field ''label'' v)))\<rparr>"

definition event_of :: "jsval \<Rightarrow> audit_event" where
  "event_of v =
     \<lparr>eventId = str_of (field ''id'' v), eventName = str_of (field ''event'' v), stream = str_of (field ''stream'' v),
      auditableType = str_opt (field ''auditableType'' v), auditableId = str_opt (field ''auditableId'' v),
      oldValues = obj_opt (field ''oldValues'' v), newValues = obj_opt (field ''newValues'' v),
      metadata = obj_opt (field ''metadata'' v), actor = actor_of (field ''actor'' v),
      tenantId = str_opt (field ''tenantId'' v), requestId = str_opt (field ''requestId'' v),
      correlationId = str_opt (field ''correlationId'' v), ipAddress = str_opt (field ''ipAddress'' v),
      userAgent = str_opt (field ''userAgent'' v), url = str_opt (field ''url'' v),
      httpMethod = str_opt (field ''httpMethod'' v), tags = map str_of (items_of (field ''tags'' v)),
      schemaVersion = str_of (field ''schemaVersion'' v), createdAt = str_of (field ''createdAt'' v)\<rparr>"

definition chained_of :: "jsval \<Rightarrow> chained_event" where
  "chained_of v =
     \<lparr>base = event_of v, seq = num_of (field ''seq'' v), hash = str_of (field ''hash'' v), prevHash = str_of (field ''prevHash'' v)\<rparr>"

lemma str_opt_opt_str [simp]: "str_opt (opt_str x) = x"
  by (cases x) (simp_all add: str_opt_def opt_str_def)

lemma obj_opt_opt_obj [simp]: "obj_opt (opt_obj x) = x"
  by (cases x) (simp_all add: obj_opt_def opt_obj_def own_props_def)

lemma opt_not_undefined [simp]: "opt_str x \<noteq> JUndefined" "opt_obj y \<noteq> JUndefined"
  by (cases x; simp add: opt_str_def) (cases y; simp add: opt_obj_def)

lemma str_of_comp [simp]: "str_of \<circ> JStr = id"
  by (rule ext) simp

lemma field_JObj [simp]: "field k (JObj fs) = (case map_of fs k of None \<Rightarrow> JUndefined | Some x \<Rightarrow> x)"
  by (simp add: field_def own_props_def)

lemma actor_of_obj [simp]: "actor_of (JObj (actor_obj a)) = a"
  by (cases a; cases "actorLabel a") (simp_all add: actor_of_def actor_obj_def)

lemma event_fields:
  "field ''id'' (JObj (event_obj e @ fs)) = JStr (eventId e)"
  "field ''event'' (JObj (event_obj e @ fs)) = JStr (eventName e)"
  "field ''stream'' (JObj (event_obj e @ fs)) = JStr (stream e)"
  "field ''auditableType'' (JObj (event_obj e @ fs)) = opt_str (auditableType e)"
  "field ''auditableId'' (JObj (event_obj e @ fs)) = opt_str (auditableId e)"
  "field ''oldValues'' (JObj (event_obj e @ fs)) = opt_obj (oldValues e)"
  "field ''newValues'' (JObj (event_obj e @ fs)) = opt_obj (newValues e)"
  "field ''metadata'' (JObj (event_obj e @ fs)) = opt_obj (metadata e)"
  "field ''actor'' (JObj (event_obj e @ fs)) = JObj (actor_obj (actor e))"
  "field ''tenantId'' (JObj (event_obj e @ fs)) = opt_str (tenantId e)"
  "field ''requestId'' (JObj (event_obj e @ fs)) = opt_str (requestId e)"
  "field ''correlationId'' (JObj (event_obj e @ fs)) = opt_str (correlationId e)"
  "field ''ipAddress'' (JObj (event_obj e @ fs)) = opt_str (ipAddress e)"
  "field ''userAgent'' (JObj (event_obj e @ fs)) = opt_str (userAgent e)"
  "field ''url'' (JObj (event_obj e @ fs)) = opt_str (url e)"
  "field ''httpMethod'' (JObj (event_obj e @ fs)) = opt_str (httpMethod e)"
  "field ''tags'' (JObj (event_obj e @ fs)) = JArr (map JStr (tags e))"
  "field ''schemaVersion'' (JObj (event_obj e @ fs)) = JStr (schemaVersion e)"
  "field ''createdAt'' (JObj (event_obj e @ fs)) = JStr (createdAt e)"
  by (simp_all add: event_obj_def)

lemma event_of_prefix: "event_of (JObj (event_obj e @ fs)) = e"
  by (simp add: event_of_def event_fields del: field_JObj)

lemma event_of_obj [simp]: "event_of (JObj (event_obj e)) = e"
  using event_of_prefix [of e "[]"] by simp

lemma chained_fields:
  "field ''seq'' (JObj (chained_obj r)) = JNum (seq r)"
  "field ''hash'' (JObj (chained_obj r)) = JStr (hash r)"
  "field ''prevHash'' (JObj (chained_obj r)) = JStr (prevHash r)"
  by (simp_all add: chained_obj_def event_obj_def)

lemma chained_of_obj [simp]: "chained_of (JObj (chained_obj r)) = r"
  by (simp add: chained_of_def chained_fields del: field_JObj) (simp add: chained_obj_def event_of_prefix)

section \<open>The typed shape\<close>

definition isRecord :: "jsval \<Rightarrow> bool" where
  "isRecord v \<longleftrightarrow> (case v of JObj fs \<Rightarrow> True | JInst c ti fs \<Rightarrow> True | JDate t \<Rightarrow> True | _ \<Rightarrow> False)"

definition is_str :: "jsval \<Rightarrow> bool" where
  "is_str v \<longleftrightarrow> (case v of JStr s \<Rightarrow> True | _ \<Rightarrow> False)"

definition isNullableString :: "jsval \<Rightarrow> bool" where
  "isNullableString v \<longleftrightarrow> is_str v \<or> v = JNull"

definition isNullableRecord :: "jsval \<Rightarrow> bool" where
  "isNullableRecord v \<longleftrightarrow> v = JNull \<or> isRecord v"

definition isAuditEvent :: "jsval \<Rightarrow> bool" where
  "isAuditEvent v \<longleftrightarrow>
     isRecord v \<and> isRecord (field ''actor'' v)
     \<and> is_str (field ''id'' v) \<and> is_str (field ''event'' v) \<and> is_str (field ''stream'' v)
     \<and> isNullableString (field ''auditableType'' v) \<and> isNullableString (field ''auditableId'' v)
     \<and> isNullableRecord (field ''oldValues'' v) \<and> isNullableRecord (field ''newValues'' v)
     \<and> isNullableRecord (field ''metadata'' v)
     \<and> is_str (field ''type'' (field ''actor'' v)) \<and> isNullableString (field ''id'' (field ''actor'' v))
     \<and> (field ''label'' (field ''actor'' v) = JUndefined \<or> isNullableString (field ''label'' (field ''actor'' v)))
     \<and> isNullableString (field ''tenantId'' v) \<and> isNullableString (field ''requestId'' v)
     \<and> isNullableString (field ''correlationId'' v) \<and> isNullableString (field ''ipAddress'' v)
     \<and> isNullableString (field ''userAgent'' v) \<and> isNullableString (field ''url'' v)
     \<and> isNullableString (field ''httpMethod'' v)
     \<and> (case field ''tags'' v of JArr xs \<Rightarrow> list_all is_str xs | _ \<Rightarrow> False)
     \<and> field ''schemaVersion'' v = JStr ''1'' \<and> is_str (field ''createdAt'' v)"

lemma opt_shape [simp]: "isNullableString (opt_str x)" "isNullableRecord (opt_obj y)"
  by (cases x; cases y; simp add: isNullableString_def isNullableRecord_def opt_str_def opt_obj_def is_str_def isRecord_def)+

lemma actor_fields:
  "field ''type'' (JObj (actor_obj a)) = JStr (actorType a)"
  "field ''id'' (JObj (actor_obj a)) = opt_str (actorId a)"
  "field ''label'' (JObj (actor_obj a)) = (case actorLabel a of None \<Rightarrow> JUndefined | Some l \<Rightarrow> opt_str l)"
  by (simp_all add: actor_obj_def split: option.split)

lemma isAuditEvent_prefix: "isAuditEvent (JObj (event_obj e @ fs)) \<longleftrightarrow> schemaVersion e = ''1''"
  by (simp add: isAuditEvent_def event_fields actor_fields isRecord_def is_str_def list_all_iff del: field_JObj split: option.split)

section \<open>Storing an event as JSON\<close>

text \<open>What \<open>JSON.stringify\<close> and \<open>JSON.parse\<close> make of a payload.\<close>

definition stored_fields :: "jsobj \<Rightarrow> jsobj" where
  "stored_fields fs = own_props (json_image (stored (JObj fs)))"

definition stored_event :: "audit_event \<Rightarrow> audit_event" where
  "stored_event e = map_payloads (map_option stored_fields) e"

lemma stored_fields_obj: "json_image (stored (JObj fs)) = JObj (stored_fields fs)"
  by (simp add: stored_fields_def own_props_def)

lemma stored_opt [simp]:
  "json_image (stored (opt_str x)) = opt_str x"
  "json_image (stored (opt_obj y)) = opt_obj (map_option stored_fields y)"
  by (cases x; simp add: opt_str_def) (cases y; simp add: opt_obj_def stored_fields_def own_props_def)

text \<open>Property lists are treated member by member.\<close>

definition stored_members :: "jsobj \<Rightarrow> jsobj" where
  "stored_members fs = map (\<lambda>p. (fst p, json_image (stored (snd p)))) (filter (\<lambda>p. is_defined (snd p)) fs)"

lemma stored_members_simps [simp]:
  "stored_members [] = []"
  "stored_members (fs @ gs) = stored_members fs @ stored_members gs"
  "is_defined x \<Longrightarrow> stored_members ((k, x) # fs) = (k, json_image (stored x)) # stored_members fs"
  by (simp_all add: stored_members_def)

lemma stored_JObj: "json_image (stored (JObj fs)) = JObj (stored_members fs)"
  by (simp add: stored_members_def split_beta comp_def)

lemma stored_actor: "stored_members (actor_obj a) = actor_obj a"
  by (cases "actorLabel a") (simp_all add: actor_obj_def)

lemma stored_strings: "json_image (stored (JArr (map JStr ts))) = JArr (map JStr ts)"
  by (simp add: comp_def)

lemma is_defined_arr [simp]: "is_defined (JArr xs)"
  by (simp add: is_defined_def)

lemma stored_event_obj: "stored_members (event_obj e) = event_obj (stored_event e)"
  by (simp add: event_obj_def stored_event_def map_payloads_def stored_actor stored_strings stored_JObj
      del: stored.simps(1,2) json_image.simps(1,2))

section \<open>Events with equal hashed fields have equal hashed texts\<close>

lemma same_data_field:
  "map_of fs k = Some x \<Longrightarrow> map_of gs k = Some y \<Longrightarrow> same_data x y \<Longrightarrow> ''__proto__'' \<notin> set p \<Longrightarrow>
   node_at (k # p) (JObj fs) = node_at (k # p) (JObj gs)"
  by (simp add: same_data_def)

lemma same_data_refl [simp]: "same_data v v"
  by (simp add: same_data_def)

lemma pick_lookup:
  "map_of (pickHashedFields e n p) k =
     (if k = ''id'' then Some (JStr (eventId e)) else if k = ''seq'' then Some (JNum n)
      else if k = ''stream'' then Some (JStr (stream e)) else if k = ''event'' then Some (JStr (eventName e))
      else if k = ''auditableType'' then Some (opt_str (auditableType e))
      else if k = ''auditableId'' then Some (opt_str (auditableId e))
      else if k = ''oldValues'' then Some (opt_obj (oldValues e))
      else if k = ''newValues'' then Some (opt_obj (newValues e))
      else if k = ''metadata'' then Some (opt_obj (metadata e))
      else if k = ''actor'' then Some (JObj [(''type'', JStr (actorType (actor e))), (''id'', opt_str (actorId (actor e)))])
      else if k = ''tenantId'' then Some (opt_str (tenantId e))
      else if k = ''schemaVersion'' then Some (JStr (schemaVersion e))
      else if k = ''createdAt'' then Some (JStr (createdAt e))
      else if k = ''prevHash'' then Some (JStr p) else None)"
  by (simp add: pickHashedFields_def)

lemma same_fields_data:
  assumes "same_hashed_fields e f"
  shows "same_data (JObj (pickHashedFields e n p)) (JObj (pickHashedFields f n p))"
proof -
  have "node_at q (JObj (pickHashedFields e n p)) = node_at q (JObj (pickHashedFields f n p))"
    if "''__proto__'' \<notin> set q" for q
  proof (cases q)
    case (Cons k r)
    have "rel_option same_data (map_of (pickHashedFields e n p) k) (map_of (pickHashedFields f n p) k)"
      using assms by (simp add: pick_lookup same_hashed_fields_def)
    then show ?thesis using that Cons
      by (cases "map_of (pickHashedFields e n p) k"; cases "map_of (pickHashedFields f n p) k")
         (simp_all add: same_data_def)
  qed simp
  then show ?thesis by (simp add: same_data_def)
qed

lemma same_fields_same_text:
  assumes "same_hashed_fields e f" "hashable e" "hashable f" "payloads_wf e" "payloads_wf f"
  shows "hashed_text e n p = hashed_text f n p"
  unfolding hashed_text_def
  using assms pick_ok pick_wf same_fields_data by (subst canonical_text_same) (simp_all add: hashable_def del: canonical_ok.simps js_wf.simps)

text \<open>A change of the payloads that keeps their data keeps the hashed text.\<close>

lemma map_payloads_fields [simp]:
  "eventId (map_payloads f e) = eventId e" "stream (map_payloads f e) = stream e" "eventName (map_payloads f e) = eventName e"
  "auditableType (map_payloads f e) = auditableType e" "auditableId (map_payloads f e) = auditableId e"
  "schemaVersion (map_payloads f e) = schemaVersion e" "createdAt (map_payloads f e) = createdAt e"
  by (simp_all add: map_payloads_def)

definition keeps_data :: "(jsobj \<Rightarrow> jsobj) \<Rightarrow> jsobj \<Rightarrow> bool" where
  "keeps_data f fs \<longleftrightarrow> same_data (JObj (f fs)) (JObj fs) \<and> canonical_ok (JObj (f fs)) \<and> js_wf (JObj (f fs))"

lemma keeps_data_text:
  assumes "hashable e" "payloads_wf e" "\<And>fs. canonical_ok (JObj fs) \<Longrightarrow> js_wf (JObj fs) \<Longrightarrow> keeps_data f fs"
  shows "hashable (map_payloads (map_option f) e)" "payloads_wf (map_payloads (map_option f) e)"
    "hashed_text (map_payloads (map_option f) e) n p = hashed_text e n p"
proof -
  have k: "canonical_ok (opt_obj (map_option f x)) \<and> js_wf (opt_obj (map_option f x)) \<and> same_data (opt_obj (map_option f x)) (opt_obj x)"
    if "canonical_ok (opt_obj x)" "js_wf (opt_obj x)" for x
    using that assms(3) by (cases x) (simp_all add: opt_obj_def keeps_data_def del: canonical_ok.simps(1) js_wf.simps(1))
  show a: "hashable (map_payloads (map_option f) e)" "payloads_wf (map_payloads (map_option f) e)"
    using assms(1,2) k by (simp_all add: hashable_def payloads_wf_def)
  have "same_hashed_fields (map_payloads (map_option f) e) e"
    using assms(1,2) k by (simp add: same_hashed_fields_def hashable_def payloads_wf_def)
  then show "hashed_text (map_payloads (map_option f) e) n p = hashed_text e n p"
    using a assms by (intro same_fields_same_text)
qed

lemma stored_keeps_data: "canonical_ok (JObj fs) \<Longrightarrow> js_wf (JObj fs) \<Longrightarrow> keeps_data stored_fields fs"
proof -
  assume a: "canonical_ok (JObj fs)" "js_wf (JObj fs)"
  let ?w = "json_image (stored (JObj fs))"
  have e: "JObj (stored_fields fs) = ?w" by (simp add: stored_fields_def own_props_def)
  have "same_data ?w (JObj fs)" using a(2) by (simp add: same_data_def node_at_json_image node_at_stored del: stored.simps json_image.simps)
  moreover have "canonical_ok ?w" by (rule image_ok [OF stored_ok [OF a(1)]])
  moreover have "js_wf ?w" by (rule json_value_wf [OF image_json_value [OF stored_json_value [OF a]]])
  ultimately show ?thesis by (simp only: keeps_data_def e)
qed

lemma stored_event_text:
  assumes "hashable e" "payloads_wf e"
  shows "hashable (stored_event e)" "payloads_wf (stored_event e)" "hashed_text (stored_event e) n p = hashed_text e n p"
  using keeps_data_text [OF assms stored_keeps_data] by (simp_all add: stored_event_def)

section \<open>Events as canonical JSON\<close>

lemma canon_image:
  assumes "canonical_ok v"
  obtains w where "serialize v = Inr w" "canon v = json_image w" "json_value w"
proof -
  from assms obtain w where "serialize v = Inr w" using serialize_returns by blast
  then show thesis using that serialize_json_value by (simp add: canon_def)
qed

lemma canon_wf: "canonical_ok v \<Longrightarrow> js_wf (canon v)"
  by (elim canon_image) (simp add: json_value_wf image_json_value)

lemma canon_same_data: "canonical_ok v \<Longrightarrow> js_wf v \<Longrightarrow> same_data (canon v) v"
  by (elim canon_image) (simp add: same_data_def node_at_json_image serialize_node)

lemma visible_props_subset: "p \<in> set (visible_props fs) \<Longrightarrow> p \<in> set fs \<and> is_defined (snd p)"
  by (simp add: visible_props_def)

lemma canon_ok: "canonical_ok v \<Longrightarrow> canonical_ok (canon v)"
proof (induction v rule: canonical_ok.induct)
  case (1 fs)
  let ?ps = "map (\<lambda>(k, x). (k, canon x)) (visible_props fs)"
  have m: "canonical_ok (snd p)" if "p \<in> set fs" "is_defined (snd p)" for p
    using 1(2) that by (simp add: list_all_iff)
  have ps: "fst p \<in> fst ` set fs \<and> canonical_ok (snd p)" if p: "p \<in> set ?ps" for p
  proof -
    from p obtain k x where x: "(k, x) \<in> set fs" "is_defined x" "p = (k, canon x)"
      using visible_props_subset by fastforce
    then have "canonical_ok (canon x)" using 1(1) [of "(k, x)"] m [of "(k, x)"] by simp
    then show ?thesis using x by (simp add: rev_image_eqI)
  qed
  have sub: "p \<in> set ?ps" if "p \<in> set (assign_all ?ps)" for p using assign_all_set that by blast
  have "fst ` set (assign_all ?ps) \<subseteq> fst ` set fs" using ps sub by blast
  then have "is_plain (assign_all ?ps)" using 1(2) by (auto simp: is_plain_def)
  then show ?case
    using ps sub unfolding canon_obj [OF 1(2)] by (simp add: list_all_iff del: set_map)
next
  case (2 xs)
  then show ?case by (simp add: canon_arr list_all_iff)
qed (simp_all add: canon_def)

lemma canon_scalar [simp]: "canon (JStr s) = JStr s" "canon (JNum n) = JNum n" "canon JNull = JNull"
  by (simp_all add: canon_def)

lemma canon_opt_str [simp]: "canon (opt_str x) = opt_str x"
  by (cases x) (simp_all add: opt_str_def)

text \<open>Reading a property of a canonical text back.\<close>

lemma field_canon:
  assumes "canonical_ok (JObj fs)" "distinct (map fst fs)" "k \<noteq> ''__proto__''"
  shows "field k (canon (JObj fs)) = (if field k (JObj fs) = JUndefined then JUndefined else canon (field k (JObj fs)))"
proof -
  let ?ps = "map (\<lambda>(k, x). (k, canon x)) (visible_props fs)"
  have "map fst ?ps = map fst (visible_props fs)"
    by (simp add: comp_def split_beta)
  then have "distinct (map fst ?ps)"
    using visible_props_sorted [OF assms(2)] by (simp only:)
  then have "map_of (assign_all ?ps) k = map_option canon (map_of (visible_props fs) k)"
    using assms(3) by (simp add: assign_all_lookup map_of_image)
  then show ?thesis
    using assms visible_props_lookup [OF assms(2), of k]
    by (cases "map_of fs k") (simp_all add: canon_obj is_defined_def del: canonical_ok.simps)
qed

definition canon_fields :: "jsobj \<Rightarrow> jsobj" where
  "canon_fields fs = own_props (canon (JObj fs))"

definition canon_event :: "audit_event \<Rightarrow> audit_event" where
  "canon_event e = map_payloads (map_option canon_fields) e"

lemma canon_opt_obj: "canonical_ok (opt_obj x) \<Longrightarrow> canon (opt_obj x) = opt_obj (map_option canon_fields x)"
  by (cases x) (simp_all add: opt_obj_def canon_fields_def canon_obj own_props_def del: canonical_ok.simps(1))

lemma canon_keeps_data: "canonical_ok (JObj fs) \<Longrightarrow> js_wf (JObj fs) \<Longrightarrow> keeps_data canon_fields fs"
proof -
  assume a: "canonical_ok (JObj fs)" "js_wf (JObj fs)"
  have "JObj (canon_fields fs) = canon (JObj fs)"
    using a(1) by (simp add: canon_fields_def canon_obj own_props_def del: canonical_ok.simps)
  then show ?thesis using canon_ok [OF a(1)] canon_wf [OF a(1)] canon_same_data [OF a]
    by (simp only: keeps_data_def)
qed

lemma canon_event_text:
  assumes "hashable e" "payloads_wf e"
  shows "hashable (canon_event e)" "payloads_wf (canon_event e)" "hashed_text (canon_event e) n p = hashed_text e n p"
  using keeps_data_text [OF assms canon_keeps_data] by (simp_all add: canon_event_def)

lemma actor_obj_ok: "canonical_ok (JObj (actor_obj a))" "distinct (map fst (actor_obj a))"
  by (cases "actorLabel a"; simp add: actor_obj_def is_plain_def)+

lemma actor_of_canon [simp]: "actor_of (canon (JObj (actor_obj a))) = a"
  using actor_obj_ok [of a]
  by (simp add: actor_of_def field_canon actor_fields del: field_JObj canonical_ok.simps split: option.split)

lemma chained_obj_distinct: "distinct (map fst (chained_obj r))"
  by (simp add: chained_obj_def event_obj_def)

lemma chained_obj_ok: "canonical_ok (JObj (chained_obj r)) \<longleftrightarrow> hashable (base r)"
  using actor_obj_ok [of "actor (base r)"]
  by (simp add: chained_obj_def event_obj_def hashable_def is_plain_def list_all_iff)

lemma canon_strings: "canon (JArr (map JStr ts)) = JArr (map JStr ts)"
  by (simp add: canon_arr list_all_iff comp_def)

lemma chained_event_fields: "field k (JObj (chained_obj r)) =
    (if k = ''seq'' then JNum (seq r) else if k = ''prevHash'' then JStr (prevHash r)
     else if k = ''hash'' then JStr (hash r) else field k (JObj (event_obj (base r))))"
  by (simp add: chained_obj_def map_add_def event_obj_def split: option.split)

text \<open>A chained event printed canonically and read back: only its payloads are normalised.\<close>

lemma chained_of_canon:
  assumes "hashable (base r)"
  shows "chained_of (canon (JObj (chained_obj r))) = r\<lparr>base := canon_event (base r)\<rparr>"
proof -
  note f = field_canon [OF chained_obj_ok [THEN iffD2, OF assms] chained_obj_distinct]
  note e = event_fields [of "base r" "[]", simplified append_Nil2]
  have "event_of (canon (JObj (chained_obj r))) = canon_event (base r)"
    using assms
    by (simp add: event_of_def f chained_event_fields e canon_strings canon_opt_obj hashable_def
        canon_event_def map_payloads_def del: field_JObj canonical_ok.simps)
  then show ?thesis
    by (simp add: chained_of_def f chained_event_fields del: field_JObj)
qed

end
