(* ===== verification/Outbox.thy ===== *)
theory Outbox
  imports EventJson
begin

text \<open>
  \<open>src/core/outbox_drainer.ts\<close>: the transactional outbox. The table is a list of rows (the id is
  the primary key); a query is a filter over it, an \<open>update\<close> returns how many rows it changed.
  The store, the notifier, the executor and the poison handler are arguments; the clock is a
  sequence of readings.
  The second half lets several drainers share a table: between two queries of one of them the
  others may run.
\<close>

section \<open>Payloads\<close>

definition parseJsonPayload :: "jsval \<Rightarrow> jsval result" where
  "parseJsonPayload p =
     (case p of
        JStr s \<Rightarrow> (case json_parse s of
            Inl e \<Rightarrow> Inl (AuditOutboxPayloadError ''Outbox payload is not valid JSON'') | Inr v \<Rightarrow> Inr v)
      | _ \<Rightarrow> Inr p)"

definition payload_events :: "jsval \<Rightarrow> jsval list" where
  "payload_events v =
     (case v of
        JArr xs \<Rightarrow> xs
      | _ \<Rightarrow> if isRecord v then
               (case field ''events'' v of
                  JArr xs \<Rightarrow> xs
                | _ \<Rightarrow> if isAuditEvent (field ''event'' v) then [field ''event'' v] else [v])
             else [v])"

definition normalizePayload :: "jsval \<Rightarrow> audit_event list result" where
  "normalizePayload p =
     rbind (parseJsonPayload p) (\<lambda>v.
       let events = payload_events v in
       if events = [] \<or> \<not> list_all isAuditEvent events
       then Inl (AuditOutboxPayloadError ''Outbox payload contains an invalid audit event'')
       else Inr (map event_of events))"

section \<open>The table\<close>

datatype outbox_status = Pending | Processing | Processed | Failed

record outbox_row =
  rowId :: string
  rowPayload :: jsval
  rowTenant :: "string option"
  rowStatus :: outbox_status
  rowAttempts :: "int option"
  availableAt :: int
  claimedAt :: "int option"
  processedAt :: "int option"
  failedAt :: "int option"
  lastError :: "string option"

record outbox_config =
  staleClaimMs :: int
  outboxMaxAttempts :: int
  retryDelayMs :: int

definition outbox_config_of :: "int option \<Rightarrow> int option \<Rightarrow> int option \<Rightarrow> outbox_config" where
  "outbox_config_of stale attempts delay =
     \<lparr>staleClaimMs = (case stale of None \<Rightarrow> 5 * 60 * 1000 | Some n \<Rightarrow> n),
      outboxMaxAttempts = (case attempts of None \<Rightarrow> 5 | Some n \<Rightarrow> n),
      retryDelayMs = (case delay of None \<Rightarrow> 0 | Some n \<Rightarrow> n)\<rparr>"

definition attempts_of :: "outbox_row \<Rightarrow> int" where
  "attempts_of r = (case rowAttempts r of None \<Rightarrow> 0 | Some n \<Rightarrow> n)"

definition due :: "int \<Rightarrow> int \<Rightarrow> outbox_row \<Rightarrow> bool" where
  "due now staleHorizon r \<longleftrightarrow>
     rowStatus r = Pending \<and> availableAt r \<le> now
     \<or> rowStatus r = Processing \<and> (case claimedAt r of None \<Rightarrow> False | Some c \<Rightarrow> c < staleHorizon)"

definition select_due :: "outbox_config \<Rightarrow> int \<Rightarrow> nat \<Rightarrow> outbox_row list \<Rightarrow> outbox_row list" where
  "select_due cfg now limit rows =
     take limit (sort_key availableAt (filter (due now (now - staleClaimMs cfg)) rows))"

definition update_where :: "(outbox_row \<Rightarrow> bool) \<Rightarrow> (outbox_row \<Rightarrow> outbox_row) \<Rightarrow> outbox_row list \<Rightarrow> nat \<times> outbox_row list" where
  "update_where P f rows = (length (filter P rows), map (\<lambda>r. if P r then f r else r) rows)"

definition claim :: "outbox_config \<Rightarrow> string \<Rightarrow> int \<Rightarrow> int \<Rightarrow> outbox_row list \<Rightarrow> nat \<times> outbox_row list" where
  "claim cfg i now attempts =
     update_where (\<lambda>r. rowId r = i \<and> due now (now - staleClaimMs cfg) r)
       (\<lambda>r. r\<lparr>rowStatus := Processing, rowAttempts := Some attempts, claimedAt := Some now\<rparr>)"

definition ack :: "string \<Rightarrow> int \<Rightarrow> outbox_row list \<Rightarrow> nat \<times> outbox_row list" where
  "ack i now =
     update_where (\<lambda>r. rowId r = i \<and> rowStatus r = Processing)
       (\<lambda>r. r\<lparr>rowStatus := Processed, processedAt := Some now, lastError := None\<rparr>)"

definition gives_up :: "outbox_config \<Rightarrow> int \<Rightarrow> bool \<Rightarrow> bool" where
  "gives_up cfg attempts terminal \<longleftrightarrow> terminal \<or> attempts \<ge> outboxMaxAttempts cfg"

definition fail_row :: "outbox_config \<Rightarrow> string \<Rightarrow> int \<Rightarrow> bool \<Rightarrow> string \<Rightarrow> outbox_row list \<Rightarrow> nat \<times> outbox_row list" where
  "fail_row cfg i now failed message =
     update_where (\<lambda>r. rowId r = i \<and> rowStatus r = Processing)
       (\<lambda>r. if failed then r\<lparr>rowStatus := Failed, failedAt := Some now, lastError := Some message\<rparr>
            else r\<lparr>rowStatus := Pending, availableAt := now + retryDelayMs cfg, claimedAt := None,
                   lastError := Some message\<rparr>)"

definition select_failed :: "nat \<Rightarrow> outbox_row list \<Rightarrow> outbox_row list" where
  "select_failed limit rows =
     take limit (sort_key (\<lambda>r. case failedAt r of None \<Rightarrow> 0 | Some t \<Rightarrow> t) (filter (\<lambda>r. rowStatus r = Failed) rows))"

definition requeue_row :: "string \<Rightarrow> int \<Rightarrow> outbox_row list \<Rightarrow> nat \<times> outbox_row list" where
  "requeue_row i now =
     update_where (\<lambda>r. rowId r = i \<and> rowStatus r = Failed)
       (\<lambda>r. r\<lparr>rowStatus := Pending, rowAttempts := Some 0, availableAt := now, claimedAt := None,
              failedAt := None, lastError := None\<rparr>)"

section \<open>One drainer\<close>

text \<open>What the poison handler is told of a row that is given up; it may throw.\<close>

type_synonym poison = "string \<times> jsval \<times> int \<times> string"

record 's outbox =
  obRows :: "outbox_row list"
  obHasTable :: bool
  obPoison :: "poison list"
  obSink :: 's
  obTick :: nat

text \<open>The next reading of the clock, and an update of the table inside \<open>withSource\<close> (the executor may throw instead).\<close>

definition clock :: "(nat \<Rightarrow> int) \<Rightarrow> 's outbox \<Rightarrow> int \<times> 's outbox" where
  "clock clk st = (clk (obTick st), st\<lparr>obTick := obTick st + 1\<rparr>)"

definition withSource ::
  "(string option \<Rightarrow> audit_error option) \<Rightarrow> string option \<Rightarrow> (outbox_row list \<Rightarrow> nat \<times> outbox_row list) \<Rightarrow> 's outbox
   \<Rightarrow> nat result \<times> 's outbox" where
  "withSource executor tenant f st =
     (case executor tenant of
        Some e \<Rightarrow> (Inl e, st)
      | None \<Rightarrow> (let (n, rows) = f (obRows st) in (Inr n, st\<lparr>obRows := rows\<rparr>)))"

definition fail ::
  "outbox_config \<Rightarrow> (string option \<Rightarrow> audit_error option) \<Rightarrow> (poison \<Rightarrow> audit_error option) \<Rightarrow> (nat \<Rightarrow> int) \<Rightarrow> outbox_row \<Rightarrow> int
   \<Rightarrow> audit_error \<Rightarrow> bool \<Rightarrow> 's outbox \<Rightarrow> unit result \<times> 's outbox" where
  "fail cfg executor onPoison clk r attempts e terminal st =
     (let failed = gives_up cfg attempts terminal;
          (now, st) = clock clk st;
          message = error_message e in
      sbind (withSource executor (rowTenant r) (fail_row cfg (rowId r) now failed message) st) (\<lambda>n st.
        if \<not> failed then (Inr (), st)
        else (let info = (rowId r, rowPayload r, attempts, message) in
          (case onPoison info of None \<Rightarrow> Inr () | Some err \<Rightarrow> Inl err, st\<lparr>obPoison := obPoison st @ [info]\<rparr>))))"

text \<open>The write, the notification and the acknowledgement of a claimed row.\<close>

definition deliver_row ::
  "(string option \<Rightarrow> audit_error option) \<Rightarrow> (nat \<Rightarrow> int) \<Rightarrow> (audit_event list \<Rightarrow> 's \<Rightarrow> unit result \<times> 's) \<Rightarrow> outbox_row
   \<Rightarrow> audit_event list \<Rightarrow> 's outbox \<Rightarrow> unit result \<times> 's outbox" where
  "deliver_row executor clk deliver r events st =
     (let (res, sink) = deliver events (obSink st) in
      sbind (res, st\<lparr>obSink := sink\<rparr>) (\<lambda>_ st.
        let (now, st) = clock clk st in
        sbind (withSource executor (rowTenant r) (ack (rowId r) now) st) (\<lambda>n st. (Inr (), st))))"

definition process_row ::
  "outbox_config \<Rightarrow> (string option \<Rightarrow> audit_error option) \<Rightarrow> (poison \<Rightarrow> audit_error option) \<Rightarrow> (nat \<Rightarrow> int)
   \<Rightarrow> (audit_event list \<Rightarrow> 's \<Rightarrow> unit result \<times> 's) \<Rightarrow> outbox_row \<Rightarrow> 's outbox \<Rightarrow> nat result \<times> 's outbox" where
  "process_row cfg executor onPoison clk deliver r st =
     (let (now, st) = clock clk st; attempts = attempts_of r + 1 in
      sbind (withSource executor (rowTenant r) (claim cfg (rowId r) now attempts) st) (\<lambda>n st.
        if n = 0 then (Inr 0, st)
        else case normalizePayload (rowPayload r) of
          Inl e \<Rightarrow> sbind (fail cfg executor onPoison clk r attempts e True st) (\<lambda>_ st. (Inr 0, st))
        | Inr events \<Rightarrow>
            (case deliver_row executor clk deliver r events st of
               (Inr _, st) \<Rightarrow> (Inr 1, st)
             | (Inl e, st) \<Rightarrow> sbind (fail cfg executor onPoison clk r attempts e False st) (\<lambda>_ st. (Inr 0, st)))))"

fun drain_rows ::
  "outbox_config \<Rightarrow> (string option \<Rightarrow> audit_error option) \<Rightarrow> (poison \<Rightarrow> audit_error option) \<Rightarrow> (nat \<Rightarrow> int)
   \<Rightarrow> (audit_event list \<Rightarrow> 's \<Rightarrow> unit result \<times> 's) \<Rightarrow> outbox_row list \<Rightarrow> 's outbox \<Rightarrow> nat result \<times> 's outbox" where
  "drain_rows cfg executor onPoison clk deliver [] st = (Inr 0, st)"
| "drain_rows cfg executor onPoison clk deliver (r # rs) st =
     sbind (process_row cfg executor onPoison clk deliver r st) (\<lambda>n st.
       sbind (drain_rows cfg executor onPoison clk deliver rs st) (\<lambda>m st. (Inr (n + m), st)))"

definition deliver_to ::
  "(audit_event list \<Rightarrow> 's \<Rightarrow> chained_event list result \<times> 's) \<Rightarrow> (chained_event list \<Rightarrow> 's \<Rightarrow> unit result \<times> 's)
   \<Rightarrow> audit_event list \<Rightarrow> 's \<Rightarrow> unit result \<times> 's" where
  "deliver_to write announce events s = sbind (write events s) announce"

definition drain ::
  "outbox_config \<Rightarrow> (string option \<Rightarrow> audit_error option) \<Rightarrow> (poison \<Rightarrow> audit_error option) \<Rightarrow> (nat \<Rightarrow> int)
   \<Rightarrow> (audit_event list \<Rightarrow> 's \<Rightarrow> chained_event list result \<times> 's) \<Rightarrow> (chained_event list \<Rightarrow> 's \<Rightarrow> unit result \<times> 's) \<Rightarrow> nat \<Rightarrow> 's outbox \<Rightarrow> nat result \<times> 's outbox" where
  "drain cfg executor onPoison clk write announce limit st =
     (if \<not> obHasTable st then (Inr 0, st)
      else let (now, st) = clock clk st in
        drain_rows cfg executor onPoison clk (deliver_to write announce) (select_due cfg now limit (obRows st)) st)"

fun requeue_rows :: "(string option \<Rightarrow> audit_error option) \<Rightarrow> (nat \<Rightarrow> int) \<Rightarrow> outbox_row list \<Rightarrow> 's outbox \<Rightarrow> nat result \<times> 's outbox" where
  "requeue_rows executor clk [] st = (Inr 0, st)"
| "requeue_rows executor clk (r # rs) st =
     (let (now, st) = clock clk st in
      sbind (withSource executor (rowTenant r) (requeue_row (rowId r) now) st) (\<lambda>n st.
        sbind (requeue_rows executor clk rs st) (\<lambda>m st. (Inr ((if n > 0 then 1 else 0) + m), st))))"

definition requeue :: "(string option \<Rightarrow> audit_error option) \<Rightarrow> (nat \<Rightarrow> int) \<Rightarrow> nat \<Rightarrow> 's outbox \<Rightarrow> nat result \<times> 's outbox" where
  "requeue executor clk limit st =
     (if \<not> obHasTable st then (Inr 0, st) else requeue_rows executor clk (select_failed limit (obRows st)) st)"

record outbox_metrics =
  mPending :: nat
  mFailed :: nat
  mOldestPendingAgeMs :: "int option"
  mAttempts :: int

definition outbox_stats :: "int \<Rightarrow> 's outbox \<Rightarrow> outbox_metrics" where
  "outbox_stats now st =
     (if \<not> obHasTable st then \<lparr>mPending = 0, mFailed = 0, mOldestPendingAgeMs = None, mAttempts = 0\<rparr>
      else
        (let pendingRows = filter (\<lambda>r. rowStatus r = Pending) (obRows st) in
         \<lparr>mPending = length pendingRows, mFailed = length (filter (\<lambda>r. rowStatus r = Failed) (obRows st)),
          mOldestPendingAgeMs =
            (case sort_key id (map availableAt pendingRows) of [] \<Rightarrow> None | t # ts \<Rightarrow> Some (max 0 (now - t))),
          mAttempts = sum_list (map attempts_of (obRows st))\<rparr>))"

text \<open>The timer of \<open>start\<close>/\<open>stop\<close>: a scheduled drain is skipped while one is active.\<close>

record drain_timer =
  dtOn :: bool
  dtActive :: bool

definition drainer_start :: "drain_timer \<Rightarrow> drain_timer" where
  "drainer_start t = t\<lparr>dtOn := True\<rparr>"

definition drainer_stop :: "drain_timer \<Rightarrow> drain_timer" where
  "drainer_stop t = t\<lparr>dtOn := False\<rparr>"

definition runScheduledDrain :: "drain_timer \<Rightarrow> bool \<times> drain_timer" where
  "runScheduledDrain t = (if dtActive t then (False, t) else (True, t\<lparr>dtActive := True\<rparr>))"

definition scheduledDrainDone :: "drain_timer \<Rightarrow> drain_timer" where
  "scheduledDrainDone t = t\<lparr>dtActive := False\<rparr>"

section \<open>What a drain does to each row\<close>

definition row_at :: "outbox_row list \<Rightarrow> string \<Rightarrow> outbox_row option" where
  "row_at rows = map_of (map (\<lambda>r. (rowId r, r)) rows)"

abbreviation keyed :: "outbox_row list \<Rightarrow> bool" where
  "keyed rows \<equiv> distinct (map rowId rows)"

lemma row_at_mem: "row_at rows i = Some r \<Longrightarrow> r \<in> set rows \<and> rowId r = i"
  by (auto simp: row_at_def dest: map_of_SomeD)

lemma row_at_keyed: "keyed rows \<Longrightarrow> r \<in> set rows \<Longrightarrow> row_at rows (rowId r) = Some r"
  by (simp add: row_at_def comp_def map_of_eq_Some_iff rev_image_eqI)

lemma filter_keyed:
  "keyed rows \<Longrightarrow> filter (\<lambda>r. rowId r = i \<and> Q r) rows = (case row_at rows i of Some r \<Rightarrow> if Q r then [r] else [] | None \<Rightarrow> [])"
proof (induction rows)
  case (Cons a rows)
  then have "row_at rows (rowId a) = None"
    by (auto simp: row_at_def map_of_eq_None_iff comp_def)
  then show ?case using Cons by (auto simp: row_at_def)
qed (simp add: row_at_def)

lemma update_where_keyed:
  assumes "keyed rows" "\<And>r. rowId (f r) = rowId r"
  shows "fst (update_where (\<lambda>r. rowId r = i \<and> Q r) f rows) = (case row_at rows i of Some r \<Rightarrow> if Q r then 1 else 0 | None \<Rightarrow> 0)"
    and "map rowId (snd (update_where (\<lambda>r. rowId r = i \<and> Q r) f rows)) = map rowId rows"
    and "row_at (snd (update_where (\<lambda>r. rowId r = i \<and> Q r) f rows)) =
      (case row_at rows i of Some r \<Rightarrow> if Q r then (row_at rows)(i \<mapsto> f r) else row_at rows | None \<Rightarrow> row_at rows)"
proof -
  show "fst (update_where (\<lambda>r. rowId r = i \<and> Q r) f rows) = (case row_at rows i of Some r \<Rightarrow> if Q r then 1 else 0 | None \<Rightarrow> 0)"
    using filter_keyed [OF assms(1)] by (simp add: update_where_def split: option.split)
  show "map rowId (snd (update_where (\<lambda>r. rowId r = i \<and> Q r) f rows)) = map rowId rows"
    using assms(2) by (simp add: update_where_def)
  have "row_at (map (\<lambda>r. if rowId r = i \<and> Q r then f r else r) rs) j =
      (if j = i then map_option (\<lambda>r. if Q r then f r else r) (row_at rs i) else row_at rs j)" for rs j
    using assms(2) by (induction rs) (auto simp: row_at_def)
  then show "row_at (snd (update_where (\<lambda>r. rowId r = i \<and> Q r) f rows)) =
      (case row_at rows i of Some r \<Rightarrow> if Q r then (row_at rows)(i \<mapsto> f r) else row_at rows | None \<Rightarrow> row_at rows)"
    by (auto simp: update_where_def fun_eq_iff split: option.split)
qed

lemmas table_defs = claim_def ack_def fail_row_def requeue_row_def

lemma due_later: "due now (now - s) r \<Longrightarrow> now \<le> t \<Longrightarrow> due t (t - s) r"
  by (auto simp: due_def split: option.splits)

definition reliable :: "('a \<Rightarrow> audit_error option) \<Rightarrow> bool" where
  "reliable f \<longleftrightarrow> (\<forall>x. f x = None)"

text \<open>
  The specification: what becomes of the payload of a row, in the state of the store at that time,
  and what that makes of the row.
\<close>

datatype outcome = Delivered | Rejected audit_error | Undelivered audit_error

definition attempt :: "(audit_event list \<Rightarrow> 's \<Rightarrow> unit result \<times> 's) \<Rightarrow> outbox_row \<Rightarrow> 's \<Rightarrow> outcome \<times> 's" where
  "attempt dl r s =
     (case normalizePayload (rowPayload r) of
        Inl e \<Rightarrow> (Rejected e, s)
      | Inr es \<Rightarrow> (let (res, s') = dl es s in (case res of Inl e \<Rightarrow> Undelivered e | Inr _ \<Rightarrow> Delivered, s')))"

fun deliveries :: "(audit_event list \<Rightarrow> 's \<Rightarrow> unit result \<times> 's) \<Rightarrow> outbox_row list \<Rightarrow> 's \<Rightarrow> outcome list \<times> 's" where
  "deliveries dl [] s = ([], s)"
| "deliveries dl (r # rs) s =
     (let (o1, s) = attempt dl r s; (os, s) = deliveries dl rs s in (o1 # os, s))"

definition settled_as :: "outbox_config \<Rightarrow> outbox_row \<Rightarrow> outcome \<Rightarrow> outbox_row \<Rightarrow> bool" where
  "settled_as cfg r oc r' \<longleftrightarrow>
     rowId r' = rowId r \<and> rowPayload r' = rowPayload r \<and> rowTenant r' = rowTenant r \<and> rowAttempts r' = Some (attempts_of r + 1)
     \<and> (case oc of
          Delivered \<Rightarrow> rowStatus r' = Processed \<and> lastError r' = None
        | Rejected e \<Rightarrow> rowStatus r' = Failed \<and> lastError r' = Some (error_message e)
        | Undelivered e \<Rightarrow> rowStatus r' = (if outboxMaxAttempts cfg \<le> attempts_of r + 1 then Failed else Pending)
            \<and> lastError r' = Some (error_message e))"

definition given_up :: "outbox_config \<Rightarrow> outbox_row \<Rightarrow> outcome \<Rightarrow> poison list" where
  "given_up cfg r oc =
     (case oc of
        Delivered \<Rightarrow> []
      | Rejected e \<Rightarrow> [(rowId r, rowPayload r, attempts_of r + 1, error_message e)]
      | Undelivered e \<Rightarrow> if outboxMaxAttempts cfg \<le> attempts_of r + 1
          then [(rowId r, rowPayload r, attempts_of r + 1, error_message e)] else [])"

lemma fail_settles:
  assumes "reliable executor" "reliable onPoison" "keyed (obRows st)" "row_at (obRows st) (rowId r) = Some r1"
    "rowStatus r1 = Processing" "rowPayload r1 = rowPayload r" "rowTenant r1 = rowTenant r" "rowAttempts r1 = Some (attempts_of r + 1)"
    and "oc = (if terminal then Rejected e else Undelivered e)"
  shows "\<exists>st' r'. fail cfg executor onPoison clk r (attempts_of r + 1) e terminal st = (Inr (), st') \<and> keyed (obRows st')
    \<and> row_at (obRows st') = (row_at (obRows st))(rowId r \<mapsto> r') \<and> settled_as cfg r oc r'
    \<and> obSink st' = obSink st \<and> obPoison st' = obPoison st @ given_up cfg r oc \<and> obTick st' = obTick st + 1"
proof -
  have id: "rowId r1 = rowId r" using row_at_mem [OF assms(4)] by simp
  show ?thesis using assms id
    by (auto simp: fail_def clock_def withSource_def reliable_def fail_row_def split_beta Let_def update_where_keyed
        settled_as_def gives_up_def given_up_def)
qed

lemma process_row_settles:
  assumes "reliable executor" "reliable onPoison" "keyed (obRows st)" "row_at (obRows st) (rowId r) = Some r"
    "due t (t - staleClaimMs cfg) r" "t \<le> clk (obTick st)" "attempt dl r (obSink st) = (oc, sk)"
  shows "\<exists>st' r'. process_row cfg executor onPoison clk dl r st = (Inr (if oc = Delivered then 1 else 0), st')
    \<and> keyed (obRows st') \<and> row_at (obRows st') = (row_at (obRows st))(rowId r \<mapsto> r') \<and> settled_as cfg r oc r'
    \<and> obSink st' = sk \<and> obPoison st' = obPoison st @ given_up cfg r oc \<and> obTick st \<le> obTick st'"
proof -
  let ?now = "clk (obTick st)" and ?a = "attempts_of r + 1"
  let ?st0 = "st\<lparr>obTick := obTick st + 1\<rparr>"
  let ?r1 = "r\<lparr>rowStatus := Processing, rowAttempts := Some ?a, claimedAt := Some ?now\<rparr>"
  let ?st1 = "?st0\<lparr>obRows := snd (claim cfg (rowId r) ?now ?a (obRows st))\<rparr>"
  have due: "due ?now (?now - staleClaimMs cfg) r" using due_later assms(5,6) .
  have claimed: "withSource executor (rowTenant r) (claim cfg (rowId r) ?now ?a) ?st0 = (Inr 1, ?st1)"
    using assms(1,3,4) due update_where_keyed(1) [OF assms(3)]
    by (simp add: withSource_def reliable_def claim_def split_beta)
  have rows1: "keyed (obRows ?st1)" "row_at (obRows ?st1) = (row_at (obRows st))(rowId r \<mapsto> ?r1)"
    using assms(3,4) due by (simp_all add: claim_def update_where_keyed)
  have fails: "\<exists>st' r'. fail cfg executor onPoison clk r ?a e terminal (?st1\<lparr>obSink := sk\<rparr>) = (Inr (), st')
      \<and> keyed (obRows st') \<and> row_at (obRows st') = (row_at (obRows st))(rowId r \<mapsto> r')
      \<and> settled_as cfg r oc r' \<and> obSink st' = sk \<and> obPoison st' = obPoison st @ given_up cfg r oc \<and> obTick st' = obTick st + 2"
    if "oc = (if terminal then Rejected e else Undelivered e)" for e terminal
    using fail_settles [OF assms(1,2), of "?st1\<lparr>obSink := sk\<rparr>" r ?r1 oc terminal e cfg clk] rows1 that by auto
  show ?thesis
  proof (cases "normalizePayload (rowPayload r)")
    case (Inl e)
    then have oc: "oc = Rejected e" "sk = obSink st" using assms(7) by (simp_all add: attempt_def)
    from fails [of True e] oc obtain st' r' where f: "fail cfg executor onPoison clk r ?a e True ?st1 = (Inr (), st')" "keyed (obRows st')"
      "row_at (obRows st') = (row_at (obRows st))(rowId r \<mapsto> r')" "settled_as cfg r oc r'" "obSink st' = sk"
      "obPoison st' = obPoison st @ given_up cfg r oc" "obTick st' = obTick st + 2" by auto
    then show ?thesis using claimed Inl oc(1)
      by (intro exI [of _ st'] exI [of _ r']) (simp add: process_row_def clock_def Let_def)
  next
    case (Inr es)
    obtain res where d: "dl es (obSink st) = (res, sk)" and oc: "oc = (case res of Inl e \<Rightarrow> Undelivered e | Inr _ \<Rightarrow> Delivered)"
      using assms(7) Inr by (auto simp: attempt_def Let_def split: prod.splits)
    show ?thesis
    proof (cases res)
      case (Inl e)
      from fails [of False e] oc Inl obtain st' r' where
        "fail cfg executor onPoison clk r ?a e False (?st1\<lparr>obSink := sk\<rparr>) = (Inr (), st')" "keyed (obRows st')"
        "row_at (obRows st') = (row_at (obRows st))(rowId r \<mapsto> r')" "settled_as cfg r oc r'" "obSink st' = sk"
        "obPoison st' = obPoison st @ given_up cfg r oc" "obTick st' = obTick st + 2" by auto
      then show ?thesis using claimed Inr d Inl oc
        by (intro exI [of _ st'] exI [of _ r']) (simp add: process_row_def clock_def Let_def deliver_row_def)
    next
      case (Inr u)
      then show ?thesis using rows1 assms(1) claimed \<open>normalizePayload (rowPayload r) = Inr es\<close> d oc
        by (auto simp: process_row_def clock_def Let_def deliver_row_def withSource_def reliable_def ack_def
            split_beta update_where_keyed settled_as_def given_up_def)
    qed
  qed
qed

lemma drain_rows_settle:
  assumes "reliable executor" "reliable onPoison" "keyed (obRows st)" "mono clk" "t \<le> clk (obTick st)" "keyed rs"
    "list_all (\<lambda>r. row_at (obRows st) (rowId r) = Some r \<and> due t (t - staleClaimMs cfg) r) rs"
    "deliveries dl rs (obSink st) = (os, sk)"
  shows "\<exists>st'. drain_rows cfg executor onPoison clk dl rs st = (Inr (count_list os Delivered), st')
    \<and> keyed (obRows st')
    \<and> (\<forall>i. i \<notin> rowId ` set rs \<longrightarrow> row_at (obRows st') i = row_at (obRows st) i)
    \<and> list_all2 (\<lambda>r oc. \<exists>r'. row_at (obRows st') (rowId r) = Some r' \<and> settled_as cfg r oc r') rs os
    \<and> obSink st' = sk \<and> obPoison st' = obPoison st @ concat (map2 (given_up cfg) rs os)"
  using assms(3,5-8)
proof (induction rs arbitrary: st os)
  case (Cons r rs)
  have here: "row_at (obRows st) (rowId r) = Some r" "due t (t - staleClaimMs cfg) r"
    using Cons.prems(4) by simp_all
  obtain oc sk1 where a: "attempt dl r (obSink st) = (oc, sk1)" by (rule prod.exhaust)
  from process_row_settles [where t = t and clk = clk and dl = dl, OF assms(1,2) Cons.prems(1) here Cons.prems(2) a]
  obtain st1 r1 where st1: "process_row cfg executor onPoison clk dl r st = (Inr (if oc = Delivered then 1 else 0), st1)"
    "keyed (obRows st1)" "row_at (obRows st1) = (row_at (obRows st))(rowId r \<mapsto> r1)" "settled_as cfg r oc r1"
    "obSink st1 = sk1" "obPoison st1 = obPoison st @ given_up cfg r oc" "obTick st \<le> obTick st1"
    by blast
  obtain os1 where os: "os = oc # os1" "deliveries dl rs (obSink st1) = (os1, sk)"
    using Cons.prems(5) a st1(5) by (auto split: prod.splits)
  have later: "t \<le> clk (obTick st1)"
    using monoD [OF assms(4) st1(7)] Cons.prems(2) by linarith
  have rest: "list_all (\<lambda>r. row_at (obRows st1) (rowId r) = Some r \<and> due t (t - staleClaimMs cfg) r) rs"
  proof (unfold list_all_iff, intro ballI)
    fix x assume x: "x \<in> set rs"
    then have "rowId x \<noteq> rowId r" using Cons.prems(3) by (simp add: image_iff) metis
    then show "row_at (obRows st1) (rowId x) = Some x \<and> due t (t - staleClaimMs cfg) x"
      using Cons.prems(4) x by (simp add: st1(3) list_all_iff)
  qed
  have krs: "keyed rs" using Cons.prems(3) by simp
  from Cons.IH [OF st1(2) later krs rest os(2)] obtain st' where st':
    "drain_rows cfg executor onPoison clk dl rs st1 = (Inr (count_list os1 Delivered), st')"
    "keyed (obRows st')" "\<And>i. i \<notin> rowId ` set rs \<Longrightarrow> row_at (obRows st') i = row_at (obRows st1) i"
    "list_all2 (\<lambda>r oc. \<exists>r'. row_at (obRows st') (rowId r) = Some r' \<and> settled_as cfg r oc r') rs os1"
    "obSink st' = sk" "obPoison st' = obPoison st1 @ concat (map2 (given_up cfg) rs os1)"
    by blast
  have r: "row_at (obRows st') (rowId r) = Some r1"
    using st'(3) [of "rowId r"] Cons.prems(3) st1(3) by simp
  have run: "drain_rows cfg executor onPoison clk dl (r # rs) st = (Inr (count_list os Delivered), st')"
    using st1(1) st'(1) by (simp add: os(1))
  have frame: "\<forall>i. i \<notin> rowId ` set (r # rs) \<longrightarrow> row_at (obRows st') i = row_at (obRows st) i"
    using st'(3) st1(3) by simp
  have all: "list_all2 (\<lambda>r oc. \<exists>r'. row_at (obRows st') (rowId r) = Some r' \<and> settled_as cfg r oc r') (r # rs) os"
    using st'(4) r st1(4) by (simp add: os(1))
  have "obPoison st' = obPoison st @ concat (map2 (given_up cfg) (r # rs) os)" using st'(6) st1(6) os(1) by simp
  with run st'(2,5) frame all show ?case by (intro exI [of _ st'] conjI)
qed (auto split: prod.splits)

lemma keyed_select: "keyed rows \<Longrightarrow> keyed (select_due cfg now limit rows)"
proof -
  assume k: "keyed rows"
  let ?xs = "sort_key availableAt (filter (due now (now - staleClaimMs cfg)) rows)"
  have "mset (map rowId ?xs) = mset (map rowId (filter (due now (now - staleClaimMs cfg)) rows))"
    by (simp only: mset_map mset_sort)
  then have "distinct (map rowId ?xs) = distinct (map rowId (filter (due now (now - staleClaimMs cfg)) rows))"
    by (rule mset_eq_imp_distinct_iff)
  then have "distinct (map rowId ?xs)" using distinct_map_filter [OF k] by simp
  then show ?thesis by (simp only: select_due_def take_map [symmetric] distinct_take)
qed

lemma select_due_mem:
  "r \<in> set (select_due cfg now limit rows) \<Longrightarrow> r \<in> set rows \<and> due now (now - staleClaimMs cfg) r"
  by (auto simp: select_due_def dest: in_set_takeD)

lemma drain_settles:
  assumes "reliable executor" "reliable onPoison" "mono clk" "obHasTable st" "keyed (obRows st)"
    and "sel = select_due cfg (clk (obTick st)) limit (obRows st)"
    and "deliveries (deliver_to write announce) sel (obSink st) = (os, sk)"
  shows "\<exists>st'. drain cfg executor onPoison clk write announce limit st = (Inr (count_list os Delivered), st')
    \<and> keyed (obRows st') \<and> (\<forall>i. i \<notin> rowId ` set sel \<longrightarrow> row_at (obRows st') i = row_at (obRows st) i)
    \<and> list_all2 (\<lambda>r oc. \<exists>r'. row_at (obRows st') (rowId r) = Some r' \<and> settled_as cfg r oc r') sel os
    \<and> obSink st' = sk \<and> obPoison st' = obPoison st @ concat (map2 (given_up cfg) sel os)"
proof -
  let ?st = "st\<lparr>obTick := obTick st + 1\<rparr>"
  have all: "list_all (\<lambda>r. row_at (obRows ?st) (rowId r) = Some r \<and> due (clk (obTick st)) (clk (obTick st) - staleClaimMs cfg) r) sel"
    using assms(5,6) by (auto simp: list_all_iff row_at_keyed dest!: select_due_mem)
  have t: "clk (obTick st) \<le> clk (obTick ?st)" using monoD [OF assms(3), of "obTick st"] by simp
  have k: "keyed (obRows ?st)" "keyed sel" using assms(5,6) keyed_select by simp_all
  have d: "deliveries (deliver_to write announce) sel (obSink ?st) = (os, sk)" using assms(7) by simp
  have "drain cfg executor onPoison clk write announce limit st = drain_rows cfg executor onPoison clk (deliver_to write announce) sel ?st"
    using assms(4,6) by (simp add: drain_def clock_def)
  then show ?thesis using drain_rows_settle [OF assms(1,2) k(1) assms(3) t k(2) all d] by simp
qed

section \<open>Several drainers on one table\<close>

text \<open>
  A worker is one running \<open>drain\<close>: the rows it has still to look at (as they were when it selected
  them) and the row it has claimed, with the attempt number and the claim time. All of them read one clock; a
  claimed row may be acknowledged or failed at any time.
\<close>

record job =
  jobRow :: outbox_row
  jobAttempts :: int
  jobClaimed :: int

record worker =
  wSnapshot :: "outbox_row list"
  wJob :: "job option"

record fleet =
  fRows :: "outbox_row list"
  fWorkers :: "worker list"
  fNow :: int

datatype fleet_op =
    TimePasses int
  | Select nat nat
  | ClaimNext nat
  | AckJob nat
  | FailJob nat bool string
  | Requeue string
  | InsertRow outbox_row
  | Crash nat

definition set_worker :: "nat \<Rightarrow> worker \<Rightarrow> fleet \<Rightarrow> fleet" where
  "set_worker i w s = s\<lparr>fWorkers := (fWorkers s)[i := w]\<rparr>"

definition with_job :: "nat \<Rightarrow> (job \<Rightarrow> worker \<Rightarrow> fleet option) \<Rightarrow> fleet \<Rightarrow> fleet option" where
  "with_job i g s =
     (if i < length (fWorkers s) then
        (case wJob (fWorkers s ! i) of None \<Rightarrow> None | Some j \<Rightarrow> g j (fWorkers s ! i)) else None)"

fun fleet_step :: "outbox_config \<Rightarrow> fleet_op \<Rightarrow> fleet \<Rightarrow> fleet option" where
  "fleet_step cfg (TimePasses t) s = (if fNow s \<le> t then Some (s\<lparr>fNow := t\<rparr>) else None)"
| "fleet_step cfg (Select i limit) s =
     (if i < length (fWorkers s) \<and> wJob (fWorkers s ! i) = None \<and> wSnapshot (fWorkers s ! i) = []
      then Some (set_worker i \<lparr>wSnapshot = select_due cfg (fNow s) limit (fRows s), wJob = None\<rparr> s) else None)"
| "fleet_step cfg (ClaimNext i) s =
     (if i < length (fWorkers s) \<and> wJob (fWorkers s ! i) = None then
        (case wSnapshot (fWorkers s ! i) of
           [] \<Rightarrow> None
         | r # rs \<Rightarrow>
             (let (n, rows) = claim cfg (rowId r) (fNow s) (attempts_of r + 1) (fRows s);
                  j = \<lparr>jobRow = r, jobAttempts = attempts_of r + 1, jobClaimed = fNow s\<rparr> in
              Some (set_worker i \<lparr>wSnapshot = rs, wJob = (if n > 0 then Some j else None)\<rparr> (s\<lparr>fRows := rows\<rparr>))))
      else None)"
| "fleet_step cfg (AckJob i) s =
     with_job i (\<lambda>j w. Some (set_worker i (w\<lparr>wJob := None\<rparr>)
       (s\<lparr>fRows := snd (ack (rowId (jobRow j)) (fNow s) (fRows s))\<rparr>))) s"
| "fleet_step cfg (FailJob i terminal message) s =
     with_job i (\<lambda>j w. Some (set_worker i (w\<lparr>wJob := None\<rparr>)
       (s\<lparr>fRows := snd (fail_row cfg (rowId (jobRow j)) (fNow s) (gives_up cfg (jobAttempts j) terminal) message (fRows s))\<rparr>))) s"
| "fleet_step cfg (Requeue rid) s = Some (s\<lparr>fRows := snd (requeue_row rid (fNow s) (fRows s))\<rparr>)"
| "fleet_step cfg (InsertRow r) s =
     (if row_at (fRows s) (rowId r) = None \<and> rowStatus r = Pending then Some (s\<lparr>fRows := fRows s @ [r]\<rparr>) else None)"
| "fleet_step cfg (Crash i) s =
     (if i < length (fWorkers s) then Some (set_worker i \<lparr>wSnapshot = [], wJob = None\<rparr> s) else None)"

definition fleet_start :: "nat \<Rightarrow> fleet" where
  "fleet_start n = \<lparr>fRows = [], fWorkers = replicate n \<lparr>wSnapshot = [], wJob = None\<rparr>, fNow = 0\<rparr>"

definition job_of :: "fleet \<Rightarrow> nat \<Rightarrow> job option" where
  "job_of s i = (if i < length (fWorkers s) then wJob (fWorkers s ! i) else None)"

text \<open>\<open>timely\<close>: no claim that a worker still holds is older than \<open>staleClaimMs\<close>.\<close>

definition timely :: "outbox_config \<Rightarrow> fleet \<Rightarrow> bool" where
  "timely cfg s \<longleftrightarrow> (\<forall>i j. job_of s i = Some j \<longrightarrow> fNow s \<le> jobClaimed j + staleClaimMs cfg)"

inductive fleet_reachable :: "outbox_config \<Rightarrow> nat \<Rightarrow> bool \<Rightarrow> fleet \<Rightarrow> bool"
  for cfg :: outbox_config and n :: nat and only_timely :: bool
where
  start: "fleet_reachable cfg n only_timely (fleet_start n)"
| step: "fleet_reachable cfg n only_timely s \<Longrightarrow> fleet_step cfg op s = Some s' \<Longrightarrow> (only_timely \<longrightarrow> timely cfg s') \<Longrightarrow>
    fleet_reachable cfg n only_timely s'"

section \<open>No two live claims on one row\<close>

lemma job_of_set_worker [simp]:
  "job_of (set_worker i w s) k = (if k = i \<and> i < length (fWorkers s) then wJob w else job_of s k)"
  by (simp add: job_of_def set_worker_def)

lemma set_worker_simps [simp]:
  "fRows (set_worker i w s) = fRows s" "fNow (set_worker i w s) = fNow s"
  "length (fWorkers (set_worker i w s)) = length (fWorkers s)"
  by (simp_all add: set_worker_def)

lemma job_of_updates [simp]:
  "job_of (s\<lparr>fRows := rows\<rparr>) = job_of s" "job_of (s\<lparr>fNow := t\<rparr>) = job_of s"
  by (simp_all add: job_of_def fun_eq_iff)

lemma with_job_Some:
  "with_job i g s = Some s' \<longleftrightarrow> (\<exists>j. job_of s i = Some j \<and> i < length (fWorkers s) \<and> g j (fWorkers s ! i) = Some s')"
  by (auto simp: with_job_def job_of_def split: option.splits)

definition job_holds :: "outbox_row list \<Rightarrow> job \<Rightarrow> bool" where
  "job_holds rows j \<longleftrightarrow>
     (case row_at rows (rowId (jobRow j)) of None \<Rightarrow> False
      | Some r \<Rightarrow> rowStatus r = Processing \<and> claimedAt r = Some (jobClaimed j))"

definition fleet_inv :: "fleet \<Rightarrow> bool" where
  "fleet_inv s \<longleftrightarrow> keyed (fRows s)
     \<and> (\<forall>i j. job_of s i = Some j \<longrightarrow> job_holds (fRows s) j)
     \<and> (\<forall>i i' j j'. job_of s i = Some j \<longrightarrow> job_of s i' = Some j' \<longrightarrow> rowId (jobRow j) = rowId (jobRow j') \<longrightarrow> i = i')"

text \<open>A step that opens no job and leaves the rows of the open jobs alone keeps the invariant.\<close>

lemma fleet_inv_frame:
  assumes "fleet_inv s" "keyed (fRows s')"
    and "\<And>i j'. job_of s' i = Some j' \<Longrightarrow> \<exists>j. job_of s i = Some j \<and> jobRow j = jobRow j' \<and> jobClaimed j = jobClaimed j'"
    and "\<And>i j. job_of s' i = Some j \<Longrightarrow> row_at (fRows s') (rowId (jobRow j)) = row_at (fRows s) (rowId (jobRow j))"
  shows "fleet_inv s'"
  unfolding fleet_inv_def
proof (intro conjI allI impI)
  fix i j assume j: "job_of s' i = Some j"
  then obtain j0 where j0: "job_of s i = Some j0" "jobRow j0 = jobRow j" "jobClaimed j0 = jobClaimed j"
    using assms(3) by blast
  then have "job_holds (fRows s) j0" using assms(1) by (auto simp: fleet_inv_def)
  then show "job_holds (fRows s') j" using assms(4) [OF j] j0 by (auto simp: job_holds_def split: option.splits)
next
  fix i i' j j' assume j: "job_of s' i = Some j" "job_of s' i' = Some j'" "rowId (jobRow j) = rowId (jobRow j')"
  then obtain j0 j0' where "job_of s i = Some j0" "jobRow j0 = jobRow j" "job_of s i' = Some j0'" "jobRow j0' = jobRow j'"
    using assms(3) by metis
  then show "i = i'" using assms(1) j(3) unfolding fleet_inv_def by metis
qed (rule assms(2))

lemma row_at_update:
  assumes "keyed rows" "\<And>r. rowId (f r) = rowId r" "k = i \<longrightarrow> (\<forall>r. row_at rows i = Some r \<longrightarrow> \<not> Q r)"
  shows "row_at (snd (update_where (\<lambda>r. rowId r = i \<and> Q r) f rows)) k = row_at rows k"
  using assms by (cases "row_at rows i") (auto simp: update_where_keyed)

lemma claim_rows:
  assumes "keyed rows" "row_at rows i = Some r"
  shows "keyed (snd (claim cfg i now a rows))"
    and "due now (now - staleClaimMs cfg) r \<Longrightarrow> fst (claim cfg i now a rows) = 1"
    and "due now (now - staleClaimMs cfg) r \<Longrightarrow> row_at (snd (claim cfg i now a rows)) =
      (row_at rows)(i \<mapsto> r\<lparr>rowStatus := Processing, rowAttempts := Some a, claimedAt := Some now\<rparr>)"
  using assms by (simp_all add: claim_def update_where_keyed)

lemma claim_none:
  assumes "keyed rows" "fst (claim cfg i now a rows) = 0"
  shows "row_at (snd (claim cfg i now a rows)) = row_at rows" "keyed (snd (claim cfg i now a rows))"
  using assms by (auto simp: claim_def update_where_keyed split: option.splits if_splits)

lemma claim_some:
  assumes "keyed rows" "0 < fst (claim cfg i now a rows)"
  obtains r where "row_at rows i = Some r" "due now (now - staleClaimMs cfg) r"
  using assms by (auto simp: claim_def update_where_keyed split: option.splits if_splits)

lemma claim_next_inv:
  assumes inv: "fleet_inv s" and timely: "timely cfg s" and i: "i < length (fWorkers s)" "job_of s i = None"
    and c: "claim cfg (rowId r) (fNow s) a (fRows s) = (n, rows)"
    and j: "jobRow j = r" "jobClaimed j = fNow s"
  shows "fleet_inv (set_worker i \<lparr>wSnapshot = rs, wJob = (if n > 0 then Some j else None)\<rparr> (s\<lparr>fRows := rows\<rparr>))"
proof (cases "n > 0")
  case False
  then show ?thesis using claim_none [of "fRows s" cfg "rowId r" "fNow s" a] c inv
    by (intro fleet_inv_frame [OF inv]) (auto simp: fleet_inv_def split: if_splits)
next
  case True
  have k: "keyed (fRows s)" using inv by (simp add: fleet_inv_def)
  obtain r0 where r0: "row_at (fRows s) (rowId r) = Some r0" "due (fNow s) (fNow s - staleClaimMs cfg) r0"
    using claim_some [OF k, of cfg "rowId r" "fNow s" a] c True by auto
  have new: "keyed rows" "row_at rows = (row_at (fRows s))(rowId r \<mapsto> r0\<lparr>rowStatus := Processing, rowAttempts := Some a, claimedAt := Some (fNow s)\<rparr>)"
    using claim_rows [OF k r0(1)] r0(2) c by (metis snd_conv)+
  have other: "rowId (jobRow j') \<noteq> rowId r" if "job_of s i' = Some j'" for i' j'
  proof
    assume "rowId (jobRow j') = rowId r"
    then have "rowStatus r0 = Processing \<and> claimedAt r0 = Some (jobClaimed j')"
      using inv that r0(1) by (fastforce simp: fleet_inv_def job_holds_def)
    then show False using r0(2) timely that by (force simp: due_def timely_def)
  qed
  let ?s = "set_worker i \<lparr>wSnapshot = rs, wJob = (if n > 0 then Some j else None)\<rparr> (s\<lparr>fRows := rows\<rparr>)"
  have jobs: "job_of ?s k = (if k = i then Some j else job_of s k)" for k using i True by simp
  show ?thesis unfolding fleet_inv_def
  proof (intro conjI allI impI)
    fix k j' assume "job_of ?s k = Some j'"
    then show "job_holds (fRows ?s) j'"
      using inv other j new(2) by (auto simp: jobs job_holds_def fleet_inv_def split: if_splits)
  next
    fix k k' j1 j2 assume "job_of ?s k = Some j1" "job_of ?s k' = Some j2" "rowId (jobRow j1) = rowId (jobRow j2)"
    then show "k = k'" using other j inv unfolding jobs fleet_inv_def by (metis option.inject)
  qed (use new in simp)
qed
lemma job_row_exists: "fleet_inv s \<Longrightarrow> job_of s i = Some j \<Longrightarrow> \<exists>r. row_at (fRows s) (rowId (jobRow j)) = Some r \<and> rowStatus r = Processing"
  by (fastforce simp: fleet_inv_def job_holds_def split: option.splits)

lemma other_job_row: "fleet_inv s \<Longrightarrow> job_of s i = Some j \<Longrightarrow> job_of s k = Some j' \<Longrightarrow> k \<noteq> i \<Longrightarrow> rowId (jobRow j') \<noteq> rowId (jobRow j)"
  unfolding fleet_inv_def by metis

lemma close_job_inv:
  assumes inv: "fleet_inv s" and j: "job_of s i = Some j" "i < length (fWorkers s)"
    and rows: "keyed rows" "\<And>k. k \<noteq> rowId (jobRow j) \<Longrightarrow> row_at rows k = row_at (fRows s) k"
  shows "fleet_inv (set_worker i (w\<lparr>wJob := None\<rparr>) (s\<lparr>fRows := rows\<rparr>))"
  using other_job_row [OF inv j(1)] j(2) rows
  by (intro fleet_inv_frame [OF inv]) (auto split: if_splits)

lemma fleet_step_inv:
  assumes "fleet_inv s" "timely cfg s" "fleet_step cfg op s = Some s'"
  shows "fleet_inv s'"
proof -
  have k: "keyed (fRows s)" using assms(1) by (simp add: fleet_inv_def)
  show ?thesis
  proof (cases op)
    case (TimePasses t)
    then show ?thesis using assms(3) k by (intro fleet_inv_frame [OF assms(1)]) (auto split: if_splits)
  next
    case (Select i limit)
    then show ?thesis using assms(3) k
      by (intro fleet_inv_frame [OF assms(1)]) (auto split: if_splits)
  next
    case (ClaimNext i)
    then obtain r rs where r: "i < length (fWorkers s)" "job_of s i = None" "wSnapshot (fWorkers s ! i) = r # rs"
      using assms(3) by (auto simp: job_of_def split: if_splits list.splits)
    obtain n rows where c: "claim cfg (rowId r) (fNow s) (attempts_of r + 1) (fRows s) = (n, rows)" by fastforce
    show ?thesis using claim_next_inv [OF assms(1,2) r(1,2) c] ClaimNext assms(3) r c
      by (auto simp: job_of_def Let_def)
  next
    case (AckJob i)
    then obtain j where j: "job_of s i = Some j" "i < length (fWorkers s)"
      "s' = set_worker i ((fWorkers s ! i)\<lparr>wJob := None\<rparr>) (s\<lparr>fRows := snd (ack (rowId (jobRow j)) (fNow s) (fRows s))\<rparr>)"
      using assms(3) by (auto simp: with_job_Some split: if_splits)
    show ?thesis unfolding j(3) using k
      by (intro close_job_inv [OF assms(1) j(1,2)]) (simp_all add: ack_def update_where_keyed split: option.split)
  next
    case (FailJob i terminal message)
    then obtain j where j: "job_of s i = Some j" "i < length (fWorkers s)"
      "s' = set_worker i ((fWorkers s ! i)\<lparr>wJob := None\<rparr>)
        (s\<lparr>fRows := snd (fail_row cfg (rowId (jobRow j)) (fNow s) (gives_up cfg (jobAttempts j) terminal) message (fRows s))\<rparr>)"
      using assms(3) by (auto simp: with_job_Some)
    show ?thesis unfolding j(3) using k
      by (intro close_job_inv [OF assms(1) j(1,2)]) (simp_all add: fail_row_def update_where_keyed split: option.split)
  next
    case (Requeue rid)
    then have s': "s' = s\<lparr>fRows := snd (requeue_row rid (fNow s) (fRows s))\<rparr>" using assms(3) by simp
    have "row_at (fRows s') (rowId (jobRow j)) = row_at (fRows s) (rowId (jobRow j))" if "job_of s i = Some j" for i j
      using job_row_exists [OF assms(1) that] k
      by (auto simp: s' requeue_row_def update_where_keyed split: option.split)
    then show ?thesis using k
      by (intro fleet_inv_frame [OF assms(1)]) (auto simp: s' requeue_row_def update_where_keyed)
  next
    case (InsertRow r)
    then have r: "row_at (fRows s) (rowId r) = None" "s' = s\<lparr>fRows := fRows s @ [r]\<rparr>"
      using assms(3) by (auto split: if_splits)
    have "keyed (fRows s @ [r])" using k r(1) by (auto simp: row_at_def map_of_eq_None_iff image_image)
    moreover have "row_at (fRows s @ [r]) (rowId (jobRow j)) = row_at (fRows s) (rowId (jobRow j))" if "job_of s i = Some j" for i j
      using job_row_exists [OF assms(1) that] r(1) by (auto simp: row_at_def map_add_def)
    ultimately show ?thesis by (intro fleet_inv_frame [OF assms(1)]) (auto simp: r(2))
  next
    case (Crash i)
    then show ?thesis using assms(3) k
      by (intro fleet_inv_frame [OF assms(1)]) (auto split: if_splits)
  qed
qed

lemma job_of_start [simp]: "job_of (fleet_start n) i = None"
  by (simp add: job_of_def fleet_start_def)

lemma fleet_reachable_inv: "fleet_reachable cfg n True s \<Longrightarrow> fleet_inv s \<and> timely cfg s"
proof (induction rule: fleet_reachable.induct)
  case start
  show ?case by (simp add: fleet_inv_def timely_def) (simp add: fleet_start_def)
next
  case (step s op s')
  then show ?case using fleet_step_inv [of s cfg op s'] by blast
qed

section \<open>Nothing is acknowledged before it is written\<close>

text \<open>A store that keeps a record of the batches it has written.\<close>

definition recording ::
  "(audit_event list \<Rightarrow> 's \<Rightarrow> chained_event list result \<times> 's) \<Rightarrow> audit_event list \<Rightarrow> 's \<times> audit_event list list
   \<Rightarrow> chained_event list result \<times> 's \<times> audit_event list list" where
  "recording write es p =
     (let (res, s') = write es (fst p) in
      (res, s', case res of Inl e \<Rightarrow> snd p | Inr rows \<Rightarrow> snd p @ [es]))"

definition unrecorded ::
  "(chained_event list \<Rightarrow> 's \<Rightarrow> unit result \<times> 's) \<Rightarrow> chained_event list \<Rightarrow> 's \<times> audit_event list list
   \<Rightarrow> unit result \<times> 's \<times> audit_event list list" where
  "unrecorded announce rows p = (let (res, s') = announce rows (fst p) in (res, s', snd p))"

lemma recorded_delivery:
  assumes "deliver_to (recording write) (unrecorded announce) es p = (res, p')"
  shows "res = Inr u \<Longrightarrow> es \<in> set (snd p')" "set (snd p) \<subseteq> set (snd p')"
  using assms by (auto simp: deliver_to_def recording_def unrecorded_def Let_def sbind_def split: prod.splits sum.splits)

definition outbox_key :: "outbox_row \<Rightarrow> string \<times> jsval" where
  "outbox_key r = (rowId r, rowPayload r)"

text \<open>Rows come from \<open>rows0\<close>, and what has been processed since has been written.\<close>

definition written_ok :: "outbox_row list \<Rightarrow> ('s \<times> audit_event list list) outbox \<Rightarrow> bool" where
  "written_ok rows0 st \<longleftrightarrow>
     map outbox_key (obRows st) = map outbox_key rows0
     \<and> (\<forall>r \<in> set (obRows st). rowStatus r = Processed \<longrightarrow>
          (\<exists>r0 \<in> set rows0. rowId r0 = rowId r \<and> rowStatus r0 = Processed)
          \<or> (\<exists>es. normalizePayload (rowPayload r) = Inr es \<and> es \<in> set (snd (obSink st))))"

lemma written_ok_frame [simp]:
  "written_ok rows0 (st\<lparr>obTick := t\<rparr>) = written_ok rows0 st" "written_ok rows0 (st\<lparr>obPoison := q\<rparr>) = written_ok rows0 st"
  by (simp_all add: written_ok_def)

lemma update_where_keys: "(\<And>r. outbox_key (f r) = outbox_key r) \<Longrightarrow> map outbox_key (snd (update_where P f rows)) = map outbox_key rows"
  by (simp add: update_where_def)

lemma update_where_written:
  assumes "written_ok rows0 st" "\<And>r. outbox_key (f r) = outbox_key r"
    and "\<And>r. r \<in> set (obRows st) \<Longrightarrow> P r \<Longrightarrow> rowStatus (f r) = Processed \<Longrightarrow> \<exists>es. normalizePayload (rowPayload r) = Inr es \<and> es \<in> set (snd (obSink st))"
  shows "written_ok rows0 (st\<lparr>obRows := snd (update_where P f (obRows st))\<rparr>)"
proof -
  have k: "rowId (f r) = rowId r" "rowPayload (f r) = rowPayload r" for r using assms(2) [of r] by (simp_all add: outbox_key_def)
  have "map outbox_key (snd (update_where P f (obRows st))) = map outbox_key rows0"
    using assms(1) update_where_keys [OF assms(2)] by (simp add: written_ok_def)
  moreover have "(\<exists>r0 \<in> set rows0. rowId r0 = rowId r \<and> rowStatus r0 = Processed)
      \<or> (\<exists>es. normalizePayload (rowPayload r) = Inr es \<and> es \<in> set (snd (obSink st)))"
    if r: "r \<in> set (snd (update_where P f (obRows st)))" "rowStatus r = Processed" for r
  proof -
    obtain r1 where r1: "r1 \<in> set (obRows st)" "r = (if P r1 then f r1 else r1)" using r(1) by (auto simp: update_where_def)
    show ?thesis
    proof (cases "P r1")
      case True
      then show ?thesis using assms(3) [OF r1(1)] r(2) r1(2) k by simp
    next
      case False
      then show ?thesis using assms(1) r1 r(2) by (auto simp: written_ok_def)
    qed
  qed
  ultimately show ?thesis by (simp add: written_ok_def)
qed

lemma withSource_written:
  assumes "written_ok rows0 st" "withSource executor t (update_where P f) st = (res, st')" "\<And>r. outbox_key (f r) = outbox_key r"
    and "\<And>r. r \<in> set (obRows st) \<Longrightarrow> P r \<Longrightarrow> rowStatus (f r) = Processed \<Longrightarrow> \<exists>es. normalizePayload (rowPayload r) = Inr es \<and> es \<in> set (snd (obSink st))"
  shows "written_ok rows0 st' \<and> obSink st' = obSink st"
proof (cases "executor t")
  case None
  then have "st' = st\<lparr>obRows := snd (update_where P f (obRows st))\<rparr>" using assms(2) by (simp add: withSource_def split_beta)
  moreover have "written_ok rows0 (st\<lparr>obRows := snd (update_where P f (obRows st))\<rparr>)"
    by (rule update_where_written [OF assms(1,3)]) (erule assms(4))
  ultimately show ?thesis by simp
next
  case (Some e)
  then have "st' = st" using assms(2) by (simp add: withSource_def)
  then show ?thesis using assms(1) by simp
qed

lemma fail_written:
  assumes "written_ok rows0 st" "fail cfg executor onPoison clk r a e terminal st = (res, st')"
  shows "written_ok rows0 st'"
proof -
  let ?st = "st\<lparr>obTick := obTick st + 1\<rparr>"
  obtain n st1 where w: "withSource executor (rowTenant r) (fail_row cfg (rowId r) (clk (obTick st)) (gives_up cfg a terminal) (error_message e)) ?st = (n, st1)"
    by (rule prod.exhaust)
  have "written_ok rows0 st1 \<and> obSink st1 = obSink ?st"
    using assms(1) by (intro withSource_written [OF _ w [unfolded fail_row_def]]) (auto simp: outbox_key_def split: if_splits)
  then show ?thesis using assms(2) w by (auto simp: fail_def clock_def Let_def sbind_def split: sum.splits if_splits)
qed

lemma process_row_written:
  assumes "written_ok rows0 st" "keyed rows0" "r0 \<in> set rows0" "outbox_key r = outbox_key r0"
    and "process_row cfg executor onPoison clk (deliver_to (recording write) (unrecorded announce)) r st = (res, st')"
  shows "written_ok rows0 st'"
proof -
  let ?dl = "deliver_to (recording write) (unrecorded announce)" and ?a = "attempts_of r + 1"
  let ?st = "st\<lparr>obTick := obTick st + 1\<rparr>"
  obtain n st1 where w: "withSource executor (rowTenant r) (claim cfg (rowId r) (clk (obTick st)) ?a) ?st = (n, st1)" by (rule prod.exhaust)
  have st1: "written_ok rows0 st1"
    using assms(1) withSource_written [OF _ w [unfolded claim_def], of rows0] by (simp add: outbox_key_def)
  have same: "rowPayload x = rowPayload r" if ok: "written_ok rows0 s" and x: "x \<in> set (obRows s)" "rowId x = rowId r" for s :: "('a \<times> audit_event list list) outbox" and x
  proof -
    have "outbox_key x \<in> outbox_key ` set rows0" using ok x(1) unfolding written_ok_def by (metis list.set_map imageI)
    then obtain y where y: "y \<in> set rows0" "outbox_key x = outbox_key y" by blast
    then have "rowId y = rowId r0" using assms(4) x(2) by (simp add: outbox_key_def)
    then have "y = r0" using assms(2,3) y(1) by (auto simp: distinct_map dest: inj_onD)
    then show ?thesis using y(2) assms(4) by (simp add: outbox_key_def)
  qed
  show ?thesis
  proof (cases n)
    case (Inl e)
    then show ?thesis using assms(5) w st1 by (auto simp: process_row_def clock_def Let_def)
  next
    case (Inr k)
    show ?thesis
    proof (cases "k = 0")
      case True
      then show ?thesis using assms(5) w st1 Inr by (auto simp: process_row_def clock_def Let_def)
    next
      case k: False
      show ?thesis
      proof (cases "normalizePayload (rowPayload r)")
        case (Inl e)
        obtain x st2 where f: "fail cfg executor onPoison clk r ?a e True st1 = (x, st2)" by (rule prod.exhaust)
        then have "st' = st2" using assms(5) w Inr k Inl by (cases x) (auto simp: process_row_def clock_def Let_def)
        then show ?thesis using fail_written [OF st1 f] by simp
      next
        case (Inr es)
        obtain y st2 where d: "deliver_row executor clk ?dl r es st1 = (y, st2)" by (rule prod.exhaust)
        have st2: "written_ok rows0 st2"
        proof -
          obtain z p where p: "?dl es (obSink st1) = (z, p)" by (rule prod.exhaust)
          have sunk: "written_ok rows0 (st1\<lparr>obSink := p\<rparr>)"
            using st1 recorded_delivery(2) [OF p] by (fastforce simp: written_ok_def)
          show ?thesis
          proof (cases z)
            case (Inl e)
            then show ?thesis using d p sunk by (auto simp: deliver_row_def Let_def)
          next
            case z: (Inr u)
            let ?st2 = "st1\<lparr>obSink := p, obTick := obTick st1 + 1\<rparr>"
            obtain m st3 where a: "withSource executor (rowTenant r) (ack (rowId r) (clk (obTick st1))) ?st2 = (m, st3)" by (rule prod.exhaust)
            have ok: "written_ok rows0 ?st2" using sunk by simp
            have "written_ok rows0 st3 \<and> obSink st3 = obSink ?st2"
            proof (rule withSource_written [OF ok a [unfolded ack_def]])
              fix x assume x: "x \<in> set (obRows ?st2)" "rowId x = rowId r \<and> rowStatus x = Processing"
              then have "rowPayload x = rowPayload r" using same [OF ok] by simp
              then show "\<exists>es. normalizePayload (rowPayload x) = Inr es \<and> es \<in> set (snd (obSink ?st2))"
                using Inr recorded_delivery(1) [OF p z] by auto
            qed (simp add: outbox_key_def)
            then show ?thesis using d p z a by (cases m) (auto simp: deliver_row_def Let_def clock_def)
          qed
        qed
        show ?thesis
        proof (cases y)
          case (Inl e)
          obtain x st3 where f: "fail cfg executor onPoison clk r ?a e False st2 = (x, st3)" by (rule prod.exhaust)
          then have "st' = st3" using assms(5) w \<open>n = Inr k\<close> k Inr Inl d by (cases x) (auto simp: process_row_def clock_def Let_def)
          then show ?thesis using fail_written [OF st2 f] by simp
        next
          case y: (Inr v)
          then have "st' = st2" using assms(5) w \<open>n = Inr k\<close> k Inr d by (auto simp: process_row_def clock_def Let_def)
          then show ?thesis using st2 by simp
        qed
      qed
    qed
  qed
qed

lemma drain_rows_written:
  assumes "written_ok rows0 st" "keyed rows0" "list_all (\<lambda>r. outbox_key r \<in> outbox_key ` set rows0) rs"
    and "drain_rows cfg executor onPoison clk (deliver_to (recording write) (unrecorded announce)) rs st = (res, st')"
  shows "written_ok rows0 st'"
  using assms(1,3,4)
proof (induction rs arbitrary: st res)
  case (Cons r rs)
  obtain n st1 where p: "process_row cfg executor onPoison clk (deliver_to (recording write) (unrecorded announce)) r st = (n, st1)"
    by (rule prod.exhaust)
  obtain r0 where "r0 \<in> set rows0" "outbox_key r = outbox_key r0" using Cons.prems(2) by auto
  from process_row_written [OF Cons.prems(1) assms(2) this p] have st1: "written_ok rows0 st1" .
  show ?case
  proof (cases n)
    case (Inl e)
    then show ?thesis using Cons.prems(3) p st1 by auto
  next
    case (Inr k)
    obtain m st2 where q: "drain_rows cfg executor onPoison clk (deliver_to (recording write) (unrecorded announce)) rs st1 = (m, st2)"
      by (rule prod.exhaust)
    then have "st2 = st'" using Cons.prems(3) p Inr by (cases m) auto
    note q = q [unfolded this]
    have "list_all (\<lambda>r. outbox_key r \<in> outbox_key ` set rows0) rs" using Cons.prems(2) by simp
    from Cons.IH [OF st1 this q] show ?thesis .
  qed
qed simp

lemma drain_written:
  assumes "keyed (obRows st)" "drain cfg executor onPoison clk (recording write) (unrecorded announce) limit st = (res, st')"
  shows "written_ok (obRows st) st'"
proof (cases "obHasTable st")
  case True
  let ?st = "st\<lparr>obTick := obTick st + 1\<rparr>" and ?sel = "select_due cfg (clk (obTick st)) limit (obRows st)"
  have ok: "written_ok (obRows st) ?st" unfolding written_ok_def by simp blast
  have sel: "list_all (\<lambda>r. outbox_key r \<in> outbox_key ` set (obRows st)) ?sel"
    unfolding list_all_iff using select_due_mem by blast
  have "drain_rows cfg executor onPoison clk (deliver_to (recording write) (unrecorded announce)) ?sel ?st = (res, st')"
    using assms(2) True by (simp add: drain_def clock_def)
  from drain_rows_written [OF ok assms(1) sel this] show ?thesis .
next
  case False
  have "written_ok (obRows st) st" unfolding written_ok_def by simp blast
  then show ?thesis using assms(2) False by (simp add: drain_def)
qed

definition claimed_id :: "worker \<Rightarrow> string option" where
  "claimed_id w = map_option (\<lambda>j. rowId (jobRow j)) (wJob w)"

definition live_claims :: "fleet \<Rightarrow> string list" where
  "live_claims s = List.map_filter claimed_id (fWorkers s)"

lemma map_filter_distinct:
  assumes "\<And>i k x. i < length xs \<Longrightarrow> k < length xs \<Longrightarrow> g (xs ! i) = Some x \<Longrightarrow> g (xs ! k) = Some x \<Longrightarrow> i = k"
  shows "distinct (List.map_filter g xs)"
  using assms
proof (induction xs)
  case (Cons a xs)
  have "distinct (List.map_filter g xs)"
    using Cons.prems [of "Suc _" "Suc _"] by (intro Cons.IH) auto
  moreover have "y \<notin> set (List.map_filter g xs)" if y: "g a = Some y" for y
  proof
    assume "y \<in> set (List.map_filter g xs)"
    then obtain i where "i < length xs" "g (xs ! i) = Some y"
      by (auto simp: map_filter_def in_set_conv_nth)
    then show False using Cons.prems [of 0 "Suc i" y] y by simp
  qed
  ultimately show ?case by (simp add: List.map_filter_simps split: option.split)
qed (simp add: List.map_filter_simps)

section \<open>Properties\<close>

text \<open>
  C0: A drain settles every row it takes. With an executor and a poison handler that do not throw, a
  clock that does not run backwards and the table not touched by others meanwhile: the selected
  rows are delivered one after the other, and each has one attempt more. It is acknowledged exactly
  when its payload was valid and the store wrote and the notifier announced its events; it has
  failed for good, with the error recorded, when its payload was invalid or this was its last
  attempt, and the poison handler has been told of exactly these; otherwise it is pending again with
  the error recorded. The drain returns how many it acknowledged, and no other row has changed.
\<close>

theorem drain_settles_rows:
  assumes "reliable executor" "reliable onPoison" "mono clk" "obHasTable st" "keyed (obRows st)"
    and "sel = select_due cfg (clk (obTick st)) limit (obRows st)"
    and "deliveries (deliver_to write announce) sel (obSink st) = (os, sk)"
  shows "\<exists>st'. drain cfg executor onPoison clk write announce limit st = (Inr (count_list os Delivered), st')
    \<and> list_all2 (\<lambda>r oc. \<exists>r'. row_at (obRows st') (rowId r) = Some r' \<and> settled_as cfg r oc r') sel os
    \<and> (\<forall>i. i \<notin> rowId ` set sel \<longrightarrow> row_at (obRows st') i = row_at (obRows st) i)
    \<and> obSink st' = sk \<and> obPoison st' = obPoison st @ concat (map2 (given_up cfg) sel os)"
  using drain_settles [OF assms] by blast

text \<open>
  C17: No two drainers work on the same row at the same time, however their queries interleave with
  each other, with replays, insertions and crashes, as long as no claim is held longer than
  \<open>staleClaimMs\<close>: the ids of the rows claimed by the workers are distinct.
\<close>

theorem one_live_claim:
  assumes "fleet_reachable cfg n True s"
  shows "distinct (live_claims s)"
proof -
  have inv: "fleet_inv s" using fleet_reachable_inv [OF assms] by simp
  show ?thesis unfolding live_claims_def
  proof (rule map_filter_distinct)
    fix i k x assume a: "i < length (fWorkers s)" "k < length (fWorkers s)" "claimed_id (fWorkers s ! i) = Some x"
      "claimed_id (fWorkers s ! k) = Some x"
    then obtain j j' where "job_of s i = Some j" "job_of s k = Some j'" "rowId (jobRow j) = x" "rowId (jobRow j') = x"
      by (auto simp: claimed_id_def job_of_def)
    then show "i = k" using inv unfolding fleet_inv_def by metis
  qed
qed

text \<open>
  C0: Nothing is acknowledged before it is written: whatever the executor, the poison handler, the
  store or the notifier throws, and whenever, after a drain every row that is marked processed and
  was not before has a valid payload whose events the store has written during this drain.
\<close>

theorem processed_rows_written:
  assumes "keyed (obRows st)" "snd (obSink st) = []"
    and "drain cfg executor onPoison clk (recording write) (unrecorded announce) limit st = (res, st')"
    and "r \<in> set (obRows st')" "rowStatus r = Processed"
    and "\<not> (\<exists>r0 \<in> set (obRows st). rowId r0 = rowId r \<and> rowStatus r0 = Processed)"
  shows "\<exists>es. normalizePayload (rowPayload r) = Inr es \<and> es \<in> set (snd (obSink st'))"
  using drain_written [OF assms(1,3)] assms(4-6) unfolding written_ok_def by blast

fun fleet_run :: "outbox_config \<Rightarrow> fleet_op list \<Rightarrow> fleet \<Rightarrow> fleet option" where
  "fleet_run cfg [] s = Some s"
| "fleet_run cfg (p # ps) s = (case fleet_step cfg p s of None \<Rightarrow> None | Some s' \<Rightarrow> fleet_run cfg ps s')"

text \<open>The same run, checking after each step that every claim is young enough.\<close>

definition timely_now :: "outbox_config \<Rightarrow> fleet \<Rightarrow> bool" where
  "timely_now cfg s \<longleftrightarrow>
     list_all (\<lambda>w. case wJob w of None \<Rightarrow> True | Some j \<Rightarrow> fNow s \<le> jobClaimed j + staleClaimMs cfg) (fWorkers s)"

lemma timely_now_iff: "timely_now cfg s \<longleftrightarrow> timely cfg s"
  by (auto simp: timely_now_def timely_def job_of_def list_all_length split: option.splits)

fun timely_run :: "outbox_config \<Rightarrow> fleet_op list \<Rightarrow> fleet \<Rightarrow> fleet option" where
  "timely_run cfg [] s = Some s"
| "timely_run cfg (p # ps) s =
     (case fleet_step cfg p s of None \<Rightarrow> None
      | Some s' \<Rightarrow> if timely_now cfg s' then timely_run cfg ps s' else None)"

lemma timely_run_reachable: "fleet_reachable cfg n True s \<Longrightarrow> timely_run cfg ps s = Some s' \<Longrightarrow> fleet_reachable cfg n True s'"
  by (induction ps arbitrary: s)
     (auto simp: timely_now_iff split: option.splits if_splits intro: fleet_reachable.step)

lemma timely_run_start: "timely_run cfg ps (fleet_start n) = Some s \<Longrightarrow> fleet_reachable cfg n True s"
  using timely_run_reachable fleet_reachable.start by blast

definition sample_outbox_row :: "string \<Rightarrow> audit_event \<Rightarrow> outbox_row" where
  "sample_outbox_row i e =
     \<lparr>rowId = i, rowPayload = JObj [(''event'', JObj (event_obj e))], rowTenant = None, rowStatus = Pending,
      rowAttempts = Some 0, availableAt = 0, claimedAt = None, processedAt = None, failedAt = None, lastError = None\<rparr>"

definition sample_outbox_config :: outbox_config where
  "sample_outbox_config = outbox_config_of (Some 10) (Some 2) None"

definition the_state :: "fleet option \<Rightarrow> fleet" where
  "the_state s = (case s of Some x \<Rightarrow> x | None \<Rightarrow> fleet_start 0)"

definition sample_claimed :: fleet where
  "sample_claimed = the_state (timely_run sample_outbox_config
     [InsertRow (sample_outbox_row ''x'' sample_a), Select 0 9, Select 1 9, ClaimNext 0, ClaimNext 1] (fleet_start 2))"

lemma sample_claimed_run:
  "timely_run sample_outbox_config
     [InsertRow (sample_outbox_row ''x'' sample_a), Select 0 9, Select 1 9, ClaimNext 0, ClaimNext 1] (fleet_start 2)
   = Some sample_claimed"
  by code_simp

theorem one_live_claim_witness:
  "live_claims sample_claimed = [''x''] \<and> distinct (live_claims sample_claimed)"
proof
  show "live_claims sample_claimed = [''x'']" by code_simp
  show "distinct (live_claims sample_claimed)" by (rule one_live_claim [OF timely_run_start [OF sample_claimed_run]])
qed

text \<open>A table with a row that can be delivered and one whose payload is cut off.\<close>

definition cut_row :: outbox_row where
  "cut_row = (sample_outbox_row ''y'' sample_a)\<lparr>rowPayload := JStr ''{''\<rparr>"

definition sample_outbox :: "'s \<Rightarrow> 's outbox" where
  "sample_outbox s =
     \<lparr>obRows = [sample_outbox_row ''x'' sample_a, cut_row], obHasTable = True, obPoison = [], obSink = s, obTick = 0\<rparr>"

definition counting_write :: "audit_event list \<Rightarrow> nat \<Rightarrow> chained_event list result \<times> nat" where
  "counting_write es n = (Inr [], n + length es)"

definition silent_announce :: "chained_event list \<Rightarrow> 's \<Rightarrow> unit result \<times> 's" where
  "silent_announce rs n = (Inr (), n)"

lemma sample_selected:
  "select_due sample_outbox_config 0 9 [sample_outbox_row ''x'' sample_a, cut_row] = [sample_outbox_row ''x'' sample_a, cut_row]"
  by code_simp

lemma sample_deliveries:
  "deliveries (deliver_to counting_write silent_announce) [sample_outbox_row ''x'' sample_a, cut_row] 0
     = ([Delivered, Rejected (AuditOutboxPayloadError ''Outbox payload is not valid JSON'')], 1)"
  by code_simp

lemma sample_outbox_simps [simp]:
  "obHasTable (sample_outbox s)" "obTick (sample_outbox s) = 0" "obSink (sample_outbox s) = s" "obPoison (sample_outbox s) = []"
  "obRows (sample_outbox s) = [sample_outbox_row ''x'' sample_a, cut_row]" "keyed (obRows (sample_outbox s))"
  by (simp_all add: sample_outbox_def cut_row_def sample_outbox_row_def)

theorem drain_settles_rows_witness:
  "\<exists>st'. drain sample_outbox_config (\<lambda>_. None) (\<lambda>_. None) int counting_write silent_announce 9 (sample_outbox 0) = (Inr 1, st')
    \<and> map_option rowStatus (row_at (obRows st') ''x'') = Some Processed
    \<and> map_option rowStatus (row_at (obRows st') ''y'') = Some Failed
    \<and> obSink st' = 1 \<and> map fst (obPoison st') = [''y'']"
proof -
  have sel: "[sample_outbox_row ''x'' sample_a, cut_row]
      = select_due sample_outbox_config (int (obTick (sample_outbox (0 :: nat)))) 9 (obRows (sample_outbox (0 :: nat)))"
    by (simp add: sample_selected)
  have id: "rowId (sample_outbox_row ''x'' sample_a) = ''x''" "rowId cut_row = ''y''"
    by (simp_all add: cut_row_def sample_outbox_row_def)
  have r: "reliable (\<lambda>_. None)" "mono int" by (simp_all add: reliable_def mono_def)
  have d: "deliveries (deliver_to counting_write silent_announce) [sample_outbox_row ''x'' sample_a, cut_row] (obSink (sample_outbox 0))
      = ([Delivered, Rejected (AuditOutboxPayloadError ''Outbox payload is not valid JSON'')], 1)"
    using sample_deliveries by (simp only: sample_outbox_simps)
  let ?sel = "[sample_outbox_row ''x'' sample_a, cut_row]"
  obtain st' where st': "drain sample_outbox_config (\<lambda>_. None) (\<lambda>_. None) int counting_write silent_announce 9 (sample_outbox 0)
      = (Inr (count_list [Delivered, Rejected (AuditOutboxPayloadError ''Outbox payload is not valid JSON'')] Delivered), st')"
    "list_all2 (\<lambda>r oc. \<exists>r'. row_at (obRows st') (rowId r) = Some r' \<and> settled_as sample_outbox_config r oc r')
      ?sel [Delivered, Rejected (AuditOutboxPayloadError ''Outbox payload is not valid JSON'')]"
    "obSink st' = 1" "obPoison st' = obPoison (sample_outbox (0 :: nat)) @ concat (map2 (given_up sample_outbox_config) ?sel
      [Delivered, Rejected (AuditOutboxPayloadError ''Outbox payload is not valid JSON'')])"
    using drain_settles_rows [OF r(1) r(1) r(2) sample_outbox_simps(1) sample_outbox_simps(6) sel d] by blast
  obtain x y where xy: "row_at (obRows st') ''x'' = Some x" "rowStatus x = Processed"
    "row_at (obRows st') ''y'' = Some y" "rowStatus y = Failed"
    using st'(2) by (auto simp: settled_as_def id)
  have "drain sample_outbox_config (\<lambda>_. None) (\<lambda>_. None) int counting_write silent_announce 9 (sample_outbox 0) = (Inr 1, st')"
    using st'(1) by simp
  moreover have "map fst (obPoison st') = [''y'']" using st'(4) by (simp add: given_up_def id)
  ultimately show ?thesis using xy st'(3) by simp
qed

lemma sample_drained:
  "map rowStatus (obRows (snd (drain sample_outbox_config (\<lambda>_. Some (JsError ''gone'')) (\<lambda>_. None) int
     (recording counting_write) (unrecorded silent_announce) 9 (sample_outbox (0, []))))) = [Pending, Pending]"
  "map rowStatus (obRows (snd (drain sample_outbox_config (\<lambda>_. None) (\<lambda>_. Some (JsError ''poisoned'')) int
     (recording counting_write) (unrecorded silent_announce) 9 (sample_outbox (0, []))))) = [Processed, Failed]"
  by code_simp+

theorem processed_rows_written_witness:
  "\<exists>(r :: outbox_row) es. rowStatus r = Processed \<and> normalizePayload (rowPayload r) = Inr es
     \<and> es \<in> set (snd (obSink (snd (drain sample_outbox_config (\<lambda>_. None) (\<lambda>_. Some (JsError ''poisoned'')) int
         (recording counting_write) (unrecorded silent_announce) 9 (sample_outbox (0, []))))))"
proof -
  let ?d = "drain sample_outbox_config (\<lambda>_. None) (\<lambda>_. Some (JsError ''poisoned'')) int
         (recording counting_write) (unrecorded silent_announce) 9 (sample_outbox (0, []))"
  obtain r where r: "r \<in> set (obRows (snd ?d))" "rowStatus r = Processed"
    using sample_drained(2) by (cases "obRows (snd ?d)") auto
  have none: "\<not> (\<exists>r0 \<in> set (obRows (sample_outbox (0 :: nat, []))). rowId r0 = rowId r \<and> rowStatus r0 = Processed)"
    by (simp add: cut_row_def sample_outbox_row_def)
  have log: "snd (obSink (sample_outbox (0 :: nat, []))) = []" by simp
  from processed_rows_written [OF sample_outbox_simps(6) log prod.collapse [symmetric] r none]
  show ?thesis using r(2) by blast
qed

text \<open>
  \<open>ack\<close> and \<open>fail\<close> do not check who owns the claim. A drainer that is late (its claim was
  taken over) and then fails puts the row back although the new owner is still working on it, and
  the row is claimed again at once: two drainers hold claims of the same age on it.
\<close>

theorem late_worker_reopens:
  "map_option (\<lambda>s. map (\<lambda>w. map_option (\<lambda>j. (rowId (jobRow j), jobClaimed j)) (wJob w)) (fWorkers s))
     (fleet_run sample_outbox_config
        [InsertRow (sample_outbox_row ''x'' sample_a), Select 0 9, ClaimNext 0, TimePasses 11, Select 1 9, ClaimNext 1,
         FailJob 0 False ''timeout'', Select 0 9, ClaimNext 0] (fleet_start 2))
   = Some [Some (''x'', 11), Some (''x'', 11)]"
  by code_simp

text \<open>
  The attempt counter is computed from the row as it was selected, so attempts get lost: with
  \<open>maxAttempts = 2\<close> and two drainers that selected the same row, after two failed attempts the row
  is pending with one attempt counted instead of being given up.
\<close>

theorem attempts_lost:
  "map_option (\<lambda>s. map (\<lambda>r. (rowStatus r, rowAttempts r)) (fRows s))
     (timely_run sample_outbox_config
        [InsertRow (sample_outbox_row ''x'' sample_a), Select 0 9, Select 1 9, ClaimNext 0, FailJob 0 False ''down'',
         ClaimNext 1, FailJob 1 False ''down''] (fleet_start 2))
   = Some [(Pending, Some 1)] \<and> outboxMaxAttempts sample_outbox_config = 2"
  by code_simp

end
