(* ===== verification/Service.thy ===== *)
theory Service
  imports Pipeline Outbox
begin

text \<open>
  \<open>src/services/audit.ts\<close>, \<open>src/services/log_builder.ts\<close> and \<open>src/stores/store_manager.ts\<close>: from
  a log call to the pipeline or to a row of the transactional outbox. A submission that has to
  wait (for room in the buffer, for a coupled flush) returns what it waits for; \<open>after_enqueue\<close>
  and \<open>after_flush\<close> are its continuations.
\<close>

section \<open>Store manager\<close>

text \<open>
  The configured stores are a plain object, so a name that is not configured but is a member of
  \<open>Object.prototype\<close> finds that member, which is not a store.
\<close>

definition object_members :: "string list" where
  "object_members = [''constructor'', ''hasOwnProperty'', ''isPrototypeOf'', ''propertyIsEnumerable'', ''toLocaleString'',
     ''toString'', ''valueOf'', ''__proto__'', ''__defineGetter__'', ''__defineSetter__'', ''__lookupGetter__'', ''__lookupSetter__'']"

datatype 's store_ref = Configured 's | Inherited string

record 's store_manager =
  smStores :: "(string \<times> 's) list"
  smDefault :: string
  smWithConnection :: "'s \<Rightarrow> (string \<Rightarrow> 's) option"

definition use :: "'s store_manager \<Rightarrow> string option \<Rightarrow> string option \<Rightarrow> 's store_ref result" where
  "use m name connection =
     (let storeName = (case name of Some n \<Rightarrow> n | None \<Rightarrow> smDefault m);
          unsupported = AuditStoreConnectionError (''Audit store \"'' @ storeName @ ''\" does not support connection selection'') in
      case map_of (smStores m) storeName of
        None \<Rightarrow>
          if storeName \<in> set object_members
          then (if connection = None then Inr (Inherited storeName) else Inl unsupported)
          else Inl (AuditStoreError (''Audit store \"'' @ storeName @ ''\" is not configured''))
      | Some s \<Rightarrow>
          (case connection of
             None \<Rightarrow> Inr (Configured s)
           | Some c \<Rightarrow> (case smWithConnection m s of Some f \<Rightarrow> Inr (Configured (f c)) | None \<Rightarrow> Inl unsupported)))"

definition routed_name :: "'s store_manager \<Rightarrow> audit_event \<Rightarrow> string" where
  "routed_name m e =
     (case metadata e of None \<Rightarrow> smDefault m
      | Some fs \<Rightarrow> (case map_of fs ''auditStore'' of Some (JStr s) \<Rightarrow> s | _ \<Rightarrow> smDefault m))"

definition route :: "'s store_manager \<Rightarrow> audit_event \<Rightarrow> (string \<times> 's store_ref) result" where
  "route m e = rmap (Pair (routed_name m e)) (use m (Some (routed_name m e)) None)"

section \<open>Log builder\<close>

datatype submission_source = DomainSource | ModelSource | AuthSource

record log_builder =
  lbEvent :: string
  lbSource :: submission_source
  lbAuditableType :: "string option"
  lbAuditableId :: "string option"
  lbOldValues :: "jsobj option"
  lbNewValues :: "jsobj option"
  lbMetadata :: "jsobj option"
  lbTags :: "string list"
  lbActor :: "audit_actor option"
  lbTransaction :: bool

definition new_log :: "string \<Rightarrow> submission_source \<Rightarrow> log_builder" where
  "new_log event source =
     \<lparr>lbEvent = event, lbSource = source, lbAuditableType = None, lbAuditableId = None, lbOldValues = None,
      lbNewValues = None, lbMetadata = None, lbTags = [], lbActor = None, lbTransaction = False\<rparr>"

record log_model =
  lmClass :: string
  lmPrimaryKey :: "string option"
  lmPrimaryKeyValue :: jsval
  lmAttributes :: "jsobj option"
  lmId :: jsval

definition coalesce :: "jsval \<Rightarrow> jsval \<Rightarrow> jsval" where
  "coalesce v w = (if nullish v then w else v)"

definition model_id :: "log_model \<Rightarrow> jsval" where
  "model_id m =
     (let primaryKey = (case lmPrimaryKey m of None \<Rightarrow> ''id'' | Some k \<Rightarrow> k);
          attribute = (case lmAttributes m of None \<Rightarrow> JUndefined | Some fs \<Rightarrow> field primaryKey (JObj fs)) in
      coalesce (coalesce attribute (lmPrimaryKeyValue m)) (lmId m))"

definition log_on :: "log_model \<Rightarrow> log_builder \<Rightarrow> log_builder result" where
  "log_on m b =
     (if nullish (model_id m) then Inl (JsError (''Cannot audit '' @ lmClass m @ '' without a primary key value''))
      else Inr (b\<lparr>lbAuditableType := Some (lmClass m), lbAuditableId := Some (prim_string (model_id m))\<rparr>))"

definition onRef :: "string \<Rightarrow> string \<Rightarrow> log_builder \<Rightarrow> log_builder" where
  "onRef type i b = b\<lparr>lbAuditableType := Some type, lbAuditableId := Some i\<rparr>"

definition withTransaction :: "log_builder \<Rightarrow> log_builder" where
  "withTransaction b = b\<lparr>lbTransaction := True\<rparr>"

definition log_by :: "audit_actor \<Rightarrow> log_builder \<Rightarrow> log_builder" where
  "log_by a b = b\<lparr>lbActor := Some a\<rparr>"

definition withMeta :: "jsobj \<Rightarrow> log_builder \<Rightarrow> log_builder" where
  "withMeta fs b = b\<lparr>lbMetadata := Some fs\<rparr>"

definition withOld :: "jsobj \<Rightarrow> log_builder \<Rightarrow> log_builder" where
  "withOld fs b = b\<lparr>lbOldValues := Some fs\<rparr>"

definition withNew :: "jsobj \<Rightarrow> log_builder \<Rightarrow> log_builder" where
  "withNew fs b = b\<lparr>lbNewValues := Some fs\<rparr>"

definition log_tag :: "string list \<Rightarrow> log_builder \<Rightarrow> log_builder" where
  "log_tag ts b = b\<lparr>lbTags := lbTags b @ ts\<rparr>"

definition toAssembleInput :: "log_builder \<Rightarrow> assemble_input" where
  "toAssembleInput b =
     \<lparr>inEvent = lbEvent b, inAuditableType = lbAuditableType b, inAuditableId = lbAuditableId b,
      inOldValues = lbOldValues b, inNewValues = lbNewValues b, inMetadata = lbMetadata b,
      inTags = Some (lbTags b), inActor = lbActor b\<rparr>"

section \<open>Submission\<close>

record 's service_config =
  svAssemble :: "'s assemble_config"
  svGuarantee :: guarantee_mode
  svEmitter :: bool
  svPipeline :: pipe_config
  svRoute :: "audit_event \<Rightarrow> string option"
  svRedactor :: "(jsobj \<Rightarrow> jsobj result) option"

record service =
  svPipe :: pipe_state
  svOutbox :: "outbox_row list"
  svReported :: "(audit_event \<times> audit_error \<times> submission_source) list"

datatype submit_result = Returned | Thrown audit_error | AwaitsCapacity | AwaitsFlush nat

definition empty_context :: audit_context where
  "empty_context =
     \<lparr>ctxActor = NoActor, ctxTenantId = JUndefined, ctxRequestId = None, ctxCorrelationId = None, ctxIp = None,
      ctxUserAgent = None, ctxUrl = None, ctxHttpMethod = None\<rparr>"

definition assemble ::
  "(string \<Rightarrow> string) \<Rightarrow> 's service_config \<Rightarrow> audit_context option \<Rightarrow> assemble_input \<Rightarrow> fresh \<Rightarrow> 's \<Rightarrow> audit_event result \<times> 's" where
  "assemble H cfg ctx inp fr st =
     assembleEvent H inp (case ctx of None \<Rightarrow> empty_context | Some c \<Rightarrow> c) (svAssemble cfg) fr st"

definition reportError :: "'s service_config \<Rightarrow> audit_event \<Rightarrow> audit_error \<Rightarrow> submission_source \<Rightarrow> service \<Rightarrow> service" where
  "reportError cfg e err source sv = (if svEmitter cfg then sv\<lparr>svReported := svReported sv @ [(e, err, source)]\<rparr> else sv)"

definition throw_reported :: "'s service_config \<Rightarrow> audit_event \<Rightarrow> submission_source \<Rightarrow> audit_error \<Rightarrow> service \<Rightarrow> submit_result \<times> service" where
  "throw_reported cfg e source err sv = (Thrown err, reportError cfg e err source sv)"

text \<open>The row of the outbox; \<open>rid\<close> is a fresh UUID, \<open>now\<close> the clock.\<close>

definition outbox_row_of :: "string \<Rightarrow> int \<Rightarrow> audit_event \<Rightarrow> outbox_row result" where
  "outbox_row_of rid now e =
     rmap (\<lambda>t. \<lparr>rowId = rid, rowPayload = JStr (case t of Some s \<Rightarrow> s | None \<Rightarrow> []), rowTenant = tenantId e,
        rowStatus = Pending, rowAttempts = Some 0, availableAt = now, claimedAt = None, processedAt = None,
        failedAt = None, lastError = None\<rparr>)
     (json_str (JObj [(''event'', JObj (event_obj e))]))"

text \<open>\<open>insert\<close> is what the insertion does: \<open>None\<close>, or the error of the database.\<close>

definition submit_outbox ::
  "'s service_config \<Rightarrow> string \<Rightarrow> int \<Rightarrow> (outbox_row \<Rightarrow> audit_error option) \<Rightarrow> audit_event \<Rightarrow> bool \<Rightarrow> submission_source
   \<Rightarrow> service \<Rightarrow> submit_result \<times> service" where
  "submit_outbox cfg rid now insert_row e tx source sv =
     (if \<not> tx then throw_reported cfg e source transaction_required_error sv
      else case outbox_row_of rid now e of
        Inl err \<Rightarrow> throw_reported cfg e source err sv
      | Inr r \<Rightarrow>
          (case insert_row r of
             Some err \<Rightarrow> throw_reported cfg e source err sv
           | None \<Rightarrow> (Returned, sv\<lparr>svOutbox := svOutbox sv @ [r]\<rparr>)))"

definition after_enqueue ::
  "'s service_config \<Rightarrow> nat \<Rightarrow> audit_event \<Rightarrow> submission_source \<Rightarrow> bool \<Rightarrow> bool \<Rightarrow> service \<Rightarrow> submit_result \<times> service" where
  "after_enqueue cfg w e source forceCoupled taken sv =
     (if \<not> taken then
        (if svGuarantee cfg \<noteq> BestEffort then throw_reported cfg e source dropped_error sv else (Returned, sv))
      else if forceCoupled \<or> svGuarantee cfg = RequestCoupled
      then (AwaitsFlush w, sv\<lparr>svPipe := requestCoupledFlush (svPipeline cfg) (svRoute cfg) w [eventId e] (svPipe sv)\<rparr>)
      else (Returned, sv))"

definition after_flush :: "'s service_config \<Rightarrow> nat \<Rightarrow> audit_event \<Rightarrow> submission_source \<Rightarrow> service \<Rightarrow> submit_result \<times> service" where
  "after_flush cfg w e source sv =
     (if Released w \<in> set (pOut (svPipe sv)) then (Returned, sv)
      else if TimedOut w \<in> set (pOut (svPipe sv)) then throw_reported cfg e source coupled_timeout_error sv
      else (AwaitsFlush w, sv))"

definition submit ::
  "'s service_config \<Rightarrow> string \<Rightarrow> int \<Rightarrow> nat \<Rightarrow> (outbox_row \<Rightarrow> audit_error option) \<Rightarrow> audit_event \<Rightarrow> bool \<Rightarrow> submission_source
   \<Rightarrow> bool \<Rightarrow> service \<Rightarrow> submit_result \<times> service" where
  "submit cfg rid now w insert_row e tx source forceCoupled sv =
     (if svGuarantee cfg = TransactionalOutbox then submit_outbox cfg rid now insert_row e tx source sv
      else
        (let (res, p) = enqueue (svPipeline cfg) (svRoute cfg) (svRedactor cfg) e (svPipe sv); sv = sv\<lparr>svPipe := p\<rparr> in
         case res of
           Threw err \<Rightarrow> throw_reported cfg e source err sv
         | Blocked \<Rightarrow> (AwaitsCapacity, sv)
         | Taken \<Rightarrow> after_enqueue cfg w e source forceCoupled True sv
         | Refused \<Rightarrow> after_enqueue cfg w e source forceCoupled False sv))"

text \<open>\<open>emitLog\<close> and \<open>emitLogSync\<close>; an error of the assembly is thrown without a report.\<close>

definition emitLog ::
  "(string \<Rightarrow> string) \<Rightarrow> 's service_config \<Rightarrow> audit_context option \<Rightarrow> fresh \<Rightarrow> string \<Rightarrow> int \<Rightarrow> nat \<Rightarrow> (outbox_row \<Rightarrow> audit_error option)
   \<Rightarrow> bool \<Rightarrow> log_builder \<Rightarrow> 's \<Rightarrow> service \<Rightarrow> submit_result \<times> 's \<times> service" where
  "emitLog H cfg ctx fr rid now w insert_row sync b st sv =
     (case assemble H cfg ctx (toAssembleInput b) fr st of
        (Inl err, st) \<Rightarrow> (Thrown err, st, sv)
      | (Inr e, st) \<Rightarrow>
          (let (res, sv) = submit cfg rid now w insert_row e (lbTransaction b) (lbSource b) sync sv in (res, st, sv)))"

section \<open>The outbox keeps the event\<close>

lemma actor_obj_wf: "js_wf (JObj (actor_obj a))"
proof -
  have "\<not> is_index_key k" if "k \<in> {''type'', ''id'', ''label''}" for k
    using that by (auto simp: is_index_key_def is_digit_def char_code_def)
  moreover have "js_wf (opt_str x)" for x by (cases x) (simp_all add: opt_str_def)
  ultimately show ?thesis
    by (cases "actorLabel a") (simp_all add: actor_obj_def props_ok_def key_before_def)
qed

lemma event_obj_wf: "payloads_wf e \<Longrightarrow> js_wf (JObj (event_obj e))"
proof -
  assume w: "payloads_wf e"
  have i: "\<not> is_index_key k" if "k \<in> {''id'', ''event'', ''stream'', ''auditableType'', ''auditableId'', ''oldValues'',
    ''newValues'', ''metadata'', ''actor'', ''tenantId'', ''requestId'', ''correlationId'', ''ipAddress'', ''userAgent'',
    ''url'', ''httpMethod'', ''tags'', ''schemaVersion'', ''createdAt''}" for k
    using that by (auto simp: is_index_key_def is_digit_def char_code_def)
  show ?thesis using w i actor_obj_wf [of "actor e"]
    by (simp add: event_obj_def payloads_wf_def props_ok_def key_before_def list_all_iff)
qed

lemma event_obj_ok: "canonical_ok (JObj (event_obj e)) \<longleftrightarrow> hashable e"
  using actor_obj_ok [of "actor e"]
  by (simp add: event_obj_def hashable_def is_plain_def list_all_iff)

lemma normalize_event:
  assumes "json_parse t = Inr (JObj [(''event'', JObj (event_obj e))])" "schemaVersion e = ''1''"
  shows "normalizePayload (JStr t) = Inr [e]"
  using assms isAuditEvent_prefix [of e "[]"]
  by (simp add: normalizePayload_def parseJsonPayload_def payload_events_def isRecord_def)

lemma stored_event_fields [simp]: "schemaVersion (stored_event e) = schemaVersion e"
  by (simp add: stored_event_def)

lemma outbox_row_event:
  assumes "hashable e" "payloads_wf e" "schemaVersion e = ''1''"
  shows "\<exists>r. outbox_row_of rid now e = Inr r \<and> rowId r = rid \<and> rowStatus r = Pending \<and> availableAt r = now
    \<and> normalizePayload (rowPayload r) = Inr [stored_event e]"
proof -
  let ?v = "JObj [(''event'', JObj (event_obj e))]"
  have ok: "canonical_ok ?v" using event_obj_ok [of e] assms(1)
    by (simp add: is_plain_def del: canonical_ok.simps(1)) (simp add: is_plain_def)
  have wf: "js_wf ?v" using event_obj_wf [OF assms(2)] by (simp add: props_ok_def)
  obtain t where t: "json_str ?v = Inr (Some t)" "json_parse t = Inr (json_image (stored ?v))"
    using stored_text(1) [OF ok wf] by blast
  have "json_image (stored ?v) = JObj [(''event'', JObj (event_obj (stored_event e)))]"
    by (simp add: stored_JObj stored_event_obj del: stored.simps(1) json_image.simps(1))
  then have "normalizePayload (JStr t) = Inr [stored_event e]"
    using t(2) assms(3) by (intro normalize_event) simp_all
  then show ?thesis using t(1) by (simp add: outbox_row_of_def del: json_str.simps)
qed

text \<open>A drain with room for all due rows takes the new one, whatever becomes of the others.\<close>

lemma select_all_due:
  assumes "length (filter (due t (t - staleClaimMs cfg)) rows) < limit" "due t (t - staleClaimMs cfg) r"
  shows "r \<in> set (select_due cfg t limit (rows @ [r]))"
  using assms by (simp add: select_due_def)

lemma deliveries_outcomes:
  "list_all2 (\<lambda>r oc. \<exists>s. oc = fst (attempt dl r s)) rs (fst (deliveries dl rs s))"
proof (induction rs arbitrary: s)
  case (Cons r rs)
  then show ?case by (auto simp: split_beta Let_def)
qed simp

lemma recording_delivers:
  assumes "\<exists>s'. deliver_to write announce es (fst p) = (Inr (), s')"
  shows "\<exists>p'. deliver_to (recording write) (unrecorded announce) es p = (Inr (), p')"
  using assms by (auto simp: deliver_to_def recording_def unrecorded_def Let_def sbind_def split: prod.splits sum.splits)

lemma drain_new_row:
  assumes "reliable executor" "reliable onPoison" "mono clk" "obHasTable st" "keyed (obRows st)" "snd (obSink st) = []"
    and "obRows st = rows @ [r]" "rowStatus r = Pending" "availableAt r \<le> clk (obTick st)"
    and "length (filter (due (clk (obTick st)) (clk (obTick st) - staleClaimMs cfg)) rows) < limit"
    and "normalizePayload (rowPayload r) = Inr es" "\<And>s. \<exists>s'. deliver_to write announce es s = (Inr (), s')"
  shows "\<exists>n st' r'. drain cfg executor onPoison clk (recording write) (unrecorded announce) limit st = (Inr n, st')
    \<and> row_at (obRows st') (rowId r) = Some r' \<and> rowStatus r' = Processed \<and> es \<in> set (snd (obSink st'))"
proof -
  let ?t = "clk (obTick st)" and ?dl = "deliver_to (recording write) (unrecorded announce)"
  let ?sel = "select_due cfg ?t limit (obRows st)"
  have "due ?t (?t - staleClaimMs cfg) r" using assms(8,9) by (simp add: due_def)
  then have sel: "r \<in> set ?sel" using select_all_due [OF assms(10)] assms(7) by simp
  obtain os sk where d: "deliveries ?dl ?sel (obSink st) = (os, sk)" by (rule prod.exhaust)
  from drain_settles [OF assms(1-5) refl d] obtain st' where st':
    "drain cfg executor onPoison clk (recording write) (unrecorded announce) limit st = (Inr (count_list os Delivered), st')"
    "list_all2 (\<lambda>r oc. \<exists>r'. row_at (obRows st') (rowId r) = Some r' \<and> settled_as cfg r oc r') ?sel os"
    by blast
  obtain i where i: "i < length ?sel" "?sel ! i = r" using sel by (auto simp: in_set_conv_nth)
  obtain s where "os ! i = fst (attempt ?dl r s)"
    using list_all2_nthD [OF deliveries_outcomes i(1), of ?dl "obSink st"] i(2) d by auto
  moreover obtain p' where "?dl es s = (Inr (), p')" using recording_delivers [of "write" announce es s] assms(12) by blast
  ultimately have "os ! i = Delivered" using assms(11) by (simp add: attempt_def)
  then obtain r' where r': "row_at (obRows st') (rowId r) = Some r'" "settled_as cfg r Delivered r'"
    using list_all2_nthD [OF st'(2) i(1)] i(2) by auto
  have done_now: "r' \<in> set (obRows st')" "rowStatus r' = Processed" "rowId r' = rowId r" "rowPayload r' = rowPayload r"
    using row_at_mem [OF r'(1)] r'(2) by (simp_all add: settled_as_def)
  have "\<not> (\<exists>r0 \<in> set (obRows st). rowId r0 = rowId r' \<and> rowStatus r0 = Processed)"
    using assms(5,7,8) done_now(3) by (auto simp: image_iff)
  then have "es \<in> set (snd (obSink st'))"
    using drain_written [OF assms(5) st'(1)] done_now assms(11) unfolding written_ok_def by auto
  then show ?thesis using st'(1) r'(1) done_now(2) by blast
qed

section \<open>What a submission does\<close>

lemma begin_flush_out [simp]: "pOut (begin_flush cfg rt st) = pOut st"
  by (simp add: begin_flush_def next_group_def Let_def split: option.split)

lemma coupled_out [simp]: "pOut (requestCoupledFlush cfg rt w ids st) = pOut st"
  by (simp add: requestCoupledFlush_def)

text \<open>What a step has added to the pipeline's output.\<close>

definition new_out :: "pipe_state \<Rightarrow> pipe_state \<Rightarrow> pipe_out list" where
  "new_out p p' = drop (length (pOut p)) (pOut p')"

lemma accept_event_out:
  "accept_event cfg rt e st = (res, st') \<Longrightarrow>
     res = Taken \<and> pOut st' = pOut st @ [Accepted e] \<or> res = Refused \<and> \<not> pAccepting st \<and> pOut st' = pOut st"
  by (auto simp: accept_event_def Let_def split: if_splits)

lemma dropOldest_out: "dropOldest st = (d, st') \<Longrightarrow> pOut st' = pOut st \<and> pAccepting st' = pAccepting st"
  by (auto simp: dropOldest_def Let_def split: prod.splits)

lemma enqueue_loop_out:
  assumes "enqueue_loop cfg rt e st = (res, st')"
  shows "(case res of
      Taken \<Rightarrow> Accepted e \<in> set (new_out st st')
    | Refused \<Rightarrow> (new_out st st' = [AnnouncedDrop DropNew (Some e)] \<or> \<not> pAccepting st) \<and> (\<forall>x. Accepted x \<notin> set (new_out st st'))
    | Blocked \<Rightarrow> e \<in> set (pBlocked st')
    | Threw err \<Rightarrow> False)"
proof (cases "ringSize (pRing st) < int (pipeCapacity cfg)")
  case True
  then show ?thesis using assms accept_event_out [of cfg rt e st res st'] by (auto simp: enqueue_loop_def new_out_def)
next
  case False
  show ?thesis
  proof (cases "overflow cfg")
    case DropOldest
    obtain d st1 where d: "dropOldest st = (d, st1)" by (rule prod.exhaust)
    have "accept_event cfg rt e (emit (AnnouncedDrop DropOldest d) st1) = (res, st')"
      using assms False DropOldest d by (simp add: enqueue_loop_def)
    from accept_event_out [OF this] show ?thesis using dropOldest_out [OF d] by (auto simp: new_out_def)
  next
    case DropNew
    then show ?thesis using assms False by (auto simp: enqueue_loop_def Let_def new_out_def)
  next
    case Block
    then show ?thesis using assms False by (auto simp: enqueue_loop_def Let_def new_out_def split: if_splits)
  qed
qed

section \<open>Properties\<close>

text \<open>
  C0: The transactional outbox carries an event from the submission to the store: \<open>submit\<close> appends one
  pending row to the table, and the next drain after the commit hands the store an event with the
  same hashed text (\<open>undefined\<close> properties of its payloads are gone) and marks the row processed,
  whatever becomes of the other rows, provided fewer than \<open>limit\<close> rows were due before it, the
  store and the notifier take the event, and the executor and the poison handler do not throw.
\<close>

theorem outbox_end_to_end:
  assumes "svGuarantee cfg = TransactionalOutbox" "hashable e" "payloads_wf e" "schemaVersion e = ''1''"
    and "keyed (svOutbox sv)" "rid \<notin> rowId ` set (svOutbox sv)" "obHasTable ob" "snd (obSink ob) = []"
    and "reliable executor" "reliable onPoison" "mono clk" "now \<le> clk (obTick ob)"
    and "length (filter (due (clk (obTick ob)) (clk (obTick ob) - staleClaimMs ocfg)) (svOutbox sv)) < limit"
    and "\<And>s. \<exists>s'. deliver_to write announce [stored_event e] s = (Inr (), s')"
  shows "\<exists>sv' n st' r'. submit cfg rid now w (\<lambda>_. None) e True source forceCoupled sv = (Returned, sv')
    \<and> length (svOutbox sv') = length (svOutbox sv) + 1
    \<and> drain ocfg executor onPoison clk (recording write) (unrecorded announce) limit (ob\<lparr>obRows := svOutbox sv'\<rparr>) = (Inr n, st')
    \<and> row_at (obRows st') rid = Some r' \<and> rowStatus r' = Processed
    \<and> [stored_event e] \<in> set (snd (obSink st')) \<and> hashed_text (stored_event e) k p = hashed_text e k p"
proof -
  obtain r where r: "outbox_row_of rid now e = Inr r" "rowId r = rid" "rowStatus r = Pending" "availableAt r = now"
    "normalizePayload (rowPayload r) = Inr [stored_event e]"
    using outbox_row_event [OF assms(2-4), of rid now] by blast
  let ?sv = "sv\<lparr>svOutbox := svOutbox sv @ [r]\<rparr>" and ?ob = "ob\<lparr>obRows := svOutbox sv @ [r]\<rparr>"
  have sub: "submit cfg rid now w (\<lambda>_. None) e True source forceCoupled sv = (Returned, ?sv)"
    using assms(1) r(1) by (simp add: submit_def submit_outbox_def)
  have "\<exists>n st' r'. drain ocfg executor onPoison clk (recording write) (unrecorded announce) limit ?ob = (Inr n, st')
    \<and> row_at (obRows st') (rowId r) = Some r' \<and> rowStatus r' = Processed \<and> [stored_event e] \<in> set (snd (obSink st'))"
    by (rule drain_new_row [where rows = "svOutbox sv"]) (use assms r in auto)
  then obtain n st' r' where dr: "drain ocfg executor onPoison clk (recording write) (unrecorded announce) limit ?ob = (Inr n, st')"
    "row_at (obRows st') rid = Some r'" "rowStatus r' = Processed" "[stored_event e] \<in> set (snd (obSink st'))"
    using r(2) by auto
  show ?thesis using sub dr stored_event_text(3) [OF assms(2,3)]
    by (intro exI [of _ ?sv] exI [of _ n] exI [of _ st'] exI [of _ r']) simp
qed

definition sample_service :: "guarantee_mode \<Rightarrow> unit service_config" where
  "sample_service g =
     \<lparr>svAssemble = sample_config, svGuarantee = g, svEmitter = True, svPipeline = sample_pipe 2 2 DropNew,
      svRoute = to_default, svRedactor = None\<rparr>"

definition idle_service :: service where
  "idle_service = \<lparr>svPipe = pipe_new (sample_pipe 2 2 DropNew), svOutbox = [], svReported = []\<rparr>"

lemma sample_hashable: "hashable sample_b" "schemaVersion sample_b = ''1''"
  by code_simp+

lemma counting_delivers: "\<exists>n'. deliver_to counting_write silent_announce es n = (Inr (), n')"
  by (simp add: deliver_to_def counting_write_def silent_announce_def)

text \<open>The new row joins a row whose payload is cut off.\<close>

definition waiting_service :: service where
  "waiting_service = idle_service\<lparr>svOutbox := [cut_row]\<rparr>"

theorem outbox_end_to_end_witness:
  "\<exists>sv' n st' r'. submit (sample_service TransactionalOutbox) ''r1'' 5 0 (\<lambda>_. None) sample_b True DomainSource False waiting_service = (Returned, sv')
    \<and> length (svOutbox sv') = length (svOutbox waiting_service) + 1
    \<and> drain sample_outbox_config (\<lambda>_. None) (\<lambda>_. None) (\<lambda>k. 5 + int k) (recording counting_write) (unrecorded silent_announce) 9
        ((sample_outbox (0, []))\<lparr>obRows := svOutbox sv'\<rparr>) = (Inr n, st')
    \<and> row_at (obRows st') ''r1'' = Some r' \<and> rowStatus r' = Processed
    \<and> [stored_event sample_b] \<in> set (snd (obSink st'))
    \<and> hashed_text (stored_event sample_b) 1 GENESIS = hashed_text sample_b 1 GENESIS"
  by (rule outbox_end_to_end [OF _ sample_hashable(1) sample_wf(2) sample_hashable(2) _ _ _ _ _ _ _ _ _ counting_delivers])
     (simp_all add: sample_service_def mono_def reliable_def waiting_service_def cut_row_def sample_outbox_row_def)


lemma sample_submission:
  "submit (sample_service RequestCoupled) ''r1'' 5 7 (\<lambda>_. None) sample_b False DomainSource False idle_service
   = (AwaitsFlush 7, snd (submit (sample_service RequestCoupled) ''r1'' 5 7 (\<lambda>_. None) sample_b False DomainSource False idle_service))"
  by code_simp


end
