(* ===== verification/Capture.thy ===== *)
theory Capture
  imports Service
begin

text \<open>
  Where events and their context come from at run time: \<open>src/audit_context.ts\<close> (the ambient
  context), \<open>src/middleware/audit_context_middleware.ts\<close> (the context of an HTTP request) and
  \<open>src/listeners/auth_listener.ts\<close> (authentication events). A user object is a value whose
  property list holds its readable properties, accessors included.
\<close>

section \<open>The ambient context\<close>

text \<open>The stores of the enclosing \<open>run\<close> calls, the innermost first.\<close>

type_synonym context_stack = "audit_context list"

definition ctx_run :: "audit_context \<Rightarrow> (context_stack \<Rightarrow> 'a \<times> context_stack) \<Rightarrow> context_stack \<Rightarrow> 'a \<times> context_stack" where
  "ctx_run store f st = (let (x, st') = f (store # st) in (x, tl st'))"

definition ctx_get :: "context_stack \<Rightarrow> audit_context option" where
  "ctx_get st = (case st of [] \<Rightarrow> None | c # cs \<Rightarrow> Some c)"

definition ctx_set :: "(audit_context \<Rightarrow> audit_context) \<Rightarrow> context_stack \<Rightarrow> context_stack" where
  "ctx_set patch st = (case st of [] \<Rightarrow> [] | c # cs \<Rightarrow> patch c # cs)"

section \<open>The request middleware\<close>

record audit_user =
  userId :: jsval
  userEmail :: "string option"
  userUsername :: "string option"

text \<open>\<open>ctx.auth\<close>: whether \<open>authenticate\<close> throws, and the user afterwards.\<close>

record auth_context =
  authThrows :: bool
  authUser :: "audit_user option"

record http_request =
  reqId :: "string option"
  reqIp :: string
  reqUserAgent :: "string option"
  reqUrl :: string
  reqMethod :: string
  reqCorrelation :: "string option"
  reqAuth :: "auth_context option"

definition system_actor :: audit_actor where
  "system_actor = \<lparr>actorType = ''system'', actorId = None, actorLabel = None\<rparr>"

definition first_some :: "'a option \<Rightarrow> 'a option \<Rightarrow> 'a option" where
  "first_some x y = (case x of None \<Rightarrow> y | Some _ \<Rightarrow> x)"

definition resolveActorFromAuth :: "auth_context option \<Rightarrow> audit_actor" where
  "resolveActorFromAuth a =
     (case a of
        None \<Rightarrow> system_actor
      | Some au \<Rightarrow>
          if authThrows au then system_actor
          else (case authUser au of
              None \<Rightarrow> system_actor
            | Some u \<Rightarrow> \<lparr>actorType = ''user'', actorId = Some (prim_string (coalesce (userId u) JNull)),
                actorLabel = Some (first_some (userEmail u) (userUsername u))\<rparr>))"

definition tenant_error :: audit_error where
  "tenant_error = AuditConfigurationError ''tenantResolver must return a non-empty, trimmed tenant ID''"

text \<open>\<open>tenantResolver\<close> returns a value of any type or throws; without it the tenant is \<open>null\<close>.\<close>

definition resolve_request_tenant :: "(http_request \<Rightarrow> jsval result) option \<Rightarrow> http_request \<Rightarrow> jsval result" where
  "resolve_request_tenant resolver rq =
     rbind (case resolver of None \<Rightarrow> Inr JNull | Some f \<Rightarrow> f rq) (\<lambda>t.
       case t of
         JNull \<Rightarrow> Inr JUndefined
       | JStr s \<Rightarrow> if s = [] \<or> trim s \<noteq> s then Inl tenant_error else Inr (JStr s)
       | _ \<Rightarrow> Inl tenant_error)"

definition middleware_context :: "(http_request \<Rightarrow> jsval result) option \<Rightarrow> http_request \<Rightarrow> audit_context result" where
  "middleware_context resolver rq =
     rmap (\<lambda>t.
       \<lparr>ctxActor = ResolvedActor (Inr (Some (resolveActorFromAuth (reqAuth rq)))), ctxTenantId = t,
        ctxRequestId = reqId rq, ctxCorrelationId = first_some (reqCorrelation rq) (reqId rq), ctxIp = Some (reqIp rq),
        ctxUserAgent = map_option (take 512) (reqUserAgent rq), ctxUrl = Some (take 2048 (strip_query (reqUrl rq))),
        ctxHttpMethod = Some (reqMethod rq)\<rparr>)
     (resolve_request_tenant resolver rq)"

definition handle_request ::
  "(http_request \<Rightarrow> jsval result) option \<Rightarrow> http_request \<Rightarrow> (context_stack \<Rightarrow> 'a \<times> context_stack) \<Rightarrow> context_stack \<Rightarrow> 'a result \<times> context_stack" where
  "handle_request resolver rq next_handler st =
     (case middleware_context resolver rq of
        Inl e \<Rightarrow> (Inl e, st)
      | Inr c \<Rightarrow> (let (x, st') = ctx_run c next_handler st in (Inr x, st')))"

section \<open>The authentication listener\<close>

datatype thrown_value = ErrorObject string | ErrorString string | NoErrorText

record auth_payload =
  apGuardName :: jsval
  apUser :: jsval
  apError :: thrown_value
  apSessionId :: jsval
  apInput :: "(string \<Rightarrow> jsval) option"

definition empty_payload :: auth_payload where
  "empty_payload = \<lparr>apGuardName = JUndefined, apUser = JUndefined, apError = NoErrorText, apSessionId = JUndefined, apInput = None\<rparr>"

definition normalize_auth_payload :: "auth_payload option \<Rightarrow> auth_payload" where
  "normalize_auth_payload p = (case p of None \<Rightarrow> empty_payload | Some x \<Rightarrow> x)"

definition string_or_null :: "jsval \<Rightarrow> string option" where
  "string_or_null v = (if nullish v then None else Some (prim_string v))"

definition actorFromUser :: "jsval \<Rightarrow> audit_actor" where
  "actorFromUser u =
     (let record_field = (\<lambda>k. if is_object u then field k u else JUndefined) in
      \<lparr>actorType = ''user'',
       actorId = string_or_null (coalesce (record_field ''id'') (record_field ''$primaryKeyValue'')),
       actorLabel = Some (string_or_null (coalesce (record_field ''email'') (record_field ''name'')))\<rparr>)"

definition metadataFromPayload :: "auth_payload \<Rightarrow> jsobj" where
  "metadataFromPayload p = [(''guardName'', coalesce (apGuardName p) JNull), (''sessionId'', coalesce (apSessionId p) JNull)]"

definition auth_error_message :: "thrown_value \<Rightarrow> jsval" where
  "auth_error_message e = (case e of ErrorObject m \<Rightarrow> JStr m | ErrorString m \<Rightarrow> JStr m | NoErrorText \<Rightarrow> JNull)"

definition attempted_identifier :: "auth_payload \<Rightarrow> jsval" where
  "attempted_identifier p =
     (case apInput p of None \<Rightarrow> JNull | Some f \<Rightarrow> coalesce (coalesce (f ''email'') (f ''uid'')) JNull)"

definition auth_authenticated :: "string \<Rightarrow> auth_payload \<Rightarrow> log_builder" where
  "auth_authenticated event p = withMeta (metadataFromPayload p) (log_by (actorFromUser (apUser p)) (new_log event AuthSource))"

definition auth_loginSucceeded :: "auth_payload \<Rightarrow> log_builder" where
  "auth_loginSucceeded p = withMeta (metadataFromPayload p) (log_by (actorFromUser (apUser p)) (new_log ''auth.login'' AuthSource))"

definition auth_loggedOut :: "auth_payload \<Rightarrow> log_builder" where
  "auth_loggedOut p =
     withMeta (metadataFromPayload p)
       (log_by (if nullish (apUser p) then \<lparr>actorType = ''user'', actorId = None, actorLabel = None\<rparr> else actorFromUser (apUser p))
         (new_log ''auth.logout'' AuthSource))"

definition auth_failed :: "string \<Rightarrow> auth_payload \<Rightarrow> log_builder" where
  "auth_failed event p =
     withMeta (metadataFromPayload p @ [(''attemptedIdentifier'', attempted_identifier p), (''error'', auth_error_message (apError p))])
       (new_log event AuthSource)"

definition auth_handlers :: "(string \<times> (auth_payload \<Rightarrow> log_builder)) list" where
  "auth_handlers =
     [(''session_auth:login_succeeded'', auth_loginSucceeded),
      (''session_auth:logged_out'', auth_loggedOut),
      (''session_auth:authentication_failed'', auth_failed ''auth.login_failed''),
      (''access_tokens_auth:authentication_succeeded'', auth_authenticated ''auth.access_token_authenticated''),
      (''access_tokens_auth:authentication_failed'', auth_failed ''auth.access_token_failed''),
      (''basic_auth:authentication_succeeded'', auth_authenticated ''auth.basic_authenticated''),
      (''basic_auth:authentication_failed'', auth_failed ''auth.basic_failed'')]"

text \<open>The subscriptions of the listener; the log calls an event of the framework leads to.\<close>

type_synonym subscriptions = "(string \<times> (auth_payload \<Rightarrow> log_builder)) list"

definition attach :: "subscriptions \<Rightarrow> subscriptions" where
  "attach subs = (if subs \<noteq> [] then subs else auth_handlers)"

definition detach :: "subscriptions \<Rightarrow> subscriptions" where
  "detach subs = []"

definition on_auth_event :: "string \<Rightarrow> auth_payload option \<Rightarrow> subscriptions \<Rightarrow> log_builder list" where
  "on_auth_event name p subs = map (\<lambda>h. snd h (normalize_auth_payload p)) (filter (\<lambda>h. fst h = name) subs)"

section \<open>Properties\<close>

lemma length_strip_query: "length (strip_query s) \<le> length s"
  by (induction s) auto

lemma first_some_simps [simp]: "first_some None y = y" "first_some (Some x) y = Some x"
  by (simp_all add: first_some_def)

lemma request_tenant_cases:
  "resolve_request_tenant resolver rq = Inr t \<Longrightarrow> t = JUndefined \<or> (\<exists>s. t = JStr s \<and> s \<noteq> [] \<and> trim s = s)"
proof -
  assume "resolve_request_tenant resolver rq = Inr t"
  then obtain x where "(case x of
         JNull \<Rightarrow> Inr JUndefined
       | JStr s \<Rightarrow> if s = [] \<or> trim s \<noteq> s then Inl tenant_error else Inr (JStr s)
       | _ \<Rightarrow> Inl tenant_error) = Inr t"
    unfolding resolve_request_tenant_def by (metis (no_types, lifting) rbind_Inr_iff)
  then show ?thesis by (cases x) (auto split: if_splits)
qed

text \<open>
  A request context is safe to assemble events with: its actor resolves without an error, its
  tenant, if there is one, passes the check of the assembler and becomes the tenant of the event,
  whatever the configured tenant is, and the user agent and the URL stay within their column sizes.
\<close>

theorem middleware_context_sound:
  assumes "middleware_context resolver rq = Inr c"
  shows "(ctxTenantId c = JUndefined \<or> (\<exists>s. ctxTenantId c = JStr s \<and> resolveTenantId (ctxTenantId c) other = Inr (Some s)))
    \<and> resolveActor (ctxActor c) env = Inr (resolveActorFromAuth (reqAuth rq))
    \<and> (\<exists>u. ctxUrl c = Some u \<and> length u \<le> 2048)
    \<and> (case ctxUserAgent c of None \<Rightarrow> reqUserAgent rq = None | Some a \<Rightarrow> length a \<le> 512)"
proof -
  obtain t where t: "resolve_request_tenant resolver rq = Inr t" and c: "ctxTenantId c = t"
    "ctxActor c = ResolvedActor (Inr (Some (resolveActorFromAuth (reqAuth rq))))"
    "ctxUrl c = Some (take 2048 (strip_query (reqUrl rq)))" "ctxUserAgent c = map_option (take 512) (reqUserAgent rq)"
    using assms by (auto simp: middleware_context_def result_iff)
  show ?thesis using request_tenant_cases [OF t]
    by (auto simp: c resolveTenantId_def resolveActor_def nullish_def split: option.split)
qed

definition sample_request :: http_request where
  "sample_request =
     \<lparr>reqId = Some ''r1'', reqIp = ''10.0.0.1'', reqUserAgent = Some ''curl'', reqUrl = ''/a?b=c'', reqMethod = ''GET'',
      reqCorrelation = None, reqAuth = Some \<lparr>authThrows = False, authUser = Some \<lparr>userId = JNum 7, userEmail = None, userUsername = Some ''ann''\<rparr>\<rparr>\<rparr>"

definition sample_http_context :: audit_context where
  "sample_http_context =
     \<lparr>ctxActor = ResolvedActor (Inr (Some \<lparr>actorType = ''user'', actorId = Some ''7'', actorLabel = Some (Some ''ann'')\<rparr>)),
      ctxTenantId = JStr ''acme'', ctxRequestId = Some ''r1'', ctxCorrelationId = Some ''r1'', ctxIp = Some ''10.0.0.1'',
      ctxUserAgent = Some ''curl'', ctxUrl = Some ''/a'', ctxHttpMethod = Some ''GET''\<rparr>"

lemma sample_middleware: "middleware_context (Some (\<lambda>_. Inr (JStr ''acme''))) sample_request = Inr sample_http_context"
  by code_simp

theorem middleware_context_sound_witness:
  "(ctxTenantId sample_http_context = JUndefined
     \<or> (\<exists>s. ctxTenantId sample_http_context = JStr s \<and> resolveTenantId (ctxTenantId sample_http_context) (JStr ''x'') = Inr (Some s)))
   \<and> resolveActor (ctxActor sample_http_context) None = Inr (resolveActorFromAuth (reqAuth sample_request))
   \<and> (\<exists>u. ctxUrl sample_http_context = Some u \<and> length u \<le> 2048)
   \<and> (case ctxUserAgent sample_http_context of None \<Rightarrow> reqUserAgent sample_request = None | Some a \<Rightarrow> length a \<le> 512)"
  by (rule middleware_context_sound [OF sample_middleware])

definition auth_metadata_keys :: "string list" where
  "auth_metadata_keys = [''guardName'', ''sessionId'', ''attemptedIdentifier'', ''error'']"

text \<open>
  Authentication events are captured exactly once and without credentials: however often the
  listener has been attached, an event of the framework leads to one log call if it is one of the
  seven it listens to and to none otherwise; the call has the source \<open>auth\<close>, and its payload holds
  the guard, the session, the attempted identifier and the error text and nothing else. After
  \<open>detach\<close> nothing is captured.
\<close>

theorem auth_events_captured:
  "on_auth_event name p (attach (attach [])) = on_auth_event name p (attach [])
   \<and> length (on_auth_event name p (attach [])) = (if name \<in> set (map fst auth_handlers) then 1 else 0)
   \<and> list_all (\<lambda>b. lbSource b = AuthSource \<and> lbOldValues b = None \<and> lbNewValues b = None
        \<and> (\<exists>fs. lbMetadata b = Some fs \<and> set (map fst fs) \<subseteq> set auth_metadata_keys)) (on_auth_event name p (attach []))
   \<and> on_auth_event name p (detach (attach [])) = []"
proof -
  have "attach (attach []) = attach []" by (simp add: attach_def auth_handlers_def)
  moreover have "length (on_auth_event name p (attach [])) = (if name \<in> set (map fst auth_handlers) then 1 else 0)"
    by (simp add: on_auth_event_def attach_def auth_handlers_def)
  moreover have "list_all (\<lambda>b. lbSource b = AuthSource \<and> lbOldValues b = None \<and> lbNewValues b = None
        \<and> (\<exists>fs. lbMetadata b = Some fs \<and> set (map fst fs) \<subseteq> set auth_metadata_keys)) (on_auth_event name p (attach []))"
    by (simp add: on_auth_event_def attach_def auth_handlers_def auth_loginSucceeded_def auth_loggedOut_def auth_failed_def
        auth_authenticated_def withMeta_def log_by_def new_log_def metadataFromPayload_def auth_metadata_keys_def)
  moreover have "on_auth_event name p (detach (attach [])) = []"
    by (simp add: on_auth_event_def detach_def)
  ultimately show ?thesis by simp
qed

end
