(* ===== verification/Auditable.thy ===== *)
theory Auditable
  imports Capture
begin

text \<open>
  \<open>src/mixins/auditable.ts\<close>: the events of a model that uses the mixin. A row is its attributes,
  the attributes as loaded and the names of the changed ones; the columns of the class stand in
  the order of their definition. The hooks of the ORM call \<open>preflight\<close>, \<open>beforeUpdate\<close>,
  \<open>captureModelEvent\<close> and \<open>captureUpdateEvent\<close>; the hooks of a transaction are a list run at commit.
\<close>

section \<open>Models\<close>

datatype model_event = Created | Updated | Deleted | Restored
datatype snapshot_mode = DiffSnapshot | FullSnapshot

record auditable_config =
  acEvents :: "model_event list option"
  acExclude :: "string list option"
  acRedact :: "string list option"
  acTags :: "string list option"
  acSnapshot :: "snapshot_mode option"
  acStrict :: "bool option"

record column =
  colSerialized :: bool
  colPrimary :: bool

record model_class =
  mcName :: string
  mcPrimaryKey :: string
  mcColumns :: "(string \<times> column) list"
  mcAudit :: "auditable_config option"

record model_row =
  mrClass :: model_class
  mrAttributes :: jsobj
  mrOriginal :: jsobj
  mrDirty :: "string list"
  mrTrx :: bool
  mrPrimaryKeyValue :: jsval

definition empty_audit_config :: auditable_config where
  "empty_audit_config =
     \<lparr>acEvents = None, acExclude = None, acRedact = None, acTags = None, acSnapshot = None, acStrict = None\<rparr>"

definition getConfig :: "model_row \<Rightarrow> auditable_config" where
  "getConfig m = (case mcAudit (mrClass m) of None \<Rightarrow> empty_audit_config | Some c \<Rightarrow> c)"

definition isEnabled :: "auditable_config \<Rightarrow> model_event \<Rightarrow> bool" where
  "isEnabled c k = (k \<in> set (case acEvents c of None \<Rightarrow> [Created, Updated, Deleted] | Some ks \<Rightarrow> ks))"

definition excluded :: "model_row \<Rightarrow> string set" where
  "excluded m = set (case acExclude (getConfig m) of None \<Rightarrow> [] | Some xs \<Rightarrow> xs)"

definition getPrimaryKeyValue :: "model_row \<Rightarrow> jsval" where
  "getPrimaryKeyValue m =
     (let pk = (case filter (\<lambda>c. colPrimary (snd c)) (mcColumns (mrClass m)) of
           [] \<Rightarrow> mcPrimaryKey (mrClass m) | c # cs \<Rightarrow> fst c) in
      coalesce (field pk (JObj (mrAttributes m))) (mrPrimaryKeyValue m))"

section \<open>Serialisation\<close>

text \<open>
  \<open>call_iso\<close> is what calling a function-valued own property \<open>toISO\<close> gives; the \<open>toISO\<close> of a class
  is part of the instance.
\<close>

definition own_iso :: "jsobj \<Rightarrow> bool" where
  "own_iso fs \<longleftrightarrow> (case map_of fs ''toISO'' of Some (JFunction nm src) \<Rightarrow> True | _ \<Rightarrow> False)"

definition iso_value :: "string option \<Rightarrow> jsval" where
  "iso_value s = (case s of None \<Rightarrow> JNull | Some t \<Rightarrow> JStr t)"

fun serializeValue :: "(jsobj \<Rightarrow> jsval) \<Rightarrow> jsval \<Rightarrow> jsval"
  and serialize_list :: "(jsobj \<Rightarrow> jsval) \<Rightarrow> jsval list \<Rightarrow> jsval list"
  and serialize_members :: "(jsobj \<Rightarrow> jsval) \<Rightarrow> jsobj \<Rightarrow> jsobj"
where
  "serializeValue call_iso (JDate t) = JStr (toISOString t)"
| "serializeValue call_iso (JInst c ti fs) =
     (if own_iso fs then call_iso fs
      else case ti of Some s \<Rightarrow> iso_value s | None \<Rightarrow> JInst c ti fs)"
| "serializeValue call_iso (JArr xs) = JArr (serialize_list call_iso xs)"
| "serializeValue call_iso (JObj fs) =
     (if own_iso fs then call_iso fs
      else if is_plain fs then JObj (assign_all (serialize_members call_iso fs))
      else JObj fs)"
| "serializeValue call_iso v = v"
| "serialize_list call_iso [] = []"
| "serialize_list call_iso (x # xs) = serializeValue call_iso x # serialize_list call_iso xs"
| "serialize_members call_iso [] = []"
| "serialize_members call_iso ((k, x) # fs) = (k, serializeValue call_iso x) # serialize_members call_iso fs"

definition serializeModel :: "(jsobj \<Rightarrow> jsval) \<Rightarrow> model_row \<Rightarrow> string set option \<Rightarrow> jsobj \<Rightarrow> jsobj" where
  "serializeModel call_iso m onlyKeys source =
     assign_all (map (\<lambda>c. (fst c, serializeValue call_iso (field (fst c) (JObj source))))
       (filter (\<lambda>c. colSerialized (snd c) \<and> fst c \<notin> excluded m
            \<and> (case onlyKeys of None \<Rightarrow> True | Some ks \<Rightarrow> fst c \<in> ks)) (mcColumns (mrClass m))))"

definition removeExcluded :: "model_row \<Rightarrow> jsobj \<Rightarrow> jsobj \<Rightarrow> jsobj \<times> jsobj" where
  "removeExcluded m old new =
     (if excluded m = {} then (old, new)
      else (let keys = filter (\<lambda>k. k \<notin> excluded m) (map fst new) in
        (assign_all (map (\<lambda>k. (k, field k (JObj old))) keys), assign_all (map (\<lambda>k. (k, field k (JObj new))) keys))))"

definition buildUpdateSnapshot :: "(jsobj \<Rightarrow> jsval) \<Rightarrow> model_row \<Rightarrow> jsobj \<times> jsobj" where
  "buildUpdateSnapshot call_iso m =
     (let onlyKeys = (if acSnapshot (getConfig m) = Some FullSnapshot then None else Some (set (mrDirty m))) in
      removeExcluded m (serializeModel call_iso m onlyKeys (mrOriginal m)) (serializeModel call_iso m onlyKeys (mrAttributes m)))"

section \<open>Capture\<close>

text \<open>An emission: the kind of event with its old and new values.\<close>

type_synonym emission = "model_event \<times> jsobj option \<times> jsobj option"

definition is_restored :: "jsobj \<Rightarrow> jsobj \<Rightarrow> bool" where
  "is_restored old new \<longleftrightarrow>
     (case map_of old ''deletedAt'' of None \<Rightarrow> False | Some v \<Rightarrow> \<not> nullish v) \<and> map_of new ''deletedAt'' = Some JNull"

definition captureUpdateEvent :: "model_row \<Rightarrow> (jsobj \<times> jsobj) option \<Rightarrow> emission option" where
  "captureUpdateEvent m snap =
     (case snap of
        None \<Rightarrow> None
      | Some (old, new) \<Rightarrow>
          if new = [] then None
          else if is_restored old new \<and> isEnabled (getConfig m) Restored then Some (Restored, Some old, Some new)
          else if isEnabled (getConfig m) Updated then Some (Updated, Some old, Some new)
          else None)"

definition captureModelEvent :: "(jsobj \<Rightarrow> jsval) \<Rightarrow> model_event \<Rightarrow> model_row \<Rightarrow> emission option" where
  "captureModelEvent call_iso kind m =
     (if \<not> isEnabled (getConfig m) kind then None
      else (let snap = serializeModel call_iso m None (mrAttributes m) in
        Some (kind, if kind = Deleted then Some snap else None, if kind = Created then Some snap else None)))"

definition kind_name :: "model_event \<Rightarrow> string" where
  "kind_name k = (case k of Created \<Rightarrow> ''created'' | Updated \<Rightarrow> ''updated'' | Deleted \<Rightarrow> ''deleted'' | Restored \<Rightarrow> ''restored'')"

definition buildLocalRedactor :: "(string \<Rightarrow> string) \<Rightarrow> auditable_config \<Rightarrow> redaction_mode \<Rightarrow> string option \<Rightarrow> (jsobj \<Rightarrow> jsobj result) result" where
  "buildLocalRedactor H c mode salt =
     (case acRedact c of
        None \<Rightarrow> Inr Inr
      | Some [] \<Rightarrow> Inr Inr
      | Some ps \<Rightarrow> createRedactor H \<lparr>redactPaths = ps, redactMode = mode, redactSalt = salt\<rparr>)"

definition emission_input :: "(string \<Rightarrow> string) \<Rightarrow> redaction_mode \<Rightarrow> string option \<Rightarrow> model_row \<Rightarrow> emission \<Rightarrow> assemble_input result" where
  "emission_input H mode salt m em =
     (case em of (kind, old, new) \<Rightarrow>
        rbind (buildLocalRedactor H (getConfig m) mode salt) (\<lambda>redact.
        rbind (redact_opt redact old) (\<lambda>old'.
        rmap (\<lambda>new'.
          \<lparr>inEvent = ''model.'' @ kind_name kind, inAuditableType = Some (mcName (mrClass m)),
           inAuditableId = Some (prim_string (getPrimaryKeyValue m)), inOldValues = old', inNewValues = new',
           inMetadata = None, inTags = Some (case acTags (getConfig m) of None \<Rightarrow> [] | Some ts \<Rightarrow> ts), inActor = None\<rparr>)
        (redact_opt redact new))))"

section \<open>Guarantees\<close>

text \<open>The commit hooks of a transaction, as the events they submit.\<close>

type_synonym commit_hooks = "audit_event list"

definition emitWithGuarantee ::
  "'s service_config \<Rightarrow> string \<Rightarrow> int \<Rightarrow> nat \<Rightarrow> (outbox_row \<Rightarrow> audit_error option) \<Rightarrow> audit_event \<Rightarrow> bool \<Rightarrow> bool
   \<Rightarrow> commit_hooks \<times> service \<Rightarrow> submit_result \<times> commit_hooks \<times> service" where
  "emitWithGuarantee cfg rid now w insert_row e strict trx st =
     (case st of (hooks, sv) \<Rightarrow>
        if trx \<and> svGuarantee cfg \<noteq> TransactionalOutbox then (Returned, hooks @ [e], sv)
        else (case submit cfg rid now w insert_row e trx ModelSource False sv of
            (Thrown err, sv') \<Rightarrow>
              (if svGuarantee cfg = TransactionalOutbox \<or> \<not> trx \<or> strict \<or> error_code err = error_code transaction_required_error
               then (Thrown err, hooks, sv') else (Returned, hooks, sv'))
          | (res, sv') \<Rightarrow> (res, hooks, sv')))"

text \<open>The end of the transaction: a commit runs the hooks (their errors are swallowed), a rollback none.\<close>

fun run_hooks :: "'s service_config \<Rightarrow> string \<Rightarrow> int \<Rightarrow> nat \<Rightarrow> (outbox_row \<Rightarrow> audit_error option) \<Rightarrow> commit_hooks \<Rightarrow> service \<Rightarrow> service" where
  "run_hooks cfg rid now w insert_row [] sv = sv"
| "run_hooks cfg rid now w insert_row (e # es) sv =
     run_hooks cfg rid now w insert_row es (snd (submit cfg rid now w insert_row e False ModelSource False sv))"

definition preflightTransactionalOutbox :: "guarantee_mode \<Rightarrow> model_row \<Rightarrow> unit result" where
  "preflightTransactionalOutbox g m =
     (if g = TransactionalOutbox \<and> \<not> mrTrx m then Inl transaction_required_error else Inr ())"

definition beforeUpdate :: "(jsobj \<Rightarrow> jsval) \<Rightarrow> guarantee_mode \<Rightarrow> model_row \<Rightarrow> (jsobj \<times> jsobj) result" where
  "beforeUpdate call_iso g m = rmap (\<lambda>_. buildUpdateSnapshot call_iso m) (preflightTransactionalOutbox g m)"

section \<open>Lemmas\<close>

lemma assign_all_keys: "fst ` set (assign_all ps) \<subseteq> fst ` set ps"
  using assign_all_set by (metis image_mono)

definition visible_column :: "model_row \<Rightarrow> string \<Rightarrow> bool" where
  "visible_column m k \<longleftrightarrow> k \<notin> excluded m \<and> (\<exists>c. (k, c) \<in> set (mcColumns (mrClass m)) \<and> colSerialized c)"

lemma serializeModel_visible: "k \<in> fst ` set (serializeModel call_iso m onlyKeys source) \<Longrightarrow> visible_column m k"
  unfolding serializeModel_def
  by (drule subsetD [OF assign_all_keys]) (auto simp: visible_column_def)

lemma removeExcluded_keys:
  "fst ` set (fst (removeExcluded m old new)) \<subseteq> fst ` set old \<union> fst ` set new"
  "fst ` set (snd (removeExcluded m old new)) \<subseteq> fst ` set new"
proof -
  let ?ks = "filter (\<lambda>k. k \<notin> excluded m) (map fst new)"
  have k: "fst ` set (assign_all (map (\<lambda>k. (k, f k)) ?ks)) \<subseteq> fst ` set new" for f
    by (rule subset_trans [OF assign_all_keys]) force
  show "fst ` set (fst (removeExcluded m old new)) \<subseteq> fst ` set old \<union> fst ` set new"
    using k [of "\<lambda>k. field k (JObj old)"] by (simp only: removeExcluded_def Let_def split: if_split) auto
  show "fst ` set (snd (removeExcluded m old new)) \<subseteq> fst ` set new"
    using k [of "\<lambda>k. field k (JObj new)"] by (simp only: removeExcluded_def Let_def split: if_split) auto
qed

definition only_visible :: "model_row \<Rightarrow> jsobj option \<Rightarrow> bool" where
  "only_visible m vs \<longleftrightarrow> (case vs of None \<Rightarrow> True | Some fs \<Rightarrow> \<forall>k\<in>fst ` set fs. visible_column m k)"

lemma only_visible_Some: "only_visible m (Some fs) \<longleftrightarrow> fst ` set fs \<subseteq> Collect (visible_column m)"
  by (auto simp: only_visible_def)

lemma only_visible_serialize: "only_visible m (Some (serializeModel call_iso m ks source))"
  unfolding only_visible_Some using serializeModel_visible by (intro subsetI CollectI)

lemma only_visible_removed:
  assumes "only_visible m (Some old)" "only_visible m (Some new)"
  shows "only_visible m (Some (fst (removeExcluded m old new)))" "only_visible m (Some (snd (removeExcluded m old new)))"
  using assms unfolding only_visible_Some
  by (meson removeExcluded_keys Un_least order_trans)+

lemma snapshot_visible:
  "only_visible m (Some (fst (buildUpdateSnapshot call_iso m)))" "only_visible m (Some (snd (buildUpdateSnapshot call_iso m)))"
  unfolding buildUpdateSnapshot_def Let_def by (intro only_visible_removed only_visible_serialize)+

text \<open>Values that \<open>serializeValue\<close> turns into JSON: scalars, dates, instances with \<open>toISO\<close>, arrays, plain objects.\<close>

fun serializable :: "jsval \<Rightarrow> bool" where
  "serializable (JObj fs) \<longleftrightarrow> is_plain fs \<and> \<not> own_iso fs \<and> list_all (\<lambda>p. snd p = JUndefined \<or> serializable (snd p)) fs"
| "serializable (JArr xs) \<longleftrightarrow> list_all serializable xs"
| "serializable (JInst c ti fs) \<longleftrightarrow> ti \<noteq> None \<and> \<not> own_iso fs"
| "serializable JUndefined \<longleftrightarrow> False"
| "serializable (JFunction nm src) \<longleftrightarrow> False"
| "serializable (JSymbol d) \<longleftrightarrow> False"
| "serializable (JBigInt n) \<longleftrightarrow> False"
| "serializable v \<longleftrightarrow> True"

lemma serialize_list_map [simp]: "serialize_list call_iso xs = map (serializeValue call_iso) xs"
  by (induction xs) simp_all

lemma serialize_members_map [simp]: "serialize_members call_iso fs = map (\<lambda>p. (fst p, serializeValue call_iso (snd p))) fs"
proof (induction fs)
  case (Cons p fs)
  then show ?case by (cases p) simp
qed simp

lemma assign_all_plain: "is_plain ps \<Longrightarrow> is_plain (assign_all ps)"
  using assign_all_keys [of ps] by (auto simp: is_plain_def)

lemma canonical_ok_assign:
  assumes "is_plain ps" "\<And>p. p \<in> set ps \<Longrightarrow> snd p = JUndefined \<or> canonical_ok (snd p)"
  shows "canonical_ok (JObj (assign_all ps))"
  using assign_all_plain [OF assms(1)] assms(2) assign_all_set [of ps]
  by (auto simp: list_all_iff is_defined_def)

lemma serializeValue_ok: "serializable v \<Longrightarrow> canonical_ok (serializeValue call_iso v)"
proof (induction v rule: serializable.induct)
  case (1 fs)
  let ?ps = "map (\<lambda>p. (fst p, serializeValue call_iso (snd p))) fs"
  have "is_plain ?ps" using 1(2) by (simp add: is_plain_def image_image)
  moreover have "snd q = JUndefined \<or> canonical_ok (snd q)" if "q \<in> set ?ps" for q
    using that 1 by (auto simp: list_all_iff)
  ultimately have "canonical_ok (JObj (assign_all ?ps))" by (rule canonical_ok_assign)
  then show ?case using 1(2) by (simp del: canonical_ok.simps)
next
  case (2 xs)
  then show ?case by (auto simp: list_all_iff)
next
  case (3 c ti fs)
  then show ?case by (auto simp: iso_value_def split: option.split)
qed simp_all

lemma serializeModel_ok:
  assumes "''constructor'' \<notin> fst ` set (mcColumns (mrClass m))"
    and "list_all (\<lambda>c. field (fst c) (JObj source) = JUndefined \<or> serializable (field (fst c) (JObj source))) (mcColumns (mrClass m))"
  shows "canonical_ok (JObj (serializeModel call_iso m ks source))"
  unfolding serializeModel_def
proof (rule canonical_ok_assign)
  let ?cs = "filter (\<lambda>c. colSerialized (snd c) \<and> fst c \<notin> excluded m \<and> (case ks of None \<Rightarrow> True | Some ks \<Rightarrow> fst c \<in> ks))
    (mcColumns (mrClass m))"
  show "is_plain (map (\<lambda>c. (fst c, serializeValue call_iso (field (fst c) (JObj source)))) ?cs)"
    using assms(1) by (force simp: is_plain_def)
  fix p assume "p \<in> set (map (\<lambda>c. (fst c, serializeValue call_iso (field (fst c) (JObj source)))) ?cs)"
  then obtain c where c: "c \<in> set (mcColumns (mrClass m))" "snd p = serializeValue call_iso (field (fst c) (JObj source))"
    by auto
  show "snd p = JUndefined \<or> canonical_ok (snd p)"
    using assms(2) c serializeValue_ok by (auto simp: list_all_iff simp del: field_JObj)
qed

lemma map_of_keyed: "map_of (map (\<lambda>x. (h x, g (h x))) xs) k = (if k \<in> h ` set xs then Some (g k) else None)"
  by (induction xs) auto

lemma serializeModel_lookup:
  assumes "distinct (map fst (mcColumns (mrClass m)))" "k \<noteq> ''__proto__''"
  shows "map_of (serializeModel call_iso m ks source) k =
    (if visible_column m k \<and> (case ks of None \<Rightarrow> True | Some ks \<Rightarrow> k \<in> ks)
     then Some (serializeValue call_iso (field k (JObj source))) else None)"
proof -
  let ?P = "\<lambda>c. colSerialized (snd c) \<and> fst c \<notin> excluded m \<and> (case ks of None \<Rightarrow> True | Some ks \<Rightarrow> fst c \<in> ks)"
  let ?f = "\<lambda>k. serializeValue call_iso (field k (JObj source))"
  let ?cs = "filter ?P (mcColumns (mrClass m))"
  have "distinct (map fst (map (\<lambda>c. (fst c, ?f (fst c))) ?cs))"
    using distinct_map_filter [OF assms(1), of ?P] by (simp add: comp_def)
  then have "map_of (serializeModel call_iso m ks source) k = map_of (map (\<lambda>c. (fst c, ?f (fst c))) ?cs) k"
    using assms(2) by (simp only: serializeModel_def assign_all_lookup if_False)
  also have "\<dots> = (if k \<in> fst ` set ?cs then Some (?f k) else None)"
    by (rule map_of_keyed)
  also have "k \<in> fst ` set ?cs \<longleftrightarrow> visible_column m k \<and> (case ks of None \<Rightarrow> True | Some ks \<Rightarrow> k \<in> ks)"
    by (auto simp: visible_column_def image_iff split: option.split)
  finally show ?thesis .
qed

lemma removeExcluded_id:
  assumes "\<And>k. k \<in> fst ` set new \<Longrightarrow> k \<notin> excluded m" "k \<noteq> ''__proto__''" "distinct (map fst new)"
  shows "map_of (snd (removeExcluded m old new)) k = map_of new k"
    and "map_of new k \<noteq> None \<Longrightarrow> map_of old k \<noteq> None \<Longrightarrow> map_of (fst (removeExcluded m old new)) k = map_of old k"
proof -
  have ks: "filter (\<lambda>k. k \<notin> excluded m) (map fst new) = map fst new"
    using assms(1) by (auto simp: filter_id_conv)
  have l: "map_of (assign_all (map (\<lambda>k. (k, f k)) (map fst new))) k = (if k \<in> fst ` set new then Some (f k) else None)" for f :: "string \<Rightarrow> jsval"
  proof -
    have "map fst (map (\<lambda>k. (k, f k)) (map fst new)) = map fst new" by (simp add: comp_def)
    then have "map_of (assign_all (map (\<lambda>k. (k, f k)) (map fst new))) k = map_of (map (\<lambda>k. (k, f k)) (map fst new)) k"
      using assms(2,3) by (simp only: assign_all_lookup if_False)
    then show ?thesis using map_of_keyed [of "\<lambda>k. k" f "map fst new"] by simp
  qed
  have n: "k \<in> fst ` set new \<longleftrightarrow> map_of new k \<noteq> None" by (simp add: map_of_eq_None_iff)
  show "map_of (snd (removeExcluded m old new)) k = map_of new k"
    by (cases "map_of new k") (simp_all add: removeExcluded_def Let_def ks l n del: map_map)
  show "map_of new k \<noteq> None \<Longrightarrow> map_of old k \<noteq> None \<Longrightarrow> map_of (fst (removeExcluded m old new)) k = map_of old k"
    by (auto simp add: removeExcluded_def Let_def ks l n simp del: map_map)
qed

lemma removeExcluded_visible:
  assumes "only_visible m (Some new)" "distinct (map fst new)" "k \<noteq> ''__proto__''"
  shows "map_of (snd (removeExcluded m old new)) k = map_of new k"
    and "map_of new k \<noteq> None \<Longrightarrow> map_of old k \<noteq> None \<Longrightarrow> map_of (fst (removeExcluded m old new)) k = map_of old k"
proof -
  have "j \<notin> excluded m" if "j \<in> fst ` set new" for j
    using that assms(1) by (auto simp: only_visible_Some visible_column_def)
  note r = removeExcluded_id [OF this assms(3,2), of old]
  show "map_of (snd (removeExcluded m old new)) k = map_of new k" by (rule r(1))
  show "map_of new k \<noteq> None \<Longrightarrow> map_of old k \<noteq> None \<Longrightarrow> map_of (fst (removeExcluded m old new)) k = map_of old k"
    by (rule r(2))
qed

lemma serializeModel_distinct: "distinct (map fst (serializeModel call_iso m ks source))"
  using assign_all_ok unfolding serializeModel_def props_ok_def by blast

section \<open>Properties\<close>

text \<open>
  C21: An excluded attribute, or a column hidden from serialisation, never appears in a model event:
  neither in the values of a creation or deletion nor in the old or new values of an update.
\<close>

theorem hidden_columns_not_captured:
  "(case captureModelEvent call_iso kind m of None \<Rightarrow> True | Some (k, old, new) \<Rightarrow> only_visible m old \<and> only_visible m new)
   \<and> (case captureUpdateEvent m (Some (buildUpdateSnapshot call_iso m)) of None \<Rightarrow> True
      | Some (k, old, new) \<Rightarrow> only_visible m old \<and> only_visible m new)"
proof -
  obtain old new where s: "buildUpdateSnapshot call_iso m = (old, new)" by fastforce
  have "only_visible m None" by (simp add: only_visible_def)
  then show ?thesis
    using only_visible_serialize snapshot_visible [of m call_iso] unfolding s
    by (simp add: captureModelEvent_def captureUpdateEvent_def Let_def)
qed

text \<open>
  C22: With the default snapshot the new values of an update are exactly the changed, visible
  columns with their serialised current values, and the old values hold the serialised original
  value of each of them.
\<close>

theorem update_snapshot_exact:
  assumes "distinct (map fst (mcColumns (mrClass m)))" "acSnapshot (getConfig m) \<noteq> Some FullSnapshot" "k \<noteq> ''__proto__''"
  shows "map_of (snd (buildUpdateSnapshot call_iso m)) k =
      (if visible_column m k \<and> k \<in> set (mrDirty m) then Some (serializeValue call_iso (field k (JObj (mrAttributes m)))) else None)
    \<and> (if visible_column m k \<and> k \<in> set (mrDirty m)
       then map_of (fst (buildUpdateSnapshot call_iso m)) k = Some (serializeValue call_iso (field k (JObj (mrOriginal m)))) else True)"
proof -
  let ?old = "serializeModel call_iso m (Some (set (mrDirty m))) (mrOriginal m)"
  let ?new = "serializeModel call_iso m (Some (set (mrDirty m))) (mrAttributes m)"
  have b: "buildUpdateSnapshot call_iso m = removeExcluded m ?old ?new"
    using assms(2) by (simp add: buildUpdateSnapshot_def Let_def)
  note l = serializeModel_lookup [OF assms(1,3), of call_iso "Some (set (mrDirty m))"]
  note r = removeExcluded_visible [where old = ?old and new = ?new, OF only_visible_serialize serializeModel_distinct assms(3)]
  show ?thesis unfolding b using r l [of "mrAttributes m"] l [of "mrOriginal m"] by (simp del: field_JObj)
qed

definition sample_user_class :: model_class where
  "sample_user_class =
     \<lparr>mcName = ''User'', mcPrimaryKey = ''id'',
      mcColumns = [(''id'', \<lparr>colSerialized = True, colPrimary = True\<rparr>), (''email'', \<lparr>colSerialized = True, colPrimary = False\<rparr>),
        (''password'', \<lparr>colSerialized = False, colPrimary = False\<rparr>), (''seenAt'', \<lparr>colSerialized = True, colPrimary = False\<rparr>)],
      mcAudit = None\<rparr>"

definition sample_user :: model_row where
  "sample_user =
     \<lparr>mrClass = sample_user_class,
      mrAttributes = [(''id'', JNum 7), (''email'', JStr ''b@x''), (''password'', JStr ''p2''), (''seenAt'', JDate 0)],
      mrOriginal = [(''id'', JNum 7), (''email'', JStr ''a@x''), (''password'', JStr ''p1''), (''seenAt'', JNull)],
      mrDirty = [''email'', ''password'', ''seenAt''], mrTrx = False, mrPrimaryKeyValue = JNum 7\<rparr>"

definition no_iso :: "jsobj \<Rightarrow> jsval" where
  "no_iso fs = JNull"

theorem update_snapshot_exact_witness:
  "map_of (snd (buildUpdateSnapshot no_iso sample_user)) ''email'' = Some (JStr ''b@x'')
   \<and> map_of (fst (buildUpdateSnapshot no_iso sample_user)) ''email'' = Some (JStr ''a@x'')
   \<and> map_of (snd (buildUpdateSnapshot no_iso sample_user)) ''password'' = None"
proof -
  have d: "distinct (map fst (mcColumns (mrClass sample_user)))" "acSnapshot (getConfig sample_user) \<noteq> Some FullSnapshot"
    by code_simp+
  have e: "visible_column sample_user ''email''" "\<not> visible_column sample_user ''password''"
    by (auto simp: visible_column_def excluded_def getConfig_def sample_user_def sample_user_class_def empty_audit_config_def)
  show ?thesis
    using update_snapshot_exact [OF d, of "''email''" no_iso] update_snapshot_exact [OF d, of "''password''" no_iso] e
    by (simp add: sample_user_def)
qed

text \<open>
  What the mixin captures can be hashed: when every attribute is \<open>undefined\<close> or built from JSON
  scalars, dates, luxon dates, arrays and plain objects, the captured values are acceptable to
  the canonical serialiser.
\<close>

theorem captured_values_hashable:
  assumes "''constructor'' \<notin> fst ` set (mcColumns (mrClass m))"
    and "list_all (\<lambda>c. field (fst c) (JObj (mrAttributes m)) = JUndefined \<or> serializable (field (fst c) (JObj (mrAttributes m))))
      (mcColumns (mrClass m))"
  shows "case captureModelEvent call_iso kind m of None \<Rightarrow> True
    | Some (k, old, new) \<Rightarrow> canonical_ok (opt_obj old) \<and> canonical_ok (opt_obj new)"
  using serializeModel_ok [OF assms, of call_iso None]
  by (simp add: captureModelEvent_def opt_obj_def Let_def del: canonical_ok.simps(1))

theorem captured_values_hashable_witness:
  "case captureModelEvent no_iso Created sample_user of None \<Rightarrow> True
    | Some (k, old, new) \<Rightarrow> canonical_ok (opt_obj old) \<and> canonical_ok (opt_obj new)"
  by (rule captured_values_hashable) code_simp+

text \<open>
  The option \<open>strict\<close> has no effect: whatever the guarantee, the transaction and the outcome of
  the submission, its value does not occur in what is done. Inside a transaction (other than
  with the outbox) the event waits for the commit; outside of one every failure is thrown.
\<close>

theorem strict_has_no_effect:
  "emitWithGuarantee cfg rid now w insert_row e strict trx st =
     (if trx \<and> svGuarantee cfg \<noteq> TransactionalOutbox then (Returned, fst st @ [e], snd st)
      else let (res, sv) = submit cfg rid now w insert_row e trx ModelSource False (snd st) in (res, fst st, sv))"
  by (cases st) (auto simp: emitWithGuarantee_def split: prod.split submit_result.split)

end
