(* ===== verification/LucidRows.thy ===== *)
theory LucidRows
  imports EventJson Retention
begin

text \<open>
  \<open>src/stores/lucid_store.ts\<close>, the rows: the columns of the audits table, the conversion of a
  chained event to the row inserted for it and of a row read back to a chained event, and the
  fingerprint that decides whether two events with one id are the same.

  The platform is the dialect, \<open>Date.parse\<close>, and what the driver returns for a JSON column that
  holds a given text: the text itself (SQLite), or the parsed value, in which the database may
  have reordered the properties. Timestamps have millisecond precision and come back as stored.
\<close>

section \<open>Rows\<close>

record platform =
  plDialect :: string
  plJson :: "string \<Rightarrow> jsval"
  plParseDate :: "string \<Rightarrow> int option"

record audit_row =
  arId :: string
  arSeq :: int
  arStream :: string
  arEvent :: string
  arAuditableType :: "string option"
  arAuditableId :: "string option"
  arOldValues :: jsval
  arNewValues :: jsval
  arMetadata :: jsval
  arActorType :: string
  arActorId :: "string option"
  arActorLabel :: "string option"
  arTenantId :: "string option"
  arRequestId :: "string option"
  arCorrelationId :: "string option"
  arIpAddress :: "string option"
  arUserAgent :: "string option"
  arUrl :: "string option"
  arHttpMethod :: "string option"
  arTags :: jsval
  arSchemaVersion :: string
  arHash :: string
  arPrevHash :: string
  arCreatedAt :: jsval

definition isSqlite :: "string \<Rightarrow> bool" where
  "isSqlite dialect \<longleftrightarrow> dialect = ''sqlite'' \<or> dialect = ''sqlite3'' \<or> dialect = ''better-sqlite3''"

text \<open>\<open>new Date(value)\<close>; an invalid date is written as \<open>NaN\<close>.\<close>

definition toDbTimestamp :: "platform \<Rightarrow> string \<Rightarrow> jsval" where
  "toDbTimestamp pl s =
     (if isSqlite (plDialect pl) then JStr s
      else case plParseDate pl s of None \<Rightarrow> JNonFinite NaN | Some t \<Rightarrow> JDate t)"

definition toIsoString :: "platform \<Rightarrow> jsval \<Rightarrow> string" where
  "toIsoString pl v =
     (case v of
        JDate t \<Rightarrow> toISOString t
      | JStr s \<Rightarrow> (case plParseDate pl s of None \<Rightarrow> s | Some t \<Rightarrow> toISOString t)
      | _ \<Rightarrow> prim_string v)"

definition parseJson :: "jsval \<Rightarrow> jsobj option result" where
  "parseJson v = (case v of JNull \<Rightarrow> Inr None | JStr s \<Rightarrow> rmap obj_opt (json_parse s) | _ \<Rightarrow> Inr (obj_opt v))"

definition parseTags :: "jsval \<Rightarrow> string list result" where
  "parseTags v =
     (case v of JNull \<Rightarrow> Inr [] | JStr s \<Rightarrow> rmap (\<lambda>w. map str_of (items_of w)) (json_parse s)
      | _ \<Rightarrow> Inr (map str_of (items_of v)))"

definition rowToChainedEvent :: "platform \<Rightarrow> audit_row \<Rightarrow> chained_event result" where
  "rowToChainedEvent pl r =
     rbind (parseJson (arOldValues r)) (\<lambda>old.
     rbind (parseJson (arNewValues r)) (\<lambda>new.
     rbind (parseJson (arMetadata r)) (\<lambda>meta.
     rmap (\<lambda>tgs.
       \<lparr>base =
          \<lparr>eventId = arId r, eventName = arEvent r, stream = arStream r, auditableType = arAuditableType r,
           auditableId = arAuditableId r, oldValues = old, newValues = new, metadata = meta,
           actor = \<lparr>actorType = arActorType r, actorId = arActorId r, actorLabel = Some (arActorLabel r)\<rparr>,
           tenantId = arTenantId r, requestId = arRequestId r, correlationId = arCorrelationId r,
           ipAddress = arIpAddress r, userAgent = arUserAgent r, url = arUrl r, httpMethod = arHttpMethod r,
           tags = tgs, schemaVersion = arSchemaVersion r, createdAt = toIsoString pl (arCreatedAt r)\<rparr>,
        seq = arSeq r, hash = arHash r, prevHash = arPrevHash r\<rparr>)
     (parseTags (arTags r)))))"

text \<open>The row \<open>writeStream\<close> inserts.\<close>

definition json_text :: "jsval \<Rightarrow> jsval result" where
  "json_text v = rmap (\<lambda>t. case t of Some s \<Rightarrow> JStr s | None \<Rightarrow> JUndefined) (json_str v)"

definition json_column :: "jsobj option \<Rightarrow> jsval result" where
  "json_column vs = (case vs of None \<Rightarrow> Inr JNull | Some fs \<Rightarrow> json_text (JObj fs))"

definition label_of :: "audit_actor \<Rightarrow> string option" where
  "label_of a = (case actorLabel a of None \<Rightarrow> None | Some l \<Rightarrow> l)"

definition insertedRow :: "platform \<Rightarrow> chained_event \<Rightarrow> audit_row result" where
  "insertedRow pl ce =
     (let e = base ce in
      rbind (json_column (oldValues e)) (\<lambda>old.
      rbind (json_column (newValues e)) (\<lambda>new.
      rbind (json_column (metadata e)) (\<lambda>meta.
      rmap (\<lambda>tgs.
        \<lparr>arId = eventId e, arSeq = seq ce, arStream = stream e, arEvent = eventName e,
         arAuditableType = auditableType e, arAuditableId = auditableId e, arOldValues = old, arNewValues = new,
         arMetadata = meta, arActorType = actorType (actor e), arActorId = actorId (actor e),
         arActorLabel = label_of (actor e), arTenantId = tenantId e, arRequestId = requestId e,
         arCorrelationId = correlationId e, arIpAddress = ipAddress e, arUserAgent = userAgent e, arUrl = url e,
         arHttpMethod = httpMethod e, arTags = tgs, arSchemaVersion = schemaVersion e, arHash = hash ce,
         arPrevHash = prevHash ce, arCreatedAt = toDbTimestamp pl (createdAt e)\<rparr>)
      (json_text (JArr (map JStr (tags e))))))))"

text \<open>What a query returns for a stored row.\<close>

definition read_column :: "platform \<Rightarrow> jsval \<Rightarrow> jsval" where
  "read_column pl v = (case v of JStr t \<Rightarrow> plJson pl t | _ \<Rightarrow> v)"

definition read_row :: "platform \<Rightarrow> audit_row \<Rightarrow> audit_row" where
  "read_row pl r =
     r\<lparr>arOldValues := read_column pl (arOldValues r), arNewValues := read_column pl (arNewValues r),
       arMetadata := read_column pl (arMetadata r), arTags := read_column pl (arTags r)\<rparr>"

definition fingerprint_obj :: "platform \<Rightarrow> audit_event \<Rightarrow> jsobj" where
  "fingerprint_obj pl e =
    [(''id'', JStr (eventId e)),
     (''event'', JStr (eventName e)),
     (''stream'', JStr (stream e)),
     (''auditableType'', opt_str (auditableType e)),
     (''auditableId'', opt_str (auditableId e)),
     (''oldValues'', opt_obj (oldValues e)),
     (''newValues'', opt_obj (newValues e)),
     (''metadata'', opt_obj (metadata e)),
     (''actor'', JObj [(''type'', JStr (actorType (actor e))), (''id'', opt_str (actorId (actor e))),
        (''label'', opt_str (label_of (actor e)))]),
     (''tenantId'', opt_str (tenantId e)),
     (''requestId'', opt_str (requestId e)),
     (''correlationId'', opt_str (correlationId e)),
     (''ipAddress'', opt_str (ipAddress e)),
     (''userAgent'', opt_str (userAgent e)),
     (''url'', opt_str (url e)),
     (''httpMethod'', opt_str (httpMethod e)),
     (''tags'', JArr (map JStr (tags e))),
     (''schemaVersion'', JStr (schemaVersion e)),
     (''createdAt'', JStr (case plParseDate pl (createdAt e) of None \<Rightarrow> createdAt e | Some t \<Rightarrow> toISOString t))]"

definition auditEventFingerprint :: "platform \<Rightarrow> audit_event \<Rightarrow> string result" where
  "auditEventFingerprint pl e = canonicalJson (JObj (fingerprint_obj pl e))"

section \<open>A row read back\<close>

text \<open>The timestamps the library produces: \<open>Date.parse\<close> reads them and \<open>toISOString\<close> prints them again.\<close>

definition iso_stamp :: "platform \<Rightarrow> string \<Rightarrow> bool" where
  "iso_stamp pl s \<longleftrightarrow> (case plParseDate pl s of None \<Rightarrow> False | Some t \<Rightarrow> toISOString t = s)"

lemma stamp_roundtrip: "iso_stamp pl s \<Longrightarrow> toIsoString pl (toDbTimestamp pl s) = s"
  by (auto simp: iso_stamp_def toIsoString_def toDbTimestamp_def split: option.splits)

text \<open>A driver that keeps the data of objects and arrays in JSON columns.\<close>

definition keeps_json :: "jsval \<Rightarrow> jsval \<Rightarrow> bool" where
  "keeps_json w x \<longleftrightarrow> is_object x \<and> same_data x w \<and> (canonical_ok w \<longrightarrow> canonical_ok x) \<and> js_wf x"

definition faithful_json :: "platform \<Rightarrow> bool" where
  "faithful_json pl \<longleftrightarrow>
     (\<forall>t w. json_parse t = Inr w \<longrightarrow> is_object w \<longrightarrow> plJson pl t = JStr t \<or> keeps_json w (plJson pl t))"

lemma sqlite_faithful: "plJson pl = JStr \<Longrightarrow> faithful_json pl"
  by (simp add: faithful_json_def)

definition same_payload :: "jsobj option \<Rightarrow> jsobj option \<Rightarrow> bool" where
  "same_payload x y \<longleftrightarrow> same_data (opt_obj y) (opt_obj x) \<and> canonical_ok (opt_obj y) \<and> js_wf (opt_obj y)"

lemma same_data_obj: "same_data v (JObj fs) \<Longrightarrow> \<exists>gs. v = JObj gs"
  using same_data_root [of v "JObj fs"] by (cases v) auto

lemma same_data_arr: "same_data v (JArr xs) \<Longrightarrow> \<exists>ys. v = JArr ys \<and> length ys = length xs"
  using same_data_root [of v "JArr xs"] by (cases v) auto

lemma read_json:
  assumes "faithful_json pl" "json_parse t = Inr w" "is_object w" "js_wf w" "canonical_ok w"
  obtains "plJson pl t = JStr t" | x where "plJson pl t = x" "is_object x" "same_data x w" "canonical_ok x" "js_wf x"
  using assms unfolding faithful_json_def keeps_json_def by blast

lemma json_column_back:
  assumes "faithful_json pl" "canonical_ok (opt_obj x)" "js_wf (opt_obj x)"
  shows "\<exists>c y. json_column x = Inr c \<and> parseJson (read_column pl c) = Inr y \<and> same_payload x y"
proof (cases x)
  case None
  then show ?thesis by (simp add: json_column_def read_column_def parseJson_def same_payload_def opt_obj_def)
next
  case (Some fs)
  let ?w = "json_image (stored (JObj fs))"
  have ok: "canonical_ok (JObj fs)" "js_wf (JObj fs)" using assms(2,3) by (simp_all add: Some opt_obj_def del: canonical_ok.simps js_wf.simps)
  obtain t where t: "json_str (JObj fs) = Inr (Some t)" "json_parse t = Inr ?w"
    using stored_text(1) [OF ok] by blast
  have w: "?w = JObj (stored_fields fs)" by (simp add: stored_fields_def own_props_def)
  have k: "same_data ?w (JObj fs)" "canonical_ok ?w" "js_wf ?w"
    using stored_keeps_data [OF ok] by (simp_all only: keeps_data_def w)
  have c: "json_column x = Inr (JStr t)" using t(1) by (simp add: json_column_def json_text_def Some del: json_str.simps)
  have ob: "is_object ?w" by (simp add: w)
  have "\<exists>y. parseJson (plJson pl t) = Inr y \<and> same_payload x y"
  proof (rule read_json [OF assms(1) t(2) ob k(3,2)])
    assume "plJson pl t = JStr t"
    then show ?thesis using t(2) w k by (intro exI [of _ "Some (stored_fields fs)"])
      (simp add: parseJson_def obj_opt_def same_payload_def opt_obj_def Some del: stored.simps json_image.simps canonical_ok.simps js_wf.simps)
  next
    fix v assume v: "plJson pl t = v" "is_object v" "same_data v ?w" "canonical_ok v" "js_wf v"
    obtain gs where gs: "v = JObj gs" using v(3) same_data_obj unfolding w by blast
    then show ?thesis using v same_data_trans [OF v(3) k(1)] by (intro exI [of _ "Some gs"])
      (simp add: parseJson_def obj_opt_def same_payload_def opt_obj_def Some del: canonical_ok.simps js_wf.simps)
  qed
  then show ?thesis using c by (simp add: read_column_def)
qed

lemma scalar_str: "node_at [] v = Some (ScalarNode (JStr s)) \<Longrightarrow> v = JStr s"
  by (cases v) auto

lemma same_strings:
  assumes "same_data v (JArr (map JStr ts))"
  shows "v = JArr (map JStr ts)"
proof -
  obtain ys where ys: "v = JArr ys" "length ys = length ts" using same_data_arr [OF assms] by auto
  have "ys ! i = JStr (ts ! i)" if "i < length ts" for i
  proof -
    have "node_at [nat_str i] v = node_at [nat_str i] (JArr (map JStr ts))"
      using assms nat_str_not_proto [of i] by (simp add: same_data_def)
    then show ?thesis using that ys by (intro scalar_str) simp
  qed
  then show ?thesis using ys by (auto intro: nth_equalityI)
qed

lemma tags_back:
  assumes "faithful_json pl"
  shows "\<exists>c. json_text (JArr (map JStr ts)) = Inr c \<and> parseTags (read_column pl c) = Inr ts"
proof -
  let ?v = "JArr (map JStr ts)"
  have ok: "canonical_ok ?v" "js_wf ?v" by (simp_all add: list_all_iff)
  obtain t where t: "json_str ?v = Inr (Some t)" "json_parse t = Inr ?v"
    using stored_text(1) [OF ok] stored_strings by auto
  have "parseTags (plJson pl t) = Inr ts"
  proof (rule read_json [OF assms t(2) _ ok(2,1)])
    assume "plJson pl t = JStr t"
    then show ?thesis using t(2) by (simp add: parseTags_def)
  next
    fix x assume "plJson pl t = x" "same_data x ?v"
    then show ?thesis using same_strings [of x ts] by (simp add: parseTags_def)
  qed simp
  then show ?thesis using t(1) by (simp add: json_text_def read_column_def del: json_str.simps)
qed

text \<open>The event a stored event is read back as: payloads with the same data, the label filled in.\<close>

definition as_read :: "audit_event \<Rightarrow> jsobj option \<Rightarrow> jsobj option \<Rightarrow> jsobj option \<Rightarrow> audit_event" where
  "as_read e old new meta =
     e\<lparr>oldValues := old, newValues := new, metadata := meta,
       actor := (actor e)\<lparr>actorLabel := Some (label_of (actor e))\<rparr>\<rparr>"

definition read_back :: "audit_event \<Rightarrow> audit_event \<Rightarrow> bool" where
  "read_back e e' \<longleftrightarrow>
     e' = as_read e (oldValues e') (newValues e') (metadata e')
     \<and> same_payload (oldValues e) (oldValues e') \<and> same_payload (newValues e) (newValues e')
     \<and> same_payload (metadata e) (metadata e')"

lemma as_read_simps [simp]:
  "oldValues (as_read e old new meta) = old" "newValues (as_read e old new meta) = new" "metadata (as_read e old new meta) = meta"
  "eventId (as_read e old new meta) = eventId e" "stream (as_read e old new meta) = stream e"
  "createdAt (as_read e old new meta) = createdAt e"
  by (simp_all add: as_read_def)

lemma read_backE:
  assumes "read_back e e'"
  obtains old new meta where "e' = as_read e old new meta" "same_payload (oldValues e) old" "same_payload (newValues e) new"
    "same_payload (metadata e) meta"
  using assms unfolding read_back_def by blast

definition storable :: "platform \<Rightarrow> audit_event \<Rightarrow> bool" where
  "storable pl e \<longleftrightarrow> hashable e \<and> payloads_wf e \<and> iso_stamp pl (createdAt e)"

lemma row_back:
  assumes "faithful_json pl" "storable pl (base ce)"
  shows "\<exists>r e'. insertedRow pl ce = Inr r \<and> rowToChainedEvent pl (read_row pl r) = Inr (ce\<lparr>base := e'\<rparr>) \<and> read_back (base ce) e'
    \<and> arId r = eventId (base ce) \<and> arSeq r = seq ce \<and> arStream r = stream (base ce) \<and> arHash r = hash ce
    \<and> arCreatedAt r = toDbTimestamp pl (createdAt (base ce)) \<and> arEvent r = eventName (base ce)"
proof -
  let ?e = "base ce"
  have e: "canonical_ok (opt_obj (oldValues ?e))" "canonical_ok (opt_obj (newValues ?e))" "canonical_ok (opt_obj (metadata ?e))"
    "js_wf (opt_obj (oldValues ?e))" "js_wf (opt_obj (newValues ?e))" "js_wf (opt_obj (metadata ?e))"
    "toIsoString pl (toDbTimestamp pl (createdAt ?e)) = createdAt ?e"
    using assms(2) stamp_roundtrip by (simp_all add: storable_def hashable_def payloads_wf_def)
  obtain o1 o2 where old: "json_column (oldValues ?e) = Inr o1" "parseJson (read_column pl o1) = Inr o2" "same_payload (oldValues ?e) o2"
    using json_column_back [OF assms(1) e(1,4)] by blast
  obtain n1 n2 where new: "json_column (newValues ?e) = Inr n1" "parseJson (read_column pl n1) = Inr n2" "same_payload (newValues ?e) n2"
    using json_column_back [OF assms(1) e(2,5)] by blast
  obtain m1 m2 where meta: "json_column (metadata ?e) = Inr m1" "parseJson (read_column pl m1) = Inr m2" "same_payload (metadata ?e) m2"
    using json_column_back [OF assms(1) e(3,6)] by blast
  obtain t1 where tgs: "json_text (JArr (map JStr (tags ?e))) = Inr t1" "parseTags (read_column pl t1) = Inr (tags ?e)"
    using tags_back [OF assms(1)] by blast
  let ?e' = "as_read ?e o2 n2 m2"
  have "read_back ?e ?e'" using old(3) new(3) meta(3) by (simp add: read_back_def)
  moreover obtain r where r: "insertedRow pl ce = Inr r" using old new meta tgs by (simp add: insertedRow_def Let_def)
  moreover have "rowToChainedEvent pl (read_row pl r) = Inr (ce\<lparr>base := ?e'\<rparr>)"
    using r old new meta tgs e(7) by (auto simp: insertedRow_def Let_def rowToChainedEvent_def read_row_def as_read_def result_iff)
  moreover have "arId r = eventId ?e \<and> arSeq r = seq ce \<and> arStream r = stream ?e \<and> arHash r = hash ce
      \<and> arCreatedAt r = toDbTimestamp pl (createdAt ?e) \<and> arEvent r = eventName ?e"
    using r old new meta tgs by (auto simp: insertedRow_def Let_def result_iff)
  ultimately show ?thesis by blast
qed

section \<open>What a row read back keeps\<close>

lemma read_back_text:
  assumes "read_back e e'" "hashable e" "payloads_wf e"
  shows "hashable e'" "payloads_wf e'" "hashed_text e' n p = hashed_text e n p"
proof -
  show ok: "hashable e'" "payloads_wf e'"
    using assms(1) by (auto elim!: read_backE simp: same_payload_def hashable_def payloads_wf_def)
  have "same_hashed_fields e' e"
    using assms(1) by (auto elim!: read_backE simp: as_read_def same_hashed_fields_def same_payload_def)
  then show "hashed_text e' n p = hashed_text e n p"
    using ok assms by (intro same_fields_same_text)
qed

lemma same_data_props:
  assumes "list_all2 (\<lambda>p q. fst p = fst q \<and> same_data (snd p) (snd q)) fs gs"
  shows "same_data (JObj fs) (JObj gs)"
proof -
  have "rel_option same_data (map_of fs k) (map_of gs k)" for k
    using assms by (induction rule: list_all2_induct) auto
  then have "node_at q (JObj fs) = node_at q (JObj gs)" if "''__proto__'' \<notin> set q" for q
    using that
  proof (cases q)
    case (Cons k r)
    then show ?thesis using \<open>rel_option same_data (map_of fs k) (map_of gs k)\<close> that
      by (cases "map_of fs k"; cases "map_of gs k") (simp_all add: same_data_def)
  qed simp
  then show ?thesis by (simp add: same_data_def)
qed

lemma fingerprint_ok: "hashable e \<Longrightarrow> canonical_ok (JObj (fingerprint_obj pl e))"
  by (simp add: fingerprint_obj_def hashable_def is_plain_def list_all_iff)

lemma letter_not_index: "\<not> is_digit c \<Longrightarrow> \<not> is_index_key (c # cs)"
  by (auto simp: is_index_key_def is_digit_def char_code_def)

lemma keys_ordered: "distinct (map fst fs) \<Longrightarrow> list_all (\<lambda>k. \<not> is_index_key k) (map fst fs) \<Longrightarrow> props_ok fs"
  by (induction fs) (auto simp: props_ok_def key_before_def list_all_iff)

lemma letter_digits: "\<not> is_digit CHR ''i''" "\<not> is_digit CHR ''e''" "\<not> is_digit CHR ''s''" "\<not> is_digit CHR ''a''" "\<not> is_digit CHR ''o''"
  "\<not> is_digit CHR ''n''" "\<not> is_digit CHR ''m''" "\<not> is_digit CHR ''t''" "\<not> is_digit CHR ''r''" "\<not> is_digit CHR ''c''"
  "\<not> is_digit CHR ''u''" "\<not> is_digit CHR ''h''" "\<not> is_digit CHR ''l''"
  by (simp_all add: is_digit_def char_code_def)

lemma fingerprint_wf: "payloads_wf e \<Longrightarrow> js_wf (JObj (fingerprint_obj pl e))"
proof -
  assume w: "payloads_wf e"
  have "props_ok (fingerprint_obj pl e)"
    by (rule keys_ordered) (simp_all add: fingerprint_obj_def letter_not_index letter_digits)
  moreover have "props_ok [(''type'', x), (''id'', y), (''label'', z)]" for x y z
    by (rule keys_ordered) (simp_all add: letter_not_index letter_digits)
  ultimately show ?thesis using w
    by (simp add: fingerprint_obj_def payloads_wf_def list_all_iff)
qed

lemma read_back_fingerprint:
  assumes "read_back e e'" "hashable e" "payloads_wf e"
  shows "auditEventFingerprint pl e' = auditEventFingerprint pl e"
proof -
  have "same_data (JObj (fingerprint_obj pl e')) (JObj (fingerprint_obj pl e))"
    using assms(1) by (intro same_data_props) (erule read_backE, simp add: fingerprint_obj_def as_read_def same_payload_def label_of_def cong: option.case_cong)
  then show ?thesis unfolding auditEventFingerprint_def
    using fingerprint_ok fingerprint_wf read_back_text(1,2) [OF assms] assms(2,3) by (subst canonical_text_same) simp_all
qed

end
