(* ===== verification/LucidStore.thy ===== *)
theory LucidStore
  imports LucidRows "HOL-Library.Sublist"
begin

text \<open>
  \<open>src/stores/lucid_store.ts\<close>, the store: the three tables and every operation over them. A query
  is a filter and a stable sort; the primary key and the unique index on (stream, seq) are checked
  by the insertions. A transaction either commits as a whole or leaves the tables alone; its
  failures and the outcome of the MySQL lock come from the environment.
\<close>

section \<open>Tables\<close>

record checkpoint =
  cpStream :: string
  cpSeq :: int
  cpHash :: string
  cpCreatedAt :: jsval

record archived =
  avId :: string
  avStream :: string
  avSeq :: int
  avHash :: string
  avPrevHash :: string
  avCreatedAt :: jsval

record lucid_db =
  auRows :: "audit_row list"
  auArchive :: "archived list"
  auCheckpoints :: "checkpoint list"

record lucid_env =
  leLock :: "string \<Rightarrow> bool"
  leFailure :: "string \<Rightarrow> audit_error option"

definition live :: "lucid_db \<Rightarrow> string \<Rightarrow> audit_row list" where
  "live db s = sort_key arSeq (filter (\<lambda>r. arStream r = s) (auRows db))"

definition read_event :: "platform \<Rightarrow> audit_row \<Rightarrow> chained_event result" where
  "read_event pl r = rowToChainedEvent pl (read_row pl r)"

definition head :: "lucid_db \<Rightarrow> string \<Rightarrow> chain_head option" where
  "head db s = (case rev (live db s) of [] \<Rightarrow> None | r # rs \<Rightarrow> Some (arSeq r, arHash r))"

definition listStreams :: "lucid_db \<Rightarrow> string list" where
  "listStreams db = sort_key id (remdups (map arStream (auRows db)))"

section \<open>Writing\<close>

definition integrity_error :: "string \<Rightarrow> string \<Rightarrow> audit_error" where
  "integrity_error i what = AuditOutboxIntegrityError (''Audit event '' @ i @ what)"

definition same_fingerprint :: "platform \<Rightarrow> string \<Rightarrow> audit_event \<Rightarrow> audit_event \<Rightarrow> unit result" where
  "same_fingerprint pl what a b =
     rbind (auditEventFingerprint pl a) (\<lambda>x. rbind (auditEventFingerprint pl b) (\<lambda>y.
       if x = y then Inr () else Inl (integrity_error (eventId b) what)))"

text \<open>The loop over the batch: conflicts are rejected, known events answered, new ones grouped by stream.\<close>

fun classify ::
  "platform \<Rightarrow> (string \<times> chained_event) list \<Rightarrow> audit_event list \<Rightarrow> (string \<times> audit_event) list \<Rightarrow> (string \<times> audit_event list) list
   \<Rightarrow> (string \<times> chained_event) list \<Rightarrow> ((string \<times> audit_event list) list \<times> (string \<times> chained_event) list) result" where
  "classify pl existing [] incoming byStream results = Inr (byStream, results)"
| "classify pl existing (e # es) incoming byStream results =
     rbind (case map_of incoming (eventId e) of None \<Rightarrow> Inr ()
            | Some d \<Rightarrow> same_fingerprint pl '' has conflicting duplicate payloads'' d e) (\<lambda>_.
       let incoming' = AList.update (eventId e) e incoming in
       case map_of existing (eventId e) of
         Some st \<Rightarrow>
           rbind (same_fingerprint pl '' conflicts with the target store'' (base st) e) (\<lambda>_.
             classify pl existing es incoming' byStream (AList.update (eventId e) st results))
       | None \<Rightarrow>
           if map_of incoming (eventId e) \<noteq> None then classify pl existing es incoming' byStream results
           else classify pl existing es incoming' (group_push stream byStream e) results)"

definition acquireLock :: "platform \<Rightarrow> lucid_env \<Rightarrow> string \<Rightarrow> unit result" where
  "acquireLock pl env s =
     (if (plDialect pl = ''mysql2'' \<or> plDialect pl = ''mysql'') \<and> \<not> leLock env s
      then Inl (AuditStoreError (''Could not acquire MySQL advisory lock for audit stream \"'' @ s @ ''\"''))
      else Inr ())"

definition row_key :: "audit_row \<Rightarrow> string \<times> int" where
  "row_key r = (arStream r, arSeq r)"

definition insert_rows :: "audit_row list \<Rightarrow> lucid_db \<Rightarrow> lucid_db result" where
  "insert_rows rows db =
     (let all = auRows db @ rows in
      if distinct (map arId all) \<and> distinct (map row_key all) then Inr (db\<lparr>auRows := all\<rparr>)
      else Inl (JsError ''UNIQUE constraint failed''))"

text \<open>The transaction of one stream; a failure leaves the tables as they were.\<close>

definition writeStream ::
  "(string \<Rightarrow> string) \<Rightarrow> platform \<Rightarrow> lucid_env \<Rightarrow> string \<Rightarrow> audit_event list \<Rightarrow> lucid_db \<Rightarrow> chained_event list result \<times> lucid_db" where
  "writeStream H pl env s events db =
     (case rbind (acquireLock pl env s) (\<lambda>_.
           rbind (chainBatch H events (head db s)) (\<lambda>chained.
           rbind (mapR (insertedRow pl) chained) (\<lambda>rows.
           rbind (insert_rows rows db) (\<lambda>db'.
             case leFailure env s of None \<Rightarrow> Inr (chained, db') | Some e \<Rightarrow> Inl e)))) of
        Inl e \<Rightarrow> (Inl e, db)
      | Inr (chained, db') \<Rightarrow> (Inr chained, db'))"

definition add_results :: "chained_event list \<Rightarrow> (string \<times> chained_event) list \<Rightarrow> (string \<times> chained_event) list" where
  "add_results chained results = foldl (\<lambda>m ce. AList.update (eventId (base ce)) ce m) results chained"

fun write_streams ::
  "(string \<Rightarrow> string) \<Rightarrow> platform \<Rightarrow> lucid_env \<Rightarrow> (string \<times> audit_event list) list \<Rightarrow> (string \<times> chained_event) list \<Rightarrow> lucid_db
   \<Rightarrow> (string \<times> chained_event) list result \<times> lucid_db" where
  "write_streams H pl env [] results db = (Inr results, db)"
| "write_streams H pl env ((s, events) # gs) results db =
     sbind (writeStream H pl env s events db) (\<lambda>chained db.
       write_streams H pl env gs (add_results chained results) db)"

definition collect :: "(string \<times> chained_event) list \<Rightarrow> audit_event list \<Rightarrow> chained_event list result" where
  "collect results = mapR (\<lambda>e. case map_of results (eventId e) of
     Some ce \<Rightarrow> Inr ce | None \<Rightarrow> Inl (integrity_error (eventId e) '' was not persisted''))"

definition existing_rows :: "platform \<Rightarrow> audit_event list \<Rightarrow> lucid_db \<Rightarrow> (string \<times> chained_event) list result" where
  "existing_rows pl batch db =
     rmap (\<lambda>es. foldl (\<lambda>m p. AList.update (fst p) (snd p) m) [] es)
       (mapR (\<lambda>r. rmap (Pair (arId r)) (read_event pl r)) (filter (\<lambda>r. arId r \<in> eventId ` set batch) (auRows db)))"

definition lucid_write ::
  "(string \<Rightarrow> string) \<Rightarrow> platform \<Rightarrow> lucid_env \<Rightarrow> audit_event list \<Rightarrow> lucid_db \<Rightarrow> chained_event list result \<times> lucid_db" where
  "lucid_write H pl env batch db =
     (if batch = [] then (Inr [], db)
      else case rbind (existing_rows pl batch db) (\<lambda>existing. classify pl existing batch [] [] []) of
        Inl e \<Rightarrow> (Inl e, db)
      | Inr (byStream, results) \<Rightarrow>
          sbind (write_streams H pl env byStream results db) (\<lambda>results db. (collect results batch, db)))"


section \<open>Live rows\<close>

lemma sort_key_append:
  assumes "sorted (map f ys)" "\<And>x y. x \<in> set xs \<Longrightarrow> y \<in> set ys \<Longrightarrow> f x \<le> f y"
  shows "sort_key f (xs @ ys) = sort_key f xs @ ys"
  using assms(2)
proof (induction xs)
  case Nil
  then show ?case using assms(1) by (simp add: sort_key_id_if_sorted)
next
  case (Cons x xs)
  have "insort_key f x (zs @ ys) = insort_key f x zs @ ys" if "\<forall>y \<in> set ys. f x \<le> f y" for zs
    using that by (induction zs) (cases ys; simp)+
  then show ?case using Cons by simp
qed

lemma set_live [simp]: "set (live db s) = {r \<in> set (auRows db). arStream r = s}"
  by (auto simp: live_def)

lemma sorted_live: "sorted (map arSeq (live db s))"
  by (simp add: live_def)

lemma read_event_keeps:
  assumes "read_event pl r = Inr ev"
  shows "eventId (base ev) = arId r" "stream (base ev) = arStream r" "seq ev = arSeq r" "hash ev = arHash r" "prevHash ev = arPrevHash r"
  using assms by (auto simp: read_event_def rowToChainedEvent_def read_row_def result_iff)

lemma read_events_keep:
  assumes "mapR (read_event pl) rows = Inr evs"
  shows "map seq evs = map arSeq rows" "map hash evs = map arHash rows" "length evs = length rows"
  using assms by (induction rows arbitrary: evs) (auto simp: result_iff read_event_keeps)

lemma linked_seqs: "linked_from H n p evs \<Longrightarrow> map seq evs = map (\<lambda>i. n + int i) [0..<length evs]"
  by (rule nth_equalityI) (simp_all add: linked_from_seq)

section \<open>The invariant of the tables\<close>

text \<open>
  The newest checkpoint before the first live row, or the genesis: where the chain of the live rows
  of a stream starts.
\<close>

definition base_point :: "lucid_db \<Rightarrow> string \<Rightarrow> int \<times> string" where
  "base_point db s =
     (case live db s of
        [] \<Rightarrow> (0, GENESIS)
      | first # rs \<Rightarrow>
          (case rev (sort_key cpSeq (filter (\<lambda>c. cpStream c = s \<and> cpSeq c < arSeq first) (auCheckpoints db))) of
             [] \<Rightarrow> (0, GENESIS)
           | c # cs \<Rightarrow> (cpSeq c, cpHash c)))"

definition chained_stream :: "(string \<Rightarrow> string) \<Rightarrow> platform \<Rightarrow> lucid_db \<Rightarrow> string \<Rightarrow> bool" where
  "chained_stream H pl db s \<longleftrightarrow>
     (\<exists>evs. mapR (read_event pl) (live db s) = Inr evs
        \<and> linked_from H (fst (base_point db s) + 1) (snd (base_point db s)) evs)"

definition lucid_inv :: "(string \<Rightarrow> string) \<Rightarrow> platform \<Rightarrow> lucid_db \<Rightarrow> bool" where
  "lucid_inv H pl db \<longleftrightarrow>
     distinct (map arId (auRows db)) \<and> distinct (map row_key (auRows db))
     \<and> list_all (\<lambda>c. 1 \<le> cpSeq c) (auCheckpoints db) \<and> (\<forall>s. chained_stream H pl db s)"

definition empty_db :: lucid_db where
  "empty_db = \<lparr>auRows = [], auArchive = [], auCheckpoints = []\<rparr>"

lemma lucid_inv_empty: "lucid_inv H pl empty_db"
  by (simp add: lucid_inv_def empty_db_def chained_stream_def live_def)

lemma chained_live:
  assumes "chained_stream H pl db s" "base_point db s = (n, p)"
  obtains evs where "mapR (read_event pl) (live db s) = Inr evs" "linked_from H (n + 1) p evs"
    "map arSeq (live db s) = map (\<lambda>i. n + 1 + int i) [0..<length (live db s)]"
    "head db s = (if live db s = [] then None else Some (n + int (length (live db s)), end_hash p evs))"
proof -
  obtain evs where evs: "mapR (read_event pl) (live db s) = Inr evs" "linked_from H (n + 1) p evs"
    using assms unfolding chained_stream_def by auto
  note k = read_events_keep [OF evs(1)]
  have q: "map arSeq (live db s) = map (\<lambda>i. n + 1 + int i) [0..<length (live db s)]"
    using linked_seqs [OF evs(2)] k by simp
  have "head db s = (if live db s = [] then None else Some (n + int (length (live db s)), end_hash p evs))"
  proof (cases "live db s" rule: rev_cases)
    case (snoc rs r)
    have "arSeq r = n + 1 + int (length rs)"
      using arg_cong [OF q, of last] snoc by simp
    moreover have "end_hash p evs = arHash r"
      using arg_cong [OF k(2), of last] k(3) snoc by (cases evs rule: rev_cases) (auto simp: end_hash_def)
    ultimately show ?thesis using snoc by (simp add: head_def)
  qed (simp add: head_def)
  with evs q show ?thesis by (rule that)
qed

section \<open>One transaction\<close>

definition stored_as :: "platform \<Rightarrow> chained_event \<Rightarrow> audit_row \<Rightarrow> bool" where
  "stored_as pl c r \<longleftrightarrow>
     arId r = eventId (base c) \<and> arStream r = stream (base c) \<and> arSeq r = seq c
     \<and> arEvent r = eventName (base c) \<and> arCreatedAt r = toDbTimestamp pl (createdAt (base c))
     \<and> (\<exists>e. read_event pl r = Inr (c\<lparr>base := e\<rparr>) \<and> read_back (base c) e)"

lemma stored_asI:
  "arId r = eventId (base c) \<Longrightarrow> arStream r = stream (base c) \<Longrightarrow> arSeq r = seq c \<Longrightarrow> arEvent r = eventName (base c)
   \<Longrightarrow> arCreatedAt r = toDbTimestamp pl (createdAt (base c)) \<Longrightarrow> read_event pl r = Inr (c\<lparr>base := e\<rparr>)
   \<Longrightarrow> read_back (base c) e \<Longrightarrow> stored_as pl c r"
  by (auto simp: stored_as_def)

lemma written_rows:
  assumes "faithful_json pl" "list_all (storable pl) es" "chain_from H n p es = Inr cs"
  shows "\<exists>rows evs. mapR (insertedRow pl) cs = Inr rows \<and> list_all2 (stored_as pl) cs rows
    \<and> mapR (read_event pl) rows = Inr evs \<and> linked_from H n p evs"
  using assms(2,3)
proof (induction es arbitrary: n p cs)
  case Nil
  then show ?case by simp
next
  case (Cons e es)
  then obtain h cs' where c: "hashEntry H e n p = Inr h" "chain_from H (n + 1) h es = Inr cs'"
    "cs = \<lparr>base = e, seq = n, hash = h, prevHash = p\<rparr> # cs'"
    by (auto simp: result_iff)
  let ?c = "\<lparr>base = e, seq = n, hash = h, prevHash = p\<rparr>"
  have sto: "storable pl (base ?c)" using Cons.prems(1) by simp
  obtain r e' where r: "insertedRow pl ?c = Inr r" "rowToChainedEvent pl (read_row pl r) = Inr (?c\<lparr>base := e'\<rparr>)"
    "read_back e e'" "arId r = eventId e" "arSeq r = n" "arStream r = stream e"
    "arEvent r = eventName e" "arCreatedAt r = toDbTimestamp pl (createdAt e)"
    using row_back [OF assms(1) sto] by auto
  have re: "read_event pl r = Inr (?c\<lparr>base := e'\<rparr>)" using r(2) by (simp add: read_event_def)
  have "hashEntry H e' n p = Inr h"
    using read_back_text(3) [OF r(3), of n p] sto c(1) by (simp add: storable_def hashEntry_def)
  moreover obtain rows evs where "mapR (insertedRow pl) cs' = Inr rows" "list_all2 (stored_as pl) cs' rows"
    "mapR (read_event pl) rows = Inr evs" "linked_from H (n + 1) h evs"
    using Cons.IH [OF _ c(2)] Cons.prems(1) by auto
  ultimately show ?case
    using r c(3) re stored_asI [of r ?c pl e'] by (intro exI [of _ "r # rows"] exI [of _ "?c\<lparr>base := e'\<rparr> # evs"]) simp
qed

lemma stored_as_keeps:
  "list_all2 (stored_as pl) cs rows \<Longrightarrow> map arId rows = map (\<lambda>c. eventId (base c)) cs \<and> map arStream rows = map (\<lambda>c. stream (base c)) cs
     \<and> map arSeq rows = map seq cs"
  by (induction rule: list_all2_induct) (simp_all add: stored_as_def)

definition continues :: "(string \<Rightarrow> string) \<Rightarrow> chain_head option \<Rightarrow> chained_event list \<Rightarrow> bool" where
  "continues H h evs \<longleftrightarrow> (case h of None \<Rightarrow> linked_from H 1 GENESIS evs | Some (n, p) \<Rightarrow> linked_from H (n + 1) p evs)"

lemma live_other:
  "list_all (\<lambda>r. arStream r = s) rows \<Longrightarrow> s' \<noteq> s \<Longrightarrow> live (db\<lparr>auRows := auRows db @ rows\<rparr>) s' = live db s'"
  by (induction rows rule: rev_induct) (auto simp: live_def)

lemma base_point_same:
  "live db' s = live db s \<Longrightarrow> auCheckpoints db' = auCheckpoints db \<Longrightarrow> base_point db' s = base_point db s"
  by (simp only: base_point_def)

lemma append_live:
  assumes "chained_stream H pl db s" "list_all (\<lambda>r. arStream r = s) rows"
    "mapR (read_event pl) rows = Inr evs" "continues H (head db s) evs" "list_all (\<lambda>c. 1 \<le> cpSeq c) (auCheckpoints db)"
  defines "db' \<equiv> db\<lparr>auRows := auRows db @ rows\<rparr>"
  shows "live db' s = live db s @ rows" "chained_stream H pl db' s"
proof -
  obtain n p where b: "base_point db s = (n, p)" by fastforce
  obtain evs0 where l: "mapR (read_event pl) (live db s) = Inr evs0" "linked_from H (n + 1) p evs0"
    "map arSeq (live db s) = map (\<lambda>i. n + 1 + int i) [0..<length (live db s)]"
    "head db s = (if live db s = [] then None else Some (n + int (length (live db s)), end_hash p evs0))"
    by (rule chained_live [OF assms(1) b])
  have np: "n = 0 \<and> p = GENESIS" if "live db s = []" using b that by (simp add: base_point_def)
  have evs: "linked_from H (n + int (length (live db s)) + 1) (end_hash p evs0) evs"
    using assms(4) l np read_events_keep [OF l(1)] by (auto simp: continues_def split: if_splits)
  have rs: "map arSeq rows = map (\<lambda>i. n + int (length (live db s)) + 1 + int i) [0..<length rows]"
    using linked_seqs [OF evs] read_events_keep [OF assms(3)] by simp
  have old: "arSeq x \<le> n + int (length (live db s))" if "x \<in> set (live db s)" for x
  proof -
    have "arSeq x \<in> set (map arSeq (live db s))" using that by (simp del: set_live)
    then show ?thesis unfolding l(3) by auto
  qed
  have new: "n + int (length (live db s)) < arSeq y" if "y \<in> set rows" for y
  proof -
    have "arSeq y \<in> set (map arSeq rows)" using that by simp
    then show ?thesis unfolding rs by auto
  qed
  have fl: "filter (\<lambda>r. arStream r = s) rows = rows" using assms(2) by (simp add: list_all_iff)
  have "sorted (map arSeq rows)" unfolding rs by (auto simp: sorted_iff_nth_mono)
  moreover have "arSeq x \<le> arSeq y" if "x \<in> set (filter (\<lambda>r. arStream r = s) (auRows db))" "y \<in> set rows" for x y
    using old [of x] new [OF that(2)] that(1) by simp
  ultimately have "sort_key arSeq (filter (\<lambda>r. arStream r = s) (auRows db) @ rows) = live db s @ rows"
    unfolding live_def by (intro sort_key_append) auto
  then show lv: "live db' s = live db s @ rows"
    by (simp add: live_def db'_def fl)
  have bp: "base_point db' s = (n, p)" if "rows \<noteq> []"
  proof (cases "live db s")
    case Nil
    then have "arSeq (hd rows) = 1" using arg_cong [OF rs, of hd] that np by (simp add: hd_map upt_rec [of 0])
    then have "filter (\<lambda>c. cpStream c = s \<and> cpSeq c < arSeq (hd rows)) (auCheckpoints db) = []"
      using assms(5) by (auto simp: filter_empty_conv list_all_iff)
    then show ?thesis using lv Nil that np by (cases rows) (simp_all add: base_point_def db'_def)
  next
    case (Cons r rs)
    then show ?thesis using lv b by (simp add: base_point_def db'_def)
  qed
  show "chained_stream H pl db' s"
  proof (cases "rows = []")
    case True
    then have "db' = db" by (simp add: db'_def)
    then show ?thesis using assms(1) by simp
  next
    case False
    have "mapR (read_event pl) (live db' s) = Inr (evs0 @ evs)" using lv l(1) assms(3) by (simp add: mapR_append)
    moreover have "linked_from H (n + 1) p (evs0 @ evs)"
      using l(2) evs read_events_keep [OF l(1)] by (simp add: algebra_simps)
    ultimately show ?thesis using bp [OF False] by (simp add: chained_stream_def)
  qed
qed

lemma insert_rows_Inr:
  "insert_rows rows db = Inr db' \<longleftrightarrow>
     distinct (map arId (auRows db @ rows)) \<and> distinct (map row_key (auRows db @ rows)) \<and> db' = db\<lparr>auRows := auRows db @ rows\<rparr>"
  by (auto simp: insert_rows_def Let_def)

text \<open>A batch of events that the store can keep, all of one stream.\<close>

definition stream_batch :: "platform \<Rightarrow> string \<Rightarrow> audit_event list \<Rightarrow> bool" where
  "stream_batch pl s es \<longleftrightarrow> list_all (\<lambda>e. storable pl e \<and> stream e = s) es"

definition appended :: "platform \<Rightarrow> chained_event list \<Rightarrow> lucid_db \<Rightarrow> lucid_db \<Rightarrow> bool" where
  "appended pl cs db db' \<longleftrightarrow> (\<exists>rows. db' = db\<lparr>auRows := auRows db @ rows\<rparr> \<and> list_all2 (stored_as pl) cs rows)
     \<and> (\<forall>s. prefix (live db s) (live db' s))"

lemma appended_refl [simp]: "appended pl [] db db"
  by (simp add: appended_def)

lemma appended_trans: "appended pl cs db db' \<Longrightarrow> appended pl ds db' db'' \<Longrightarrow> appended pl (cs @ ds) db db''"
proof -
  assume a: "appended pl cs db db'" "appended pl ds db' db''"
  then have "prefix (live db s) (live db'' s)" for s unfolding appended_def using prefix_order.trans by blast
  then show ?thesis using a unfolding appended_def by (fastforce intro: list_all2_appendI)
qed

lemma prepared_rows:
  assumes "faithful_json pl" "stream_batch pl s es" "chainBatch H es h = Inr cs"
  shows "\<exists>rows evs. mapR (insertedRow pl) cs = Inr rows \<and> list_all2 (stored_as pl) cs rows
    \<and> mapR (read_event pl) rows = Inr evs \<and> continues H h evs \<and> map base cs = es \<and> list_all (\<lambda>r. arStream r = s) rows"
proof -
  obtain n p where c: "chain_from H n p es = Inr cs" "continues H h evs = linked_from H n p evs" for evs
    using assms(3) by (cases h) (auto simp: chainBatch_def continues_def)
  have sto: "list_all (storable pl) es" using assms(2) by (simp add: stream_batch_def list_all_iff)
  obtain rows evs where r: "mapR (insertedRow pl) cs = Inr rows" "list_all2 (stored_as pl) cs rows"
    "mapR (read_event pl) rows = Inr evs" "linked_from H n p evs"
    using written_rows [OF assms(1) sto c(1)] by blast
  have b: "map base cs = es" using chain_from_linked [OF c(1)] by simp
  have st: "map arStream rows = map stream es" using stored_as_keeps [OF r(2)] by (simp add: comp_def flip: b)
  have "arStream ` set rows = stream ` set es" using arg_cong [OF st, of set] by simp
  then have "list_all (\<lambda>r. arStream r = s) rows"
    using assms(2) unfolding stream_batch_def list_all_iff by (metis imageE imageI)
  with r b c(2) show ?thesis by blast
qed

lemma inserted_inv:
  assumes "lucid_inv H pl db" "list_all (\<lambda>r. arStream r = s) rows" "mapR (read_event pl) rows = Inr evs"
    "continues H (head db s) evs" "insert_rows rows db = Inr db'"
  shows "lucid_inv H pl db'"
proof -
  have d: "db' = db\<lparr>auRows := auRows db @ rows\<rparr>" "distinct (map arId (auRows db'))" "distinct (map row_key (auRows db'))"
    using assms(5) by (simp_all add: insert_rows_Inr)
  have "chained_stream H pl db' t" for t
  proof (cases "t = s")
    case True
    then show ?thesis using append_live(2) [of H pl db s rows evs] assms d(1) by (simp add: lucid_inv_def)
  next
    case False
    then have l: "live db' t = live db t" using live_other [OF assms(2)] d(1) by simp
    then have "base_point db' t = base_point db t" using d(1) by (intro base_point_same) simp_all
    then show ?thesis using assms(1) l by (simp add: lucid_inv_def chained_stream_def)
  qed
  then show ?thesis using assms(1) d by (simp add: lucid_inv_def)
qed

lemma writeStream_returns:
  assumes "lucid_inv H pl db" "faithful_json pl" "stream_batch pl s es" "writeStream H pl env s es db = (Inr cs, db')"
  shows "lucid_inv H pl db'" "appended pl cs db db'" "map base cs = es"
proof -
  obtain rows where w: "chainBatch H es (head db s) = Inr cs" "mapR (insertedRow pl) cs = Inr rows" "insert_rows rows db = Inr db'"
    using assms(4) by (auto simp: writeStream_def result_iff split: sum.splits option.splits)
  obtain evs where r: "list_all2 (stored_as pl) cs rows" "mapR (read_event pl) rows = Inr evs" "continues H (head db s) evs"
    "map base cs = es" "list_all (\<lambda>r. arStream r = s) rows"
    using prepared_rows [OF assms(2,3) w(1)] w(2) by auto
  show "lucid_inv H pl db'" by (rule inserted_inv [OF assms(1) r(5,2,3) w(3)])
  have d: "db' = db\<lparr>auRows := auRows db @ rows\<rparr>" using w(3) by (simp add: insert_rows_Inr)
  have "prefix (live db t) (live db' t)" for t
    using append_live(1) [of H pl db s rows evs] live_other [OF r(5), of t db] r(2,3,5) assms(1) d
    by (cases "t = s") (simp_all add: lucid_inv_def)
  then show "appended pl cs db db'" using r(1) d unfolding appended_def by blast
  show "map base cs = es" by (rule r(4))
qed

lemma writeStream_throws: "writeStream H pl env s es db = (Inl e, db') \<Longrightarrow> db' = db"
  by (auto simp: writeStream_def split: sum.splits)

text \<open>The lock is granted and the transaction commits.\<close>

definition available :: "platform \<Rightarrow> lucid_env \<Rightarrow> string \<Rightarrow> bool" where
  "available pl env s \<longleftrightarrow> acquireLock pl env s = Inr () \<and> leFailure env s = None"

lemma fresh_row_keys:
  assumes "chained_stream H pl db s" "list_all (\<lambda>r. arStream r = s) rows" "mapR (read_event pl) rows = Inr evs"
    "continues H (head db s) evs" "list_all (\<lambda>c. 1 \<le> cpSeq c) (auCheckpoints db)" "distinct (map row_key (auRows db))"
  shows "distinct (map row_key (auRows db @ rows))"
proof -
  let ?db = "db\<lparr>auRows := auRows db @ rows\<rparr>"
  obtain n p where b: "base_point ?db s = (n, p)" by fastforce
  note a = append_live [OF assms(1-5)]
  have "map arSeq (live db s @ rows) = map (\<lambda>i. n + 1 + int i) [0..<length (live db s @ rows)]"
    using chained_live [OF a(2) b] a(1) by metis
  moreover have "inj_on (\<lambda>i. n + 1 + int i) A" for A by (simp add: inj_on_def)
  ultimately have "distinct (map arSeq (live db s @ rows))" by (simp only: distinct_map) simp
  then have seqs: "distinct (map arSeq rows)" "arSeq ` set (live db s) \<inter> arSeq ` set rows = {}"
    by (simp_all del: set_live)
  have st: "arStream r = s" if "r \<in> set rows" for r using assms(2) that by (simp add: list_all_iff)
  have "distinct (map row_key rows)"
    using seqs(1) st by (auto simp: distinct_map inj_on_def row_key_def)
  moreover have "row_key ` set (auRows db) \<inter> row_key ` set rows = {}"
  proof -
    have "row_key x \<noteq> row_key y" if "x \<in> set (auRows db)" "y \<in> set rows" for x y
      using seqs(2) st [OF that(2)] that by (auto simp: row_key_def)
    then show ?thesis unfolding disjoint_iff by (metis imageE)
  qed
  ultimately show ?thesis using assms(6) by simp
qed

lemma writeStream_total:
  assumes "lucid_inv H pl db" "faithful_json pl" "stream_batch pl s es" "available pl env s"
    "distinct (map eventId es)" "eventId ` set es \<inter> arId ` set (auRows db) = {}"
  shows "\<exists>cs db'. writeStream H pl env s es db = (Inr cs, db')"
proof -
  have "list_all hashable es" using assms(3) by (simp add: stream_batch_def list_all_iff storable_def)
  then obtain cs where cs: "chainBatch H es (head db s) = Inr cs" using chainBatch_returns by metis
  obtain rows evs where r: "mapR (insertedRow pl) cs = Inr rows" "list_all2 (stored_as pl) cs rows" "mapR (read_event pl) rows = Inr evs"
    "continues H (head db s) evs" "map base cs = es" "list_all (\<lambda>r. arStream r = s) rows"
    using prepared_rows [OF assms(2,3) cs] by blast
  have ids: "map arId rows = map eventId es" using stored_as_keeps [OF r(2)] by (simp add: comp_def flip: r(5))
  have "arId ` set rows = eventId ` set es" using arg_cong [OF ids, of set] by simp
  then have "distinct (map arId (auRows db @ rows))"
    using assms(1,5,6) ids unfolding lucid_inv_def map_append distinct_append by (simp add: Int_commute)
  moreover have "distinct (map row_key (auRows db @ rows))"
    using fresh_row_keys [of H pl db s rows evs] assms(1) r(3,4,6) by (simp add: lucid_inv_def)
  ultimately have "insert_rows rows db = Inr (db\<lparr>auRows := auRows db @ rows\<rparr>)" by (simp add: insert_rows_Inr)
  then show ?thesis using cs r(1) assms(4) by (simp add: writeStream_def available_def)
qed

end
