(* ===== verification/StoreContract.thy ===== *)
theory StoreContract
  imports HashChain "HOL-Library.Sublist"
begin

text \<open>
  The contract of \<open>AuditStoreContract\<close> (\<open>src/types.ts\<close>) that the rest of the library rests on,
  in three strengths: what a store keeps is linked after every write (\<open>linked_store\<close>); a write
  appends, and may drop the oldest rows (\<open>windowed_store\<close>); a write only appends
  (\<open>chained_store\<close>). The stores are interpretations; what follows from the contract is proved here
  once. The environment of a write holds what may go wrong in it.
\<close>

locale linked_store =
  fixes H :: "string \<Rightarrow> string"
    and write_to :: "'e \<Rightarrow> audit_event list \<Rightarrow> 's \<Rightarrow> chained_event list result \<times> 's"
    and history :: "'s \<Rightarrow> string \<Rightarrow> chained_event list"
    and ok :: "'s \<Rightarrow> bool"
    and fit :: "audit_event \<Rightarrow> bool"
  assumes write_ok: "ok st \<Longrightarrow> list_all fit b \<Longrightarrow> ok (snd (write_to env b st))"
    and history_linked: "ok st \<Longrightarrow> \<exists>n p. linked_from H n p (history st s)"
begin

text \<open>A run of writes, each with its environment and its batch.\<close>

definition run :: "('e \<times> audit_event list) list \<Rightarrow> 's \<Rightarrow> 's" where
  "run ws st = foldl (\<lambda>st (env, b). snd (write_to env b st)) st ws"

lemma run_simps [simp]: "run [] st = st" "run (w # ws) st = run ws (snd (write_to (fst w) (snd w) st))"
  by (simp_all add: run_def split: prod.split)

lemma run_ok: "ok st \<Longrightarrow> list_all (\<lambda>w. list_all fit (snd w)) ws \<Longrightarrow> ok (run ws st)"
  by (induction ws arbitrary: st) (auto intro: write_ok)

lemma run_linked:
  "ok st \<Longrightarrow> list_all (\<lambda>w. list_all fit (snd w)) ws \<Longrightarrow> \<exists>n p. linked_from H n p (history (run ws st) s)"
  using run_ok history_linked by blast

end

lemma drop_then_append: "drop k xs @ ys = drop (min k (length xs)) (xs @ ys)"
  by (simp add: min_def)

locale windowed_store = linked_store +
  assumes write_window: "ok st \<Longrightarrow> list_all fit b \<Longrightarrow>
    \<exists>k new. history (snd (write_to env b st)) s = drop k (history st s @ new)"
begin

text \<open>What is left of a window is its newest part, followed by what has been written since.\<close>

lemma run_window:
  "ok st \<Longrightarrow> list_all (\<lambda>w. list_all fit (snd w)) ws \<Longrightarrow>
   \<exists>k new. history (run ws st) s = drop k (history st s @ new)"
proof (induction ws arbitrary: st)
  case Nil
  then show ?case by (metis append_Nil2 drop0 run_simps(1))
next
  case (Cons w ws)
  obtain k new where k: "history (snd (write_to (fst w) (snd w) st)) s = drop k (history st s @ new)"
    using write_window [of st "snd w" "fst w" s] Cons.prems by (simp only: list.pred_inject) blast
  obtain j more where "history (run (w # ws) st) s = drop j (drop k (history st s @ new) @ more)"
    using Cons.IH [of "snd (write_to (fst w) (snd w) st)"] write_ok [of st "snd w" "fst w"] Cons.prems k by auto
  then have "history (run (w # ws) st) s =
      drop (j + min k (length (history st s @ new))) (history st s @ (new @ more))"
    by (simp only: drop_then_append drop_drop append_assoc)
  then show ?case by blast
qed

end

locale chained_store = linked_store +
  assumes write_grows: "ok st \<Longrightarrow> list_all fit b \<Longrightarrow> prefix (history st s) (history (snd (write_to env b st)) s)"
begin

lemma run_grows: "ok st \<Longrightarrow> list_all (\<lambda>w. list_all fit (snd w)) ws \<Longrightarrow> prefix (history st s) (history (run ws st) s)"
proof (induction ws arbitrary: st)
  case (Cons w ws)
  then show ?case
    using write_grows [of st "snd w" s "fst w"] Cons.IH [of "snd (write_to (fst w) (snd w) st)"] write_ok [of st "snd w" "fst w"]
    by (auto intro: prefix_order.trans)
qed simp

text \<open>The position a row has in a history never changes, and no row of a history is ever rewritten.\<close>

lemma run_row:
  assumes "ok st" "list_all (\<lambda>w. list_all fit (snd w)) ws" "i < length (history st s)"
  shows "history (run ws st) s ! i = history st s ! i"
  using run_grows [OF assms(1,2), of s] assms(3) by (auto elim!: prefixE simp: nth_append)

end

text \<open>A store that only appends keeps a window that reaches back to the beginning.\<close>

sublocale chained_store \<subseteq> windowed_store
proof
  fix st b env s
  assume "ok st" "list_all fit b"
  then have "prefix (history st s) (history (snd (write_to env b st)) s)" by (rule write_grows)
  then show "\<exists>k new. history (snd (write_to env b st)) s = drop k (history st s @ new)"
    by (metis drop0 prefixE)
qed

end
