(* ===== verification/LucidWrite.thy ===== *)
theory LucidWrite
  imports LucidStore StoreContract
begin

text \<open>
  What \<open>LucidStore.write\<close> guarantees: the chains stay intact whatever happens to its transactions,
  a conflict of ids is found before anything is written, and writing a batch again changes nothing.
\<close>

section \<open>All transactions of a write\<close>

lemma write_streams_keeps:
  assumes "lucid_inv H pl db" "faithful_json pl" "list_all (\<lambda>(s, es). stream_batch pl s es) gs"
    "write_streams H pl env gs results db = (res, db')"
  shows "lucid_inv H pl db' \<and> (\<exists>cs. appended pl cs db db'
     \<and> (\<forall>r. res = Inr r \<longrightarrow> map base cs = concat (map snd gs) \<and> r = add_results cs results))"
  using assms(1,3,4)
proof (induction gs arbitrary: results db)
  case Nil
  then show ?case by (intro conjI exI [of _ "[]"]) (auto simp: add_results_def)
next
  case (Cons g gs)
  obtain s es where g: "g = (s, es)" by (cases g)
  have sb: "stream_batch pl s es" "list_all (\<lambda>(s, es). stream_batch pl s es) gs" using Cons.prems(2) by (simp_all add: g)
  show ?case
  proof (cases "writeStream H pl env s es db")
    case w: (Pair x db1)
    show ?thesis
    proof (cases x)
      case (Inl e)
      then have "res = Inl e" "db' = db" using Cons.prems(3) w writeStream_throws by (auto simp: g)
      then show ?thesis using Cons.prems(1) by (intro conjI exI [of _ "[]"]) simp_all
    next
      case (Inr cs)
      note one = writeStream_returns [OF Cons.prems(1) assms(2) sb(1) w [unfolded Inr]]
      have rest: "write_streams H pl env gs (add_results cs results) db1 = (res, db')"
        using Cons.prems(3) w Inr by (simp add: g)
      obtain ds where ds: "lucid_inv H pl db'" "appended pl ds db1 db'"
        "\<forall>r. res = Inr r \<longrightarrow> map base ds = concat (map snd gs) \<and> r = add_results ds (add_results cs results)"
        using Cons.IH [OF one(1) sb(2) rest] by blast
      show ?thesis
        using ds one appended_trans [OF one(2) ds(2)]
        by (intro conjI exI [of _ "cs @ ds"]) (simp_all add: g add_results_def)
    qed
  qed
qed

lemma appended_ids: "appended pl cs db db' \<Longrightarrow> arId ` set (auRows db') = arId ` set (auRows db) \<union> (\<lambda>c. eventId (base c)) ` set cs"
proof -
  assume "appended pl cs db db'"
  then obtain rows where r: "db' = db\<lparr>auRows := auRows db @ rows\<rparr>" "list_all2 (stored_as pl) cs rows"
    by (auto simp: appended_def)
  have m: "map arId rows = map (\<lambda>c. eventId (base c)) cs" using stored_as_keeps [OF r(2)] by simp
  show ?thesis using arg_cong [OF m, of set] r(1) by (simp add: image_Un)
qed

lemma write_streams_total:
  assumes "lucid_inv H pl db" "faithful_json pl" "list_all (\<lambda>(s, es). stream_batch pl s es) gs"
    "list_all (\<lambda>(s, es). available pl env s) gs" "distinct (map eventId (concat (map snd gs)))"
    "eventId ` set (concat (map snd gs)) \<inter> arId ` set (auRows db) = {}"
  shows "\<exists>r db'. write_streams H pl env gs results db = (Inr r, db')"
  using assms(1,3-)
proof (induction gs arbitrary: results db)
  case Nil
  then show ?case by simp
next
  case (Cons g gs)
  obtain s es where g: "g = (s, es)" by (cases g)
  have sb: "stream_batch pl s es" "list_all (\<lambda>(s, es). stream_batch pl s es) gs" "available pl env s"
    "list_all (\<lambda>(s, es). available pl env s) gs"
    using Cons.prems(2,3) by (simp_all add: g)
  have ids: "distinct (map eventId es)" "distinct (map eventId (concat (map snd gs)))"
    "eventId ` set es \<inter> eventId ` set (concat (map snd gs)) = {}" "eventId ` set es \<inter> arId ` set (auRows db) = {}"
    "eventId ` set (concat (map snd gs)) \<inter> arId ` set (auRows db) = {}"
    using Cons.prems(4,5) by (auto simp: g)
  obtain cs db1 where w: "writeStream H pl env s es db = (Inr cs, db1)"
    using writeStream_total [OF Cons.prems(1) assms(2) sb(1,3) ids(1,4)] by blast
  note one = writeStream_returns [OF Cons.prems(1) assms(2) sb(1) w]
  have "(\<lambda>c. eventId (base c)) ` set cs = eventId ` set es" by (simp add: image_image flip: one(3))
  then have "eventId ` set (concat (map snd gs)) \<inter> arId ` set (auRows db1) = {}"
    unfolding appended_ids [OF one(2)] using ids(3,5) by (simp add: Int_Un_distrib Int_Un_distrib2 Int_commute)
  then obtain r db' where "write_streams H pl env gs (add_results cs results) db1 = (Inr r, db')"
    using Cons.IH [OF one(1) sb(2,4) ids(2)] by blast
  then show ?case using w by (simp add: g)
qed

section \<open>Known and new events of a batch\<close>

fun unseen :: "string set \<Rightarrow> audit_event list \<Rightarrow> audit_event list" where
  "unseen known [] = []"
| "unseen known (e # es) = (if eventId e \<in> known then unseen known es else e # unseen (insert (eventId e) known) es)"

lemma unseen_ids: "eventId ` set (unseen known es) = eventId ` set es - known"
  by (induction es arbitrary: known) auto

lemma unseen_sub: "set (unseen known es) \<subseteq> set es"
  by (induction es arbitrary: known) auto

lemma unseen_distinct: "distinct (map eventId (unseen known es))"
  by (induction es arbitrary: known) (simp_all add: unseen_ids)

definition no_conflict :: "platform \<Rightarrow> (string \<Rightarrow> chained_event option) \<Rightarrow> (string \<Rightarrow> audit_event option) \<Rightarrow> audit_event list \<Rightarrow> bool" where
  "no_conflict pl existing incoming es \<longleftrightarrow>
     (\<forall>e \<in> set es. \<forall>d. incoming (eventId e) = Some d \<longrightarrow> auditEventFingerprint pl d = auditEventFingerprint pl e)
     \<and> (\<forall>e \<in> set es. \<forall>f \<in> set es. eventId e = eventId f \<longrightarrow> auditEventFingerprint pl e = auditEventFingerprint pl f)
     \<and> (\<forall>e \<in> set es. \<forall>st. existing (eventId e) = Some st \<longrightarrow> auditEventFingerprint pl (base st) = auditEventFingerprint pl e)"

lemma no_conflict_Cons:
  "no_conflict pl existing incoming (e # es) \<longleftrightarrow>
     (\<forall>d. incoming (eventId e) = Some d \<longrightarrow> auditEventFingerprint pl d = auditEventFingerprint pl e)
     \<and> (\<forall>st. existing (eventId e) = Some st \<longrightarrow> auditEventFingerprint pl (base st) = auditEventFingerprint pl e)
     \<and> no_conflict pl existing (incoming(eventId e \<mapsto> e)) es"
  unfolding no_conflict_def by (simp add: ball_Un) (smt (verit, ccfv_threshold))

lemma fingerprint_returns: "hashable e \<Longrightarrow> \<exists>t. auditEventFingerprint pl e = Inr t"
  unfolding auditEventFingerprint_def canonicalJson_returns_iff by (rule fingerprint_ok)

lemma same_fingerprint_cases:
  assumes "hashable a" "hashable b"
  shows "same_fingerprint pl w a b =
    (if auditEventFingerprint pl a = auditEventFingerprint pl b then Inr () else Inl (integrity_error (eventId b) w))"
  using fingerprint_returns [OF assms(1), of pl] fingerprint_returns [OF assms(2), of pl]
  by (auto simp: same_fingerprint_def)

lemma classify_ok:
  assumes "list_all hashable es" "\<And>i st. map_of existing i = Some st \<Longrightarrow> hashable (base st)"
    "\<And>i d. map_of incoming i = Some d \<Longrightarrow> hashable d" "no_conflict pl (map_of existing) (map_of incoming) es"
  shows "\<exists>r. classify pl existing es incoming g results
      = Inr (foldl (group_push stream) g (unseen (dom (map_of existing) \<union> dom (map_of incoming)) es), r)
    \<and> (\<forall>i. map_of r i = (if i \<in> eventId ` set es \<and> i \<in> dom (map_of existing) then map_of existing i else map_of results i))"
  using assms(1,3,4)
proof (induction es arbitrary: incoming g results)
  case Nil
  then show ?case by simp
next
  case (Cons e es)
  let ?inc = "AList.update (eventId e) e incoming"
  have h: "hashable e" "list_all hashable es" using Cons.prems(1) by simp_all
  note nc = Cons.prems(3) [unfolded no_conflict_Cons]
  have dup: "(case map_of incoming (eventId e) of None \<Rightarrow> Inr ()
      | Some d \<Rightarrow> same_fingerprint pl '' has conflicting duplicate payloads'' d e) = Inr ()"
    using nc Cons.prems(2) h(1) by (cases "map_of incoming (eventId e)") (simp_all add: same_fingerprint_cases)
  have inc: "hashable d" if "map_of ?inc i = Some d" for i d
    using that h(1) Cons.prems(2) by (auto split: if_splits)
  have nc': "no_conflict pl (map_of existing) (map_of ?inc) es" using nc by simp
  have IH: "\<exists>r. classify pl existing es ?inc g results
      = Inr (foldl (group_push stream) g (unseen (dom (map_of existing) \<union> dom (map_of ?inc)) es), r)
    \<and> (\<forall>i. map_of r i = (if i \<in> eventId ` set es \<and> i \<in> dom (map_of existing) then map_of existing i else map_of results i))" for g results
    by (rule Cons.IH [OF h(2) _ nc']) (rule inc)
  show ?case
  proof (cases "map_of existing (eventId e)")
    case (Some st)
    have "same_fingerprint pl '' conflicts with the target store'' (base st) e = Inr ()"
      using nc Some assms(2) [OF Some] h(1) by (simp add: same_fingerprint_cases)
    moreover have "dom (map_of existing) \<union> dom (map_of ?inc) = dom (map_of existing) \<union> dom (map_of incoming)"
      using Some by auto
    moreover obtain r where "classify pl existing es ?inc g (AList.update (eventId e) st results)
        = Inr (foldl (group_push stream) g (unseen (dom (map_of existing) \<union> dom (map_of ?inc)) es), r)"
      "\<forall>i. map_of r i = (if i \<in> eventId ` set es \<and> i \<in> dom (map_of existing) then map_of existing i
         else map_of (AList.update (eventId e) st results) i)"
      using IH by blast
    ultimately show ?thesis using dup Some by (intro exI [of _ r]) (simp add: Let_def domI)
  next
    case None
    show ?thesis
    proof (cases "map_of incoming (eventId e)")
      case (Some d)
      have "dom (map_of existing) \<union> dom (map_of ?inc) = dom (map_of existing) \<union> dom (map_of incoming)"
        using Some by auto
      moreover obtain r where "classify pl existing es ?inc g results
          = Inr (foldl (group_push stream) g (unseen (dom (map_of existing) \<union> dom (map_of ?inc)) es), r)"
        "\<forall>i. map_of r i = (if i \<in> eventId ` set es \<and> i \<in> dom (map_of existing) then map_of existing i else map_of results i)"
        using IH by blast
      ultimately show ?thesis using dup None Some by (intro exI [of _ r]) (simp add: Let_def domI domIff)
    next
      case fresh: None
      obtain r where "classify pl existing es ?inc (group_push stream g e) results
          = Inr (foldl (group_push stream) (group_push stream g e) (unseen (dom (map_of existing) \<union> dom (map_of ?inc)) es), r)"
        "\<forall>i. map_of r i = (if i \<in> eventId ` set es \<and> i \<in> dom (map_of existing) then map_of existing i else map_of results i)"
        using IH by blast
      then show ?thesis using None fresh by (intro exI [of _ r]) (simp add: Let_def domIff)
    qed
  qed
qed

lemma classify_conflict:
  assumes "list_all hashable es" "\<And>i st. map_of existing i = Some st \<Longrightarrow> hashable (base st)"
    "\<And>i d. map_of incoming i = Some d \<Longrightarrow> hashable d" "\<not> no_conflict pl (map_of existing) (map_of incoming) es"
  shows "\<exists>i w. classify pl existing es incoming g results = Inl (integrity_error i w)"
  using assms(1,3,4)
proof (induction es arbitrary: incoming g results)
  case Nil
  then show ?case by (simp add: no_conflict_def)
next
  case (Cons e es)
  let ?inc = "AList.update (eventId e) e incoming"
  have h: "hashable e" "list_all hashable es" using Cons.prems(1) by simp_all
  have inc: "hashable d" if "map_of ?inc i = Some d" for i d
    using that h(1) Cons.prems(2) by (auto split: if_splits)
  show ?case
  proof (cases "no_conflict pl (map_of existing) (map_of ?inc) es")
    case False
    note IH = Cons.IH [OF h(2) inc False]
    show ?thesis
      using IH assms(2) Cons.prems(2) h(1)
      by (cases "map_of existing (eventId e)"; cases "map_of incoming (eventId e)")
        (auto simp: same_fingerprint_cases Let_def)
  next
    case True
    then have "\<not> ((\<forall>d. map_of incoming (eventId e) = Some d \<longrightarrow> auditEventFingerprint pl d = auditEventFingerprint pl e)
       \<and> (\<forall>st. map_of existing (eventId e) = Some st \<longrightarrow> auditEventFingerprint pl (base st) = auditEventFingerprint pl e))"
      using Cons.prems(3) unfolding no_conflict_Cons by simp
    then show ?thesis
      using assms(2) Cons.prems(2) h(1)
      by (cases "map_of existing (eventId e)"; cases "map_of incoming (eventId e)")
        (auto simp: same_fingerprint_cases Let_def)
  qed
qed

section \<open>What is stored under an id\<close>

definition stored_under :: "platform \<Rightarrow> lucid_db \<Rightarrow> string \<Rightarrow> chained_event \<Rightarrow> bool" where
  "stored_under pl db i ev \<longleftrightarrow> (\<exists>r \<in> set (auRows db). arId r = i \<and> read_event pl r = Inr ev)"

lemma linked_hashable: "linked_from H n p evs \<Longrightarrow> i < length evs \<Longrightarrow> hashable (base (evs ! i))"
proof (induction evs arbitrary: n p i)
  case (Cons x xs)
  then show ?case using hashEntry_returns [of H "base x" n p] by (cases i) auto
qed simp

lemma row_reads:
  assumes "lucid_inv H pl db" "r \<in> set (auRows db)"
  shows "\<exists>ev. read_event pl r = Inr ev \<and> hashable (base ev)"
proof -
  obtain evs where e: "mapR (read_event pl) (live db (arStream r)) = Inr evs"
    "linked_from H (fst (base_point db (arStream r)) + 1) (snd (base_point db (arStream r))) evs"
    using assms(1) by (auto simp: lucid_inv_def chained_stream_def)
  obtain i where i: "i < length (live db (arStream r))" "live db (arStream r) ! i = r"
    using assms(2) by (metis (mono_tags, lifting) in_set_conv_nth mem_Collect_eq set_live)
  have "read_event pl r = Inr (evs ! i)" using mapR_Inr_nth [OF e(1) i(1)] i(2) by simp
  moreover have "hashable (base (evs ! i))" if "i < length evs" using linked_hashable [OF e(2) that] .
  ultimately show ?thesis using i(1) mapR_Inr_length [OF e(1)] by auto
qed

lemma stored_unique: "lucid_inv H pl db \<Longrightarrow> stored_under pl db i ev \<Longrightarrow> stored_under pl db i ev' \<Longrightarrow> ev' = ev"
  unfolding lucid_inv_def stored_under_def by (metis Inr_inject distinct_map inj_onD)

lemma map_of_updates:
  "map_of (foldl (\<lambda>m p. AList.update (fst p) (snd p) m) m0 ps) = map_of m0 ++ map_of (rev ps)"
  by (induction ps arbitrary: m0) (auto simp: map_add_def fun_eq_iff split: option.splits)

lemma existing_ok:
  assumes "lucid_inv H pl db"
  shows "\<exists>ex. existing_rows pl batch db = Inr ex
    \<and> (\<forall>i ev. map_of ex i = Some ev \<longleftrightarrow> i \<in> eventId ` set batch \<and> stored_under pl db i ev)"
proof -
  define rows where "rows = filter (\<lambda>r. arId r \<in> eventId ` set batch) (auRows db)"
  have rd: "\<exists>ev. read_event pl r = Inr ev" if "r \<in> set rows" for r
    using row_reads [OF assms] that by (auto simp: rows_def)
  define rv where "rv r = (case read_event pl r of Inr ev \<Rightarrow> ev | Inl _ \<Rightarrow> undefined)" for r
  have rv: "read_event pl r = Inr (rv r)" if "r \<in> set rows" for r
    using rd [OF that] by (auto simp: rv_def)
  have m: "mapR (\<lambda>r. rmap (Pair (arId r)) (read_event pl r)) rows = Inr (map (\<lambda>r. (arId r, rv r)) rows)"
    using rv by (intro mapR_Inr_map) simp
  have d: "distinct (map fst (rev (map (\<lambda>r. (arId r, rv r)) rows)))"
    using assms by (simp add: rows_def lucid_inv_def distinct_map_filter rev_map [symmetric] comp_def)
  have "map_of (rev (map (\<lambda>r. (arId r, rv r)) rows)) i = Some ev
      \<longleftrightarrow> i \<in> eventId ` set batch \<and> stored_under pl db i ev" for i ev
    unfolding map_of_eq_Some_iff [OF d] using rv by (force simp: stored_under_def rows_def)
  then show ?thesis
    using m by (simp add: existing_rows_def rows_def map_of_updates)
qed

section \<open>A whole write\<close>

definition compatible :: "platform \<Rightarrow> lucid_db \<Rightarrow> audit_event list \<Rightarrow> bool" where
  "compatible pl db batch \<longleftrightarrow>
     (\<forall>e \<in> set batch. (\<forall>f \<in> set batch. eventId e = eventId f \<longrightarrow> auditEventFingerprint pl e = auditEventFingerprint pl f)
        \<and> (\<forall>ev. stored_under pl db (eventId e) ev \<longrightarrow> auditEventFingerprint pl (base ev) = auditEventFingerprint pl e))"

lemma compatibleD:
  "compatible pl db batch \<Longrightarrow> e \<in> set batch \<Longrightarrow> f \<in> set batch \<Longrightarrow> eventId e = eventId f \<Longrightarrow>
     auditEventFingerprint pl e = auditEventFingerprint pl f"
  "compatible pl db batch \<Longrightarrow> e \<in> set batch \<Longrightarrow> stored_under pl db (eventId e) ev \<Longrightarrow>
     auditEventFingerprint pl (base ev) = auditEventFingerprint pl e"
  unfolding compatible_def by blast+

lemma storable_hashable: "list_all (storable pl) es \<Longrightarrow> list_all hashable es"
  by (simp add: list_all_iff storable_def)

lemma stored_ids: "lucid_inv H pl db \<Longrightarrow> (\<exists>ev. stored_under pl db i ev) \<longleftrightarrow> i \<in> arId ` set (auRows db)"
  using row_reads by (fastforce simp: stored_under_def)

lemma stored_hashable: "lucid_inv H pl db \<Longrightarrow> stored_under pl db i ev \<Longrightarrow> hashable (base ev)"
  unfolding stored_under_def using row_reads by fastforce

lemma unseen_cong:
  "(\<And>e. e \<in> set es \<Longrightarrow> eventId e \<in> known \<longleftrightarrow> eventId e \<in> known') \<Longrightarrow> unseen known es = unseen known' es"
proof (induction es arbitrary: known known')
  case (Cons e es)
  have "unseen known es = unseen known' es" "unseen (insert (eventId e) known) es = unseen (insert (eventId e) known') es"
    by (rule Cons.IH; use Cons.prems in simp)+
  then show ?case using Cons.prems [of e] by simp
qed simp

definition new_groups :: "lucid_db \<Rightarrow> audit_event list \<Rightarrow> (string \<times> audit_event list) list" where
  "new_groups db batch = group_by stream (unseen (arId ` set (auRows db)) batch)"

lemma no_conflict_compatible:
  assumes "\<And>i ev. map_of ex i = Some ev \<longleftrightarrow> i \<in> eventId ` set batch \<and> stored_under pl db i ev"
  shows "no_conflict pl (map_of ex) (map_of []) batch \<longleftrightarrow> compatible pl db batch"
  by (simp add: no_conflict_def compatible_def ball_conj_distrib assms)

lemma lucid_write_conflict:
  assumes "lucid_inv H pl db" "list_all (storable pl) batch" "\<not> compatible pl db batch"
  shows "\<exists>i w. lucid_write H pl env batch db = (Inl (integrity_error i w), db)"
proof -
  obtain ex where ex: "existing_rows pl batch db = Inr ex"
    "\<And>i ev. map_of ex i = Some ev \<longleftrightarrow> i \<in> eventId ` set batch \<and> stored_under pl db i ev"
    using existing_ok [OF assms(1)] by blast
  have h: "\<And>i st. map_of ex i = Some st \<Longrightarrow> hashable (base st)"
    using ex(2) stored_hashable [OF assms(1)] by blast
  have "\<not> no_conflict pl (map_of ex) (map_of []) batch"
    using assms(3) no_conflict_compatible [OF ex(2)] by simp
  then have "\<exists>i w. classify pl ex batch [] [] [] = Inl (integrity_error i w)"
    by (rule classify_conflict [OF storable_hashable [OF assms(2)], rotated 2]) (erule h, simp)
  then obtain i w where "classify pl ex batch [] [] [] = Inl (integrity_error i w)" by blast
  moreover have "batch \<noteq> []" using assms(3) by (auto simp: compatible_def)
  ultimately show ?thesis using ex(1) by (intro exI [of _ i] exI [of _ w]) (simp add: lucid_write_def)
qed

lemma lucid_write_runs:
  assumes "lucid_inv H pl db" "list_all (storable pl) batch" "compatible pl db batch" "batch \<noteq> []"
  obtains r where "lucid_write H pl env batch db
      = sbind (write_streams H pl env (new_groups db batch) r db) (\<lambda>results db. (collect results batch, db))"
    "\<And>i ev. map_of r i = Some ev \<longleftrightarrow> i \<in> eventId ` set batch \<and> stored_under pl db i ev"
proof -
  obtain ex where ex: "existing_rows pl batch db = Inr ex"
    "\<And>i ev. map_of ex i = Some ev \<longleftrightarrow> i \<in> eventId ` set batch \<and> stored_under pl db i ev"
    using existing_ok [OF assms(1)] by blast
  have h: "\<And>i st. map_of ex i = Some st \<Longrightarrow> hashable (base st)"
    using ex(2) stored_hashable [OF assms(1)] by blast
  have nc: "no_conflict pl (map_of ex) (map_of []) batch"
    using assms(3) no_conflict_compatible [OF ex(2)] by simp
  have "\<exists>r. classify pl ex batch [] [] [] = Inr (foldl (group_push stream) [] (unseen (dom (map_of ex) \<union> dom (map_of ([] :: (string \<times> audit_event) list))) batch), r)
    \<and> (\<forall>i. map_of r i = (if i \<in> eventId ` set batch \<and> i \<in> dom (map_of ex) then map_of ex i else map_of [] i))"
    by (rule classify_ok [OF storable_hashable [OF assms(2)] _ _ nc]) (erule h, simp)
  then obtain r where r: "classify pl ex batch [] [] [] = Inr (foldl (group_push stream) [] (unseen (dom (map_of ex)) batch), r)"
    "\<And>i. map_of r i = (if i \<in> eventId ` set batch \<and> i \<in> dom (map_of ex) then map_of ex i else None)"
    unfolding map_of.simps dom_empty Un_empty_right by blast
  have "eventId e \<in> dom (map_of ex) \<longleftrightarrow> eventId e \<in> arId ` set (auRows db)" if "e \<in> set batch" for e
    using ex(2) [of "eventId e"] imageI [OF that, of eventId] stored_ids [OF assms(1), of "eventId e"] unfolding dom_def by blast
  then have "unseen (dom (map_of ex)) batch = unseen (arId ` set (auRows db)) batch" by (rule unseen_cong)
  then have w: "lucid_write H pl env batch db
      = sbind (write_streams H pl env (new_groups db batch) r db) (\<lambda>results db. (collect results batch, db))"
    using ex(1) r(1) assms(4) by (simp add: lucid_write_def new_groups_def group_by_def)
  have m: "map_of r i = Some ev \<longleftrightarrow> i \<in> eventId ` set batch \<and> stored_under pl db i ev" for i ev
    using r(2) [of i] ex(2) [of i ev] by (cases "map_of ex i") (simp_all add: domIff)
  show ?thesis by (rule that [OF w m])
qed

lemma new_groups_ok:
  assumes "list_all (storable pl) batch"
  shows "list_all (\<lambda>(s, es). stream_batch pl s es) (new_groups db batch)"
    "distinct (map eventId (concat (map snd (new_groups db batch))))"
    "eventId ` set (concat (map snd (new_groups db batch))) = eventId ` set batch - arId ` set (auRows db)"
    "set (concat (map snd (new_groups db batch))) \<subseteq> set batch"
    "fst ` set (new_groups db batch) \<subseteq> stream ` set batch"
proof -
  let ?news = "unseen (arId ` set (auRows db)) batch"
  have m: "mset (concat (map snd (new_groups db batch))) = mset ?news"
    unfolding new_groups_def by (rule group_by_mset)
  then have e: "set (concat (map snd (new_groups db batch))) = set ?news" by (rule mset_eq_setD)
  show "set (concat (map snd (new_groups db batch))) \<subseteq> set batch" unfolding e by (rule unseen_sub)
  show "eventId ` set (concat (map snd (new_groups db batch))) = eventId ` set batch - arId ` set (auRows db)"
    unfolding e by (rule unseen_ids)
  have "mset (map eventId (concat (map snd (new_groups db batch)))) = mset (map eventId ?news)"
    using m by (simp only: mset_map)
  then show "distinct (map eventId (concat (map snd (new_groups db batch))))"
    using unseen_distinct mset_eq_imp_distinct_iff by blast
  have "stream_batch pl s es" if "(s, es) \<in> set (new_groups db batch)" for s es
    using group_by_mem(1) [OF that [unfolded new_groups_def]] assms unseen_sub
    by (fastforce simp: stream_batch_def list_all_iff)
  then show "list_all (\<lambda>(s, es). stream_batch pl s es) (new_groups db batch)" by (simp add: list_all_iff split_beta)
  show "fst ` set (new_groups db batch) \<subseteq> stream ` set batch"
    unfolding new_groups_def group_by_keys using unseen_sub by fast
qed

text \<open>
  A returned event reports the row stored for an event of the batch: its position and digests are
  the stored ones, and the stored row has the fingerprint of the event.
\<close>

definition reports :: "platform \<Rightarrow> lucid_db \<Rightarrow> audit_event \<Rightarrow> chained_event \<Rightarrow> bool" where
  "reports pl db e c \<longleftrightarrow>
     (\<exists>ev. stored_under pl db (eventId e) ev \<and> auditEventFingerprint pl (base ev) = auditEventFingerprint pl e
        \<and> seq c = seq ev \<and> hash c = hash ev \<and> prevHash c = prevHash ev)"

lemma mapR_all2: "mapR f xs = Inr ys \<Longrightarrow> list_all2 (\<lambda>x y. f x = Inr y) xs ys"
  by (induction xs arbitrary: ys) (auto simp: result_iff)

lemma mapR_returns: "(\<exists>ys. mapR f xs = Inr ys) \<longleftrightarrow> (\<forall>x \<in> set xs. \<exists>y. f x = Inr y)"
proof (induction xs)
  case (Cons x xs)
  then show ?case by (cases "f x"; cases "mapR f xs") auto
qed simp

lemma add_results_map: "map_of (add_results cs r) = map_of r ++ map_of (rev (map (\<lambda>c. (eventId (base c), c)) cs))"
proof -
  have "add_results cs r = foldl (\<lambda>m p. AList.update (fst p) (snd p) m) r (map (\<lambda>c. (eventId (base c), c)) cs)"
    unfolding add_results_def by (induction cs arbitrary: r) auto
  then show ?thesis by (simp only: map_of_updates)
qed

lemma appended_stored:
  assumes "appended pl cs db db'" "c \<in> set cs"
  shows "\<exists>e. stored_under pl db' (eventId (base c)) (c\<lparr>base := e\<rparr>) \<and> read_back (base c) e"
proof -
  obtain rows where rows: "db' = db\<lparr>auRows := auRows db @ rows\<rparr>" "list_all2 (stored_as pl) cs rows"
    using assms(1) by (auto simp: appended_def)
  then obtain r where "r \<in> set rows" "stored_as pl c r" using assms(2) by (metis list_all2_conv_all_nth in_set_conv_nth)
  then show ?thesis using rows(1) by (auto simp: stored_as_def stored_under_def)
qed

lemma appended_keeps: "appended pl cs db db' \<Longrightarrow> stored_under pl db i ev \<Longrightarrow> stored_under pl db' i ev"
  by (auto simp: appended_def stored_under_def)

lemma new_reports:
  assumes "appended pl cs db db'" "c \<in> set cs" "storable pl (base c)" "eventId (base c) = eventId e"
    "auditEventFingerprint pl (base c) = auditEventFingerprint pl e"
  shows "reports pl db' e c"
proof -
  obtain f where f: "stored_under pl db' (eventId (base c)) (c\<lparr>base := f\<rparr>)" "read_back (base c) f"
    using appended_stored [OF assms(1,2)] by blast
  have "auditEventFingerprint pl f = auditEventFingerprint pl e"
    using read_back_fingerprint [OF f(2)] assms(3,5) by (simp add: storable_def)
  then show ?thesis using f(1) assms(4) unfolding reports_def by (intro exI [of _ "c\<lparr>base := f\<rparr>"]) simp
qed

lemma write_reports:
  assumes "lucid_inv H pl db" "faithful_json pl" "list_all (storable pl) batch"
    "lucid_write H pl env batch db = (Inr out, db')"
  shows "compatible pl db batch" "lucid_inv H pl db'" "\<exists>cs. appended pl cs db db'"
    "arId ` set (auRows db') = arId ` set (auRows db) \<union> eventId ` set batch"
    "list_all2 (reports pl db') batch out"
proof -
  show comp: "compatible pl db batch"
    using lucid_write_conflict [OF assms(1,3), of env] assms(4) by (cases "compatible pl db batch") auto
  have "lucid_inv H pl db' \<and> (\<exists>cs. appended pl cs db db')
    \<and> arId ` set (auRows db') = arId ` set (auRows db) \<union> eventId ` set batch \<and> list_all2 (reports pl db') batch out"
  proof (cases "batch = []")
    case True
    then show ?thesis using assms(1,4) by (auto simp: lucid_write_def intro: exI [of _ "[]"])
  next
    case False
    obtain r where r: "lucid_write H pl env batch db
        = sbind (write_streams H pl env (new_groups db batch) r db) (\<lambda>results db. (collect results batch, db))"
      "\<And>i ev. map_of r i = Some ev \<longleftrightarrow> i \<in> eventId ` set batch \<and> stored_under pl db i ev"
      using lucid_write_runs [OF assms(1,3) comp False, where env = env] by blast
    obtain res where res: "write_streams H pl env (new_groups db batch) r db = (Inr res, db')" "collect res batch = Inr out"
      using assms(4) unfolding r(1) sbind_Inr_iff by auto
    note g = new_groups_ok [OF assms(3), of db]
    obtain cs where cs: "lucid_inv H pl db'" "appended pl cs db db'"
      "map base cs = concat (map snd (new_groups db batch))" "res = add_results cs r"
      using write_streams_keeps [OF assms(1,2) g(1) res(1)] by blast
    have bc: "base c \<in> set batch" if "c \<in> set cs" for c
      using g(4) that unfolding cs(3) [symmetric] by auto
    have rep: "reports pl db' e c" if e: "e \<in> set batch" and m: "map_of res (eventId e) = Some c" for e c
    proof (cases "map_of (rev (map (\<lambda>c. (eventId (base c), c)) cs)) (eventId e)")
      case None
      then have "map_of r (eventId e) = Some c" using m by (simp add: cs(4) add_results_map map_add_def)
      then have "stored_under pl db (eventId e) c" using r(2) by blast
      moreover from this have "auditEventFingerprint pl (base c) = auditEventFingerprint pl e"
        by (rule compatibleD(2) [OF comp e])
      ultimately show ?thesis using appended_keeps [OF cs(2)] unfolding reports_def by blast
    next
      case (Some d)
      then have "d = c" using m by (simp add: cs(4) add_results_map map_add_def)
      moreover have "d \<in> set cs" "eventId (base d) = eventId e" using map_of_SomeD [OF Some] by auto
      ultimately have d: "c \<in> set cs" "eventId (base c) = eventId e" by simp_all
      have "storable pl (base c)" using bc [OF d(1)] assms(3) by (simp add: list_all_iff)
      then show ?thesis by (rule new_reports [OF cs(2) d(1) _ d(2) compatibleD(1) [OF comp bc [OF d(1)] e d(2)]])
    qed
    have "list_all2 (reports pl db') batch out"
    proof (rule list.rel_mono_strong [OF mapR_all2 [OF res(2) [unfolded collect_def]]])
      fix e c assume "e \<in> set batch" "(case map_of res (eventId e) of
          None \<Rightarrow> Inl (integrity_error (eventId e) '' was not persisted'') | Some ce \<Rightarrow> Inr ce) = Inr c"
      then show "reports pl db' e c" by (intro rep) (auto split: option.splits)
    qed
    moreover have "(\<lambda>c. eventId (base c)) ` set cs = eventId ` set batch - arId ` set (auRows db)"
      using g(3) by (simp add: image_image flip: cs(3))
    then have "arId ` set (auRows db') = arId ` set (auRows db) \<union> eventId ` set batch"
      unfolding appended_ids [OF cs(2)] by simp
    ultimately show ?thesis using cs by blast
  qed
  then show "lucid_inv H pl db'" "\<exists>cs. appended pl cs db db'"
    "arId ` set (auRows db') = arId ` set (auRows db) \<union> eventId ` set batch"
    "list_all2 (reports pl db') batch out" by blast+
qed

lemma write_keeps:
  assumes "lucid_inv H pl db" "faithful_json pl" "list_all (storable pl) batch"
    "lucid_write H pl env batch db = (res, db')"
  shows "lucid_inv H pl db' \<and> (\<exists>cs. appended pl cs db db')"
proof (cases "compatible pl db batch \<and> batch \<noteq> []")
  case True
  then have c: "compatible pl db batch" "batch \<noteq> []" by simp_all
  obtain r where r: "lucid_write H pl env batch db
      = sbind (write_streams H pl env (new_groups db batch) r db) (\<lambda>results db. (collect results batch, db))"
    by (rule lucid_write_runs [OF assms(1,3) c, where env = env]) (rule that)
  obtain x db1 where w: "write_streams H pl env (new_groups db batch) r db = (x, db1)" by (rule prod.exhaust)
  have "db1 = db'" using assms(4) unfolding r w by (cases x) simp_all
  then show ?thesis using write_streams_keeps [OF assms(1,2) new_groups_ok(1) [OF assms(3)] w] by blast
next
  case False
  then have "db' = db" using lucid_write_conflict [OF assms(1,3), of env] assms(4) by (cases "batch = []") (auto simp: lucid_write_def)
  then show ?thesis using assms(1) by (auto intro: exI [of _ "[]"])
qed

section \<open>The store as a chained store\<close>

definition lucid_history :: "platform \<Rightarrow> lucid_db \<Rightarrow> string \<Rightarrow> chained_event list" where
  "lucid_history pl db s = (case mapR (read_event pl) (live db s) of Inr evs \<Rightarrow> evs | Inl e \<Rightarrow> [])"

definition lucid_ok :: "(string \<Rightarrow> string) \<Rightarrow> platform \<Rightarrow> lucid_db \<Rightarrow> bool" where
  "lucid_ok H pl db \<longleftrightarrow> faithful_json pl \<and> lucid_inv H pl db"

lemma history_reads:
  assumes "lucid_inv H pl db"
  shows "mapR (read_event pl) (live db s) = Inr (lucid_history pl db s)"
    "linked_from H (fst (base_point db s) + 1) (snd (base_point db s)) (lucid_history pl db s)"
proof -
  have "chained_stream H pl db s" using assms by (simp add: lucid_inv_def)
  then show "mapR (read_event pl) (live db s) = Inr (lucid_history pl db s)"
    "linked_from H (fst (base_point db s) + 1) (snd (base_point db s)) (lucid_history pl db s)"
    by (auto simp: chained_stream_def lucid_history_def)
qed

lemma history_prefix:
  assumes "prefix (live db s) (live db' s)" "lucid_inv H pl db" "lucid_inv H pl db'"
  shows "prefix (lucid_history pl db s) (lucid_history pl db' s)"
proof -
  obtain zs where z: "live db' s = live db s @ zs" using assms(1) by (rule prefixE)
  obtain us vs where "mapR (read_event pl) (live db s) = Inr us" "mapR (read_event pl) (live db' s) = Inr vs"
    using history_reads [OF assms(2)] history_reads [OF assms(3)] by blast
  then show ?thesis by (auto simp: lucid_history_def z mapR_append result_iff)
qed

interpretation lucid: chained_store H "\<lambda>env batch db. lucid_write H pl env batch db" "lucid_history pl" "lucid_ok H pl" "storable pl"
proof
  fix db b env s
  assume a: "lucid_ok H pl db" "list_all (storable pl) b"
  obtain res db' where w: "lucid_write H pl env b db = (res, db')" by (rule prod.exhaust)
  have k: "lucid_inv H pl db' \<and> (\<exists>cs. appended pl cs db db')"
    using write_keeps [OF _ _ a(2) w] a(1) by (simp add: lucid_ok_def)
  then show "lucid_ok H pl (snd (lucid_write H pl env b db))" using a(1) w by (simp add: lucid_ok_def)
  show "prefix (lucid_history pl db s) (lucid_history pl (snd (lucid_write H pl env b db)) s)"
    using k a(1) w history_prefix [of db s db' H pl] by (auto simp: lucid_ok_def appended_def)
next
  fix db s
  assume "lucid_ok H pl db"
  then show "\<exists>n p. linked_from H n p (lucid_history pl db s)"
    using history_reads(2) unfolding lucid_ok_def by blast
qed

section \<open>Properties\<close>

text \<open>A small SQLite platform and events for the witnesses.\<close>

definition epoch :: string where "epoch = toISOString 0"

definition sample_platform :: platform where
  "sample_platform = \<lparr>plDialect = ''sqlite'', plJson = JStr, plParseDate = (\<lambda>s. if s = epoch then Some 0 else None)\<rparr>"

definition sample_env :: lucid_env where
  "sample_env = \<lparr>leLock = (\<lambda>s. True), leFailure = (\<lambda>s. None)\<rparr>"

definition stamped :: "audit_event \<Rightarrow> audit_event" where
  "stamped e = e\<lparr>createdAt := epoch\<rparr>"

lemma sample_faithful: "faithful_json sample_platform"
  by (simp add: sample_platform_def sqlite_faithful)

lemma sample_storable: "storable sample_platform (stamped sample_a)" "storable sample_platform (stamped sample_b)"
  by (simp_all add: storable_def hashable_def payloads_wf_def iso_stamp_def sample_platform_def stamped_def epoch_def
      sample_a_def sample_b_def sample_event_def opt_obj_def is_plain_def props_ok_def)

lemma sample_available: "available pl sample_env s"
  by (simp add: available_def acquireLock_def sample_env_def)

lemma lucid_write_total:
  assumes "lucid_inv H pl db" "faithful_json pl" "list_all (storable pl) batch" "\<forall>s. available pl env s" "compatible pl db batch"
  shows "\<exists>out db'. lucid_write H pl env batch db = (Inr out, db')"
proof (cases "batch = []")
  case True
  then show ?thesis by (simp add: lucid_write_def)
next
  case False
  obtain r where r: "lucid_write H pl env batch db
      = sbind (write_streams H pl env (new_groups db batch) r db) (\<lambda>results db. (collect results batch, db))"
    "\<And>i ev. map_of r i = Some ev \<longleftrightarrow> i \<in> eventId ` set batch \<and> stored_under pl db i ev"
    using lucid_write_runs [OF assms(1,3,5) False, where env = env] by blast
  note g = new_groups_ok [OF assms(3), of db]
  have av: "list_all (\<lambda>(s, es). available pl env s) (new_groups db batch)" using assms(4) by (simp add: list_all_iff split_beta)
  have dj: "eventId ` set (concat (map snd (new_groups db batch))) \<inter> arId ` set (auRows db) = {}" using g(3) by blast
  obtain res db' where res: "write_streams H pl env (new_groups db batch) r db = (Inr res, db')"
    using write_streams_total [OF assms(1,2) g(1) av g(2) dj] by blast
  obtain cs where cs: "map base cs = concat (map snd (new_groups db batch))" "res = add_results cs r"
    using write_streams_keeps [OF assms(1,2) g(1) res] by blast
  have ids: "(\<lambda>c. eventId (base c)) ` set cs = eventId ` set batch - arId ` set (auRows db)"
    using g(3) by (simp add: image_image flip: cs(1))
  have "\<exists>c. map_of res (eventId e) = Some c" if e: "e \<in> set batch" for e
  proof (cases "eventId e \<in> arId ` set (auRows db)")
    case True
    then obtain ev where "map_of r (eventId e) = Some ev" using r(2) stored_ids [OF assms(1)] e by blast
    then show ?thesis by (auto simp: cs(2) add_results_map map_add_def split: option.split)
  next
    case False
    then have "eventId e \<in> (\<lambda>c. eventId (base c)) ` set cs" using e unfolding ids by simp
    then have "map_of (rev (map (\<lambda>c. (eventId (base c), c)) cs)) (eventId e) \<noteq> None"
      by (auto simp: map_of_eq_None_iff image_image)
    then show ?thesis by (auto simp: cs(2) add_results_map map_add_def)
  qed
  then have "\<forall>e \<in> set batch. \<exists>c. (case map_of res (eventId e) of
      None \<Rightarrow> Inl (integrity_error (eventId e) '' was not persisted'') | Some ce \<Rightarrow> Inr ce) = Inr c"
    by fastforce
  then obtain out where "collect res batch = Inr out" unfolding collect_def mapR_returns [symmetric] by blast
  then show ?thesis unfolding r(1) res by simp
qed

text \<open>
  C23: No write breaks a chain: from tables in order, a write, whether it returns or throws half way
  through its streams, leaves the ids and the stream positions unique and every stream a chain
  from its base point, changes no row, no archived row and no checkpoint, and only appends to what
  each stream reads back as.
\<close>

theorem lucid_write_keeps_chains:
  assumes "lucid_inv H pl db" "faithful_json pl" "list_all (storable pl) batch"
  shows "lucid_inv H pl (snd (lucid_write H pl env batch db))
    \<and> (\<exists>rows. snd (lucid_write H pl env batch db) = db\<lparr>auRows := auRows db @ rows\<rparr>)
    \<and> prefix (lucid_history pl db s) (lucid_history pl (snd (lucid_write H pl env batch db)) s)"
proof -
  obtain res db' where w: "lucid_write H pl env batch db = (res, db')" by (rule prod.exhaust)
  have ok: "lucid_ok H pl db" using assms(1,2) by (simp add: lucid_ok_def)
  show ?thesis
    using write_keeps [OF assms w] lucid.write_grows [OF ok assms(3), of s env] w
    by (auto simp: appended_def)
qed

theorem lucid_write_keeps_chains_witness:
  "lucid_inv sample_digest sample_platform (snd (lucid_write sample_digest sample_platform sample_env [stamped sample_a, stamped sample_b] empty_db))"
  using lucid_write_keeps_chains [OF lucid_inv_empty sample_faithful, of "[stamped sample_a, stamped sample_b]" sample_digest]
    sample_storable by simp

text \<open>
  C24: When the locks are granted and the transactions commit, a write returns exactly when no event of
  the batch conflicts with another of its id in the batch or in the table. Then every event of the
  batch is in the table under its id, once, and the event returned for it carries the stored
  sequence number and digests; nothing else is added. On a conflict the write throws and
  leaves the tables as they were.
\<close>

theorem lucid_write_iff:
  assumes "lucid_inv H pl db" "faithful_json pl" "list_all (storable pl) batch" "\<forall>s. available pl env s"
  shows "if compatible pl db batch
    then \<exists>out db'. lucid_write H pl env batch db = (Inr out, db') \<and> list_all2 (reports pl db') batch out
      \<and> distinct (map arId (auRows db')) \<and> arId ` set (auRows db') = arId ` set (auRows db) \<union> eventId ` set batch
    else \<exists>i w. lucid_write H pl env batch db = (Inl (integrity_error i w), db)"
proof (cases "compatible pl db batch")
  case False
  then show ?thesis using lucid_write_conflict [OF assms(1,3) False] by simp
next
  case comp: True
  obtain out db' where w: "lucid_write H pl env batch db = (Inr out, db')"
    using lucid_write_total [OF assms comp] by blast
  note k = write_reports [OF assms(1-3) w]
  have "distinct (map arId (auRows db'))" using k(2) by (simp add: lucid_inv_def)
  then show ?thesis using comp w k by auto
qed

lemma sample_compatible: "compatible sample_platform empty_db [stamped sample_a, stamped sample_b]"
  by (simp add: compatible_def stored_under_def empty_db_def stamped_def sample_a_def sample_b_def sample_event_def)

lemma two_reports: "list_all2 R [x, y] out \<Longrightarrow> length out = 2"
  using list_all2_lengthD [of R "[x, y]" out] by simp

theorem lucid_write_iff_witness:
  "\<exists>out db'. lucid_write sample_digest sample_platform sample_env [stamped sample_a, stamped sample_b] empty_db = (Inr out, db')
     \<and> length out = 2 \<and> arId ` set (auRows db') = {''a'', ''b''}"
proof -
  have "\<forall>s. available sample_platform sample_env s" "list_all (storable sample_platform) [stamped sample_a, stamped sample_b]"
    using sample_available sample_storable by simp_all
  from lucid_write_iff [OF lucid_inv_empty [of sample_digest] sample_faithful this(2,1)]
  obtain out db' where "lucid_write sample_digest sample_platform sample_env [stamped sample_a, stamped sample_b] empty_db = (Inr out, db')"
    "list_all2 (reports sample_platform db') [stamped sample_a, stamped sample_b] out"
    "arId ` set (auRows db') = arId ` set (auRows empty_db) \<union> eventId ` set [stamped sample_a, stamped sample_b]"
    using sample_compatible by auto
  moreover from this(2) have "length out = 2" by (rule two_reports)
  ultimately show ?thesis
    by (intro exI [of _ out] exI [of _ db']) (simp add: empty_db_def stamped_def sample_a_def sample_b_def sample_event_def)
qed

text \<open>
  C25: A write is idempotent, which is what at-least-once delivery relies on: writing a batch again
  after it was written, with whatever happens to the locks and transactions, returns the same
  sequence numbers and digests and changes nothing.
\<close>

theorem lucid_write_idempotent:
  assumes "lucid_inv H pl db" "faithful_json pl" "list_all (storable pl) batch"
    "lucid_write H pl env batch db = (Inr out, db')"
  shows "\<exists>out'. lucid_write H pl env' batch db' = (Inr out', db')
    \<and> list_all2 (\<lambda>c c'. seq c' = seq c \<and> hash c' = hash c \<and> prevHash c' = prevHash c) out out'"
proof (cases "batch = []")
  case True
  then show ?thesis using assms(4) by (auto simp: lucid_write_def)
next
  case False
  note k = write_reports [OF assms]
  have rep: "reports pl db' e c" if "(e, c) \<in> set (zip batch out)" for e c
    using k(5) that by (auto simp: list_all2_iff)
  have st: "\<exists>ev. stored_under pl db' (eventId e) ev \<and> auditEventFingerprint pl (base ev) = auditEventFingerprint pl e" if "e \<in> set batch" for e
    using k(5) that by (metis (no_types, lifting) list_all2_conv_all_nth in_set_conv_nth reports_def)
  have comp: "compatible pl db' batch"
    unfolding compatible_def
  proof (intro ballI conjI allI impI)
    fix e f assume "e \<in> set batch" "f \<in> set batch" "eventId e = eventId f"
    then show "auditEventFingerprint pl e = auditEventFingerprint pl f" by (rule compatibleD(1) [OF k(1)])
  next
    fix e ev assume "e \<in> set batch" "stored_under pl db' (eventId e) ev"
    then show "auditEventFingerprint pl (base ev) = auditEventFingerprint pl e"
      using st stored_unique [OF k(2)] by blast
  qed
  obtain r where r: "lucid_write H pl env' batch db'
      = sbind (write_streams H pl env' (new_groups db' batch) r db') (\<lambda>results db. (collect results batch, db))"
    "\<And>i ev. map_of r i = Some ev \<longleftrightarrow> i \<in> eventId ` set batch \<and> stored_under pl db' i ev"
    using lucid_write_runs [OF k(2) assms(3) comp False, where env = env'] by blast
  have "eventId ` set (unseen (arId ` set (auRows db')) batch) = {}" unfolding unseen_ids using k(4) by blast
  then have "unseen (arId ` set (auRows db')) batch = []" by simp
  then have "new_groups db' batch = []" by (simp add: new_groups_def)
  then have w: "lucid_write H pl env' batch db' = (collect r batch, db')" using r(1) by simp
  have "map_of r (eventId e) = Some ev" if "e \<in> set batch" "stored_under pl db' (eventId e) ev" for e ev
    using that r(2) by blast
  then have "\<forall>e \<in> set batch. \<exists>c. (case map_of r (eventId e) of
      None \<Rightarrow> Inl (integrity_error (eventId e) '' was not persisted'') | Some ce \<Rightarrow> Inr ce) = Inr c"
    using st by fastforce
  then obtain out' where out': "collect r batch = Inr out'" unfolding collect_def mapR_returns [symmetric] by blast
  have "list_all2 (\<lambda>c c'. seq c' = seq c \<and> hash c' = hash c \<and> prevHash c' = prevHash c) out out'"
    unfolding list_all2_conv_all_nth
  proof (intro conjI allI impI)
    show len: "length out = length out'"
      using k(5) mapR_Inr_length [OF out' [unfolded collect_def]] by (simp add: list_all2_lengthD)
    fix i assume i: "i < length out"
    then have b: "i < length batch" using k(5) by (simp add: list_all2_lengthD)
    obtain ev where ev: "stored_under pl db' (eventId (batch ! i)) ev" "seq (out ! i) = seq ev" "hash (out ! i) = hash ev"
      "prevHash (out ! i) = prevHash ev"
      using list_all2_nthD [OF k(5) b] by (auto simp: reports_def)
    have "map_of r (eventId (batch ! i)) = Some ev" using r(2) ev(1) b by simp
    then have "out' ! i = ev" using mapR_Inr_nth [OF out' [unfolded collect_def] b] by simp
    then show "seq (out' ! i) = seq (out ! i)" "hash (out' ! i) = hash (out ! i)" "prevHash (out' ! i) = prevHash (out ! i)"
      using ev by simp_all
  qed
  then show ?thesis using w out' by simp
qed

theorem lucid_write_idempotent_witness:
  "\<exists>out db'. lucid_write sample_digest sample_platform sample_env [stamped sample_a] empty_db = (Inr out, db')
     \<and> snd (lucid_write sample_digest sample_platform sample_env [stamped sample_a] db') = db'"
proof -
  let ?b = "[stamped sample_a]"
  have st: "list_all (storable sample_platform) ?b" using sample_storable by simp
  have "compatible sample_platform empty_db ?b" by (simp add: compatible_def stored_under_def empty_db_def)
  then obtain out db' where w: "lucid_write sample_digest sample_platform sample_env ?b empty_db = (Inr out, db')"
    using lucid_write_total [OF lucid_inv_empty sample_faithful st] sample_available by blast
  then show ?thesis
    using lucid_write_idempotent [OF lucid_inv_empty sample_faithful st w, of sample_env] by auto
qed

end
