(* ===== verification/LucidVerify.thy ===== *)
theory LucidVerify
  imports LucidWrite
begin

text \<open>
  \<open>LucidStore.verify\<close>, which reads a stream page by page, and \<open>resolveSequenceHash\<close>. The abstract
  verifier is one pass over the live rows of the range.
\<close>

section \<open>The pages\<close>

definition verify_start :: "lucid_db \<Rightarrow> string \<Rightarrow> int \<Rightarrow> int \<times> string" where
  "verify_start db s fromSeq =
     (case rev (filter (\<lambda>r. arSeq r < fromSeq) (live db s)) of
        r # rs \<Rightarrow> (arSeq r, arHash r)
      | [] \<Rightarrow> base_point db s)"

definition check_event ::
  "(string \<Rightarrow> string) \<Rightarrow> string \<Rightarrow> stream_state \<Rightarrow> chained_event \<Rightarrow> (stream_state \<times> verify_report) result" where
  "check_event H s st ev =
    (let st = st\<lparr>checked := checked st + 1\<rparr>; expectedSeq = prevSeq st + 1 in
     rbind (hashEntry H (base ev) expectedSeq (statePrevHash st)) (\<lambda>expected.
       if seq ev = expectedSeq \<and> hash ev = expected
       then Inr (st\<lparr>prevSeq := seq ev, statePrevHash := hash ev\<rparr>,
              \<lparr>reportStream = s, valid = True, firstInvalidSeq = None,
               expectedHash = None, actualHash = None, checkedCount = checked st\<rparr>)
       else (let st = (if stateFirstInvalid st = None then st\<lparr>stateFirstInvalid := Some (seq ev)\<rparr> else st)
             in Inr (st,
              \<lparr>reportStream = s, valid = False, firstInvalidSeq = stateFirstInvalid st,
               expectedHash = Some expected, actualHash = Some (hash ev), checkedCount = checked st\<rparr>))))"

text \<open>One page: the reports, and the state after it or the error thrown in it.\<close>

fun verify_page ::
  "(string \<Rightarrow> string) \<Rightarrow> platform \<Rightarrow> string \<Rightarrow> stream_state \<Rightarrow> audit_row list \<Rightarrow> verify_report list \<times> stream_state result" where
  "verify_page H pl s st [] = ([], Inr st)"
| "verify_page H pl s st (r # rs) =
     (case rbind (read_event pl r) (check_event H s st) of
        Inl e \<Rightarrow> ([], Inl e)
      | Inr (st, rep) \<Rightarrow> (let (reps, res) = verify_page H pl s st rs in (rep # reps, res)))"

definition pageSize :: nat where "pageSize = 500"

definition page_after :: "int option \<Rightarrow> int \<Rightarrow> audit_row list \<Rightarrow> audit_row list" where
  "page_after toSeq lastSeq rows =
     filter (\<lambda>r. lastSeq < arSeq r \<and> (case toSeq of None \<Rightarrow> True | Some t \<Rightarrow> arSeq r \<le> t)) rows"

lemma filter_shorter:
  assumes "x \<in> set xs" "P x" "\<not> Q x" "\<And>y. Q y \<Longrightarrow> P y"
  shows "length (filter Q xs) < length (filter P xs)"
proof -
  have "filter Q xs = filter Q (filter P xs)" using assms(4) by (simp add: filter_filter) (metis assms(4))
  moreover have "length (filter Q (filter P xs)) < length (filter P xs)"
    by (rule length_filter_less [of x]) (use assms in simp_all)
  ultimately show ?thesis by simp
qed

lemma page_after_shorter:
  "x \<in> set (page_after toSeq l rows) \<Longrightarrow> length (page_after toSeq (arSeq x) rows) < length (page_after toSeq l rows)"
  unfolding page_after_def by (rule filter_shorter [of x]) auto

text \<open>The \<open>while (true)\<close>: it ends because every page starts behind the last row of the one before.\<close>

function verify_pages ::
  "(string \<Rightarrow> string) \<Rightarrow> platform \<Rightarrow> string \<Rightarrow> int option \<Rightarrow> stream_state \<Rightarrow> int \<Rightarrow> audit_row list \<Rightarrow> verify_report list \<times> audit_error option" where
  "verify_pages H pl s toSeq st lastSeq rows =
     (let page = take pageSize (page_after toSeq lastSeq rows) in
      if page = [] then ([], None)
      else case verify_page H pl s st page of
        (reps, Inl e) \<Rightarrow> (reps, Some e)
      | (reps, Inr st) \<Rightarrow>
          if length page < pageSize then (reps, None)
          else (let (more, err) = verify_pages H pl s toSeq st (arSeq (last page)) rows in (reps @ more, err)))"
  by auto
termination
proof (relation "measure (\<lambda>(H, pl, s, toSeq, st, lastSeq, rows). length (page_after toSeq lastSeq rows))", simp)
  fix toSeq lastSeq rows page
  assume "page = take pageSize (page_after toSeq lastSeq rows)" "page \<noteq> []"
  then have "last page \<in> set (page_after toSeq lastSeq rows)" using last_in_set in_set_takeD by metis
  then show "((H, pl, s, toSeq, st', arSeq (last page), rows), (H, pl, s, toSeq, st, lastSeq, rows))
      \<in> measure (\<lambda>(H, pl, s, toSeq, st, lastSeq, rows). length (page_after toSeq lastSeq rows))" for H pl s st st'
    by (simp add: page_after_shorter)
qed

declare verify_pages.simps [simp del]

definition lucid_verify ::
  "(string \<Rightarrow> string) \<Rightarrow> platform \<Rightarrow> lucid_db \<Rightarrow> string \<Rightarrow> int option \<Rightarrow> int option \<Rightarrow> verify_report list \<times> audit_error option" where
  "lucid_verify H pl db s fromSeq toSeq =
     (let (n, p) = verify_start db s (case fromSeq of None \<Rightarrow> 1 | Some k \<Rightarrow> k) in
      verify_pages H pl s toSeq \<lparr>prevSeq = n, statePrevHash = p, checked = 0, stateFirstInvalid = None\<rparr> n (live db s))"

definition resolveSequenceHash :: "lucid_db \<Rightarrow> string \<Rightarrow> int \<Rightarrow> string option" where
  "resolveSequenceHash db s n =
     (case filter (\<lambda>r. arStream r = s \<and> arSeq r = n) (auRows db) of r # rs \<Rightarrow> Some (arHash r)
      | [] \<Rightarrow>
       (case filter (\<lambda>a. avStream a = s \<and> avSeq a = n) (auArchive db) of a # as \<Rightarrow> Some (avHash a)
        | [] \<Rightarrow>
         (case filter (\<lambda>c. cpStream c = s \<and> cpSeq c = n) (auCheckpoints db) of c # cs \<Rightarrow> Some (cpHash c)
          | [] \<Rightarrow> None)))"

section \<open>Paging is one pass\<close>

definition verify_pass ::
  "(string \<Rightarrow> string) \<Rightarrow> platform \<Rightarrow> string \<Rightarrow> stream_state \<Rightarrow> audit_row list \<Rightarrow> verify_report list \<times> audit_error option" where
  "verify_pass H pl s st rows =
     (case verify_page H pl s st rows of (reps, Inl e) \<Rightarrow> (reps, Some e) | (reps, Inr st') \<Rightarrow> (reps, None))"

abbreviation rising :: "audit_row list \<Rightarrow> bool" where
  "rising \<equiv> sorted_wrt (\<lambda>x y. arSeq x < arSeq y)"

lemma verify_page_append:
  "verify_page H pl s st (xs @ ys) =
     (case verify_page H pl s st xs of (reps, Inl e) \<Rightarrow> (reps, Inl e)
      | (reps, Inr st') \<Rightarrow> (let (more, res) = verify_page H pl s st' ys in (reps @ more, res)))"
  by (induction xs arbitrary: st) (auto simp: Let_def split: sum.splits prod.splits)

lemma rising_filter: "rising xs \<Longrightarrow> rising (filter P xs)"
  by (rule sorted_wrt_filter)

lemma rising_after:
  assumes "rising ys" "take k ys \<noteq> []"
  shows "filter (\<lambda>r. arSeq (last (take k ys)) < arSeq r) ys = drop k ys"
proof -
  let ?m = "arSeq (last (take k ys))"
  have r: "rising (take k ys @ drop k ys)" using assms(1) by simp
  have "arSeq x \<le> ?m" if "x \<in> set (take k ys)" for x
  proof -
    obtain zs z where z: "take k ys = zs @ [z]" using assms(2) by (cases "take k ys" rule: rev_cases) auto
    then show ?thesis using r that by (auto simp: sorted_wrt_append)
  qed
  then have "filter (\<lambda>r. ?m < arSeq r) (take k ys) = []" by (fastforce simp: filter_empty_conv)
  moreover have "filter (\<lambda>r. ?m < arSeq r) (drop k ys) = drop k ys"
    using r assms(2) unfolding sorted_wrt_append filter_id_conv by (metis last_in_set)
  ultimately show ?thesis by (metis append_take_drop_id filter_append append_Nil)
qed

lemma page_after_next:
  assumes "rising rows" "take k (page_after toSeq l rows) \<noteq> []"
  shows "page_after toSeq (arSeq (last (take k (page_after toSeq l rows)))) rows = drop k (page_after toSeq l rows)"
proof -
  let ?m = "arSeq (last (take k (page_after toSeq l rows)))"
  have "last (take k (page_after toSeq l rows)) \<in> set (page_after toSeq l rows)"
    using assms(2) last_in_set in_set_takeD by metis
  then have "l < ?m" by (simp add: page_after_def)
  then have "page_after toSeq ?m rows = filter (\<lambda>r. ?m < arSeq r) (page_after toSeq l rows)"
    by (auto simp: page_after_def filter_filter intro!: filter_cong)
  then show ?thesis using rising_after [OF _ assms(2)] rising_filter [OF assms(1)] by (simp add: page_after_def)
qed

lemma verify_pages_pass:
  "rising rows \<Longrightarrow> verify_pages H pl s toSeq st l rows = verify_pass H pl s st (page_after toSeq l rows)"
proof (induction H pl s toSeq st l rows rule: verify_pages.induct)
  case (1 H pl s toSeq st l rows)
  let ?all = "page_after toSeq l rows"
  let ?page = "take pageSize ?all"
  show ?case
  proof (cases "?page = []")
    case True
    then have "?all = []" by (simp add: pageSize_def)
    then show ?thesis by (simp add: verify_pages.simps [of H pl s toSeq st l rows] verify_pass_def)
  next
    case False
    obtain reps res where p: "verify_page H pl s st ?page = (reps, res)" by (rule prod.exhaust)
    have all: "verify_page H pl s st ?all = (case verify_page H pl s st ?page of (reps, Inl e) \<Rightarrow> (reps, Inl e)
      | (reps, Inr st') \<Rightarrow> (let (more, res) = verify_page H pl s st' (drop pageSize ?all) in (reps @ more, res)))"
      by (simp flip: verify_page_append)
    show ?thesis
    proof (cases res)
      case (Inl e)
      then show ?thesis using False p all by (simp add: verify_pages.simps [of H pl s toSeq st l rows] verify_pass_def Let_def)
    next
      case (Inr st')
      show ?thesis
      proof (cases "length ?page < pageSize")
        case True
        then have "drop pageSize ?all = []" by simp
        then have d: "verify_page H pl s st' (drop pageSize ?all) = ([], Inr st')" by (simp only: verify_page.simps)
        show ?thesis
          unfolding verify_pages.simps [of H pl s toSeq st l rows] verify_pass_def Let_def all p Inr
          by (simp only: False True d if_True if_False prod.case sum.case append_Nil2)
      next
        case full: False
        have "verify_pages H pl s toSeq st' (arSeq (last ?page)) rows = verify_pass H pl s st' (drop pageSize ?all)"
          using "1.IH" [OF refl False p [symmetric] Inr full "1.prems"] page_after_next [OF "1.prems" False] by simp
        then show ?thesis using False full p all Inr
          by (simp add: verify_pages.simps [of H pl s toSeq st l rows] verify_pass_def Let_def split: prod.splits sum.splits)
      qed
    qed
  qed
qed

section \<open>What a pass accepts\<close>

lemma check_event_valid:
  assumes "check_event H s st ev = Inr (st', rep)" "valid rep"
  shows "seq ev = prevSeq st + 1" "hashEntry H (base ev) (prevSeq st + 1) (statePrevHash st) = Inr (hash ev)"
    "prevSeq st' = seq ev" "statePrevHash st' = hash ev"
  using assms by (auto simp: check_event_def Let_def result_iff split: if_splits)

lemma check_event_linked:
  assumes "seq ev = prevSeq st + 1" "hashEntry H (base ev) (prevSeq st + 1) (statePrevHash st) = Inr (hash ev)"
  shows "\<exists>st' rep. check_event H s st ev = Inr (st', rep) \<and> valid rep \<and> reportStream rep = s \<and> prevSeq st' = seq ev \<and> statePrevHash st' = hash ev"
  using assms by (simp add: check_event_def Let_def)

lemma verify_page_linked:
  assumes "mapR (read_event pl) rows = Inr evs" "linked_from H (prevSeq st + 1) (statePrevHash st) evs"
  shows "\<exists>reps st'. verify_page H pl s st rows = (reps, Inr st') \<and> list_all valid reps \<and> length reps = length rows"
  using assms
proof (induction rows arbitrary: st evs)
  case Nil
  then show ?case by simp
next
  case (Cons r rows)
  then obtain ev evs' where ev: "read_event pl r = Inr ev" "mapR (read_event pl) rows = Inr evs'" "evs = ev # evs'"
    by (auto simp: result_iff)
  have l: "seq ev = prevSeq st + 1" "hashEntry H (base ev) (prevSeq st + 1) (statePrevHash st) = Inr (hash ev)"
    "linked_from H (seq ev + 1) (hash ev) evs'"
    using Cons.prems(2) ev(3) by auto
  obtain st' rep where c: "check_event H s st ev = Inr (st', rep)" "valid rep" "prevSeq st' = seq ev" "statePrevHash st' = hash ev"
    using check_event_linked [OF l(1,2)] by blast
  have "linked_from H (prevSeq st' + 1) (statePrevHash st') evs'" using l(3) c by simp
  from Cons.IH [OF ev(2) this] obtain reps st'' where "verify_page H pl s st' rows = (reps, Inr st'')" "list_all valid reps" "length reps = length rows"
    by blast
  then show ?case using ev(1) c by (intro exI [of _ "rep # reps"] exI [of _ st'']) simp
qed

lemma verify_page_accepts:
  assumes "verify_page H pl s st rows = (reps, Inr st')" "list_all valid reps"
  shows "\<exists>evs. mapR (read_event pl) rows = Inr evs \<and> linked_from H (prevSeq st + 1) (statePrevHash st) evs"
  using assms
proof (induction rows arbitrary: st reps)
  case Nil
  then show ?case by simp
next
  case (Cons r rows)
  obtain st1 rep where c: "rbind (read_event pl r) (check_event H s st) = Inr (st1, rep)"
    using Cons.prems(1) by (cases "rbind (read_event pl r) (check_event H s st)") auto
  obtain reps' where rs: "verify_page H pl s st1 rows = (reps', Inr st')" "reps = rep # reps'"
    using Cons.prems(1) c by (auto split: prod.splits)
  obtain ev where ev: "read_event pl r = Inr ev" "check_event H s st ev = Inr (st1, rep)" using c by (auto simp: result_iff)
  note v = check_event_valid [OF ev(2)]
  obtain evs where "mapR (read_event pl) rows = Inr evs" "linked_from H (prevSeq st1 + 1) (statePrevHash st1) evs"
    using Cons.IH [OF rs(1)] Cons.prems(2) rs(2) by auto
  then show ?case using ev(1) v Cons.prems(2) rs(2) by (intro exI [of _ "ev # evs"]) simp
qed

lemma verify_pass_passes:
  "passes (verify_pass H pl s st rows) \<longleftrightarrow>
     (\<exists>evs. mapR (read_event pl) rows = Inr evs \<and> linked_from H (prevSeq st + 1) (statePrevHash st) evs)"
proof
  assume a: "passes (verify_pass H pl s st rows)"
  obtain reps res where p: "verify_page H pl s st rows = (reps, res)" by (rule prod.exhaust)
  obtain st' where "res = Inr st'" "list_all valid reps" using a p by (cases res) (auto simp: passes_def verify_pass_def)
  then show "\<exists>evs. mapR (read_event pl) rows = Inr evs \<and> linked_from H (prevSeq st + 1) (statePrevHash st) evs"
    using verify_page_accepts p by blast
next
  assume "\<exists>evs. mapR (read_event pl) rows = Inr evs \<and> linked_from H (prevSeq st + 1) (statePrevHash st) evs"
  then obtain reps st' where "verify_page H pl s st rows = (reps, Inr st')" "list_all valid reps"
    using verify_page_linked by blast
  then show "passes (verify_pass H pl s st rows)" by (simp add: passes_def verify_pass_def)
qed

lemma rising_live:
  assumes "distinct (map row_key (auRows db))"
  shows "rising (live db s)"
proof -
  have "inj_on arSeq (set (filter (\<lambda>r. arStream r = s) (auRows db)))"
    using assms by (auto simp: distinct_map inj_on_def row_key_def)
  moreover have "distinct (filter (\<lambda>r. arStream r = s) (auRows db))" using assms by (simp add: distinct_map)
  ultimately have "distinct (map arSeq (live db s))" by (simp add: live_def distinct_map)
  then have "sorted_wrt (<) (map arSeq (live db s))" using sorted_live by (simp add: strict_sorted_iff)
  then show ?thesis by (simp add: sorted_wrt_map)
qed

lemma base_before:
  assumes "base_point db s = (n, p)" "live db s = first # rs"
  shows "n < arSeq first \<or> n = 0 \<and> p = GENESIS"
proof -
  let ?cs = "rev (sort_key cpSeq (filter (\<lambda>c. cpStream c = s \<and> cpSeq c < arSeq first) (auCheckpoints db)))"
  have "\<forall>c \<in> set ?cs. cpSeq c < arSeq first" by simp
  then show ?thesis using assms by (cases ?cs) (simp_all add: base_point_def)
qed

lemma rising_split:
  assumes "rising xs"
  shows "filter (\<lambda>r. arSeq r < k) xs @ filter (\<lambda>r. \<not> arSeq r < k) xs = xs"
  using assms
proof (induction xs)
  case (Cons x xs)
  have "filter (\<lambda>r. arSeq r < k) xs = []" "filter (\<lambda>r. \<not> arSeq r < k) xs = xs" if "\<not> arSeq x < k"
    using Cons.prems that by (fastforce simp: filter_empty_conv filter_id_conv)+
  then show ?case using Cons by (cases "arSeq x < k") simp_all
qed simp

lemma split_reads:
  assumes "mapR (read_event pl) (xs @ ys) = Inr evs" "linked_from H (n + 1) p evs"
  shows "\<exists>us vs. mapR (read_event pl) xs = Inr us \<and> linked_from H (n + 1) p us
     \<and> mapR (read_event pl) ys = Inr vs \<and> linked_from H (n + int (length xs) + 1) (end_hash p us) vs \<and> evs = us @ vs"
  using assms read_events_keep(3) [of pl xs] by (auto simp: mapR_append result_iff algebra_simps)

lemma end_of_reads: "mapR (read_event pl) xs = Inr us \<Longrightarrow> xs \<noteq> [] \<Longrightarrow> end_hash p us = arHash (last xs)"
  using read_events_keep [of pl xs us] by (metis end_hash_def last_map length_0_conv)

lemma live_positive:
  assumes "lucid_inv H pl db" "r \<in> set (live db s)"
  shows "1 \<le> arSeq r"
proof -
  obtain n p where b: "base_point db s = (n, p)" by fastforce
  have ch: "chained_stream H pl db s" using assms(1) by (simp add: lucid_inv_def)
  obtain evs where evs: "map arSeq (live db s) = map (\<lambda>i. n + 1 + int i) [0..<length (live db s)]"
    by (rule chained_live [OF ch b])
  have "arSeq r \<in> set (map arSeq (live db s))" using assms(2) by (simp del: set_live)
  then have "n < arSeq r" unfolding evs by auto
  moreover have "0 \<le> n"
  proof (cases "live db s")
    case (Cons first rs)
    let ?cs = "rev (sort_key cpSeq (filter (\<lambda>c. cpStream c = s \<and> cpSeq c < arSeq first) (auCheckpoints db)))"
    have "\<forall>c \<in> set ?cs. 1 \<le> cpSeq c" using assms(1) by (simp add: lucid_inv_def list_all_iff)
    then show ?thesis using b Cons by (cases ?cs) (simp_all add: base_point_def)
  qed (use b in \<open>simp add: base_point_def\<close>)
  ultimately show ?thesis by simp
qed

text \<open>The starting point is the end of the rows before the range.\<close>

lemma verify_start_linked:
  assumes "lucid_inv H pl db"
  shows "\<exists>m q vs. verify_start db s k = (m, q) \<and> page_after toSeq m (live db s)
      = filter (\<lambda>r. \<not> arSeq r < k \<and> (case toSeq of None \<Rightarrow> True | Some t \<Rightarrow> arSeq r \<le> t)) (live db s)
    \<and> mapR (read_event pl) (filter (\<lambda>r. \<not> arSeq r < k) (live db s)) = Inr vs \<and> linked_from H (m + 1) q vs"
proof -
  let ?pre = "filter (\<lambda>r. arSeq r < k) (live db s)" and ?post = "filter (\<lambda>r. \<not> arSeq r < k) (live db s)"
  have ri: "rising (live db s)" using assms by (intro rising_live) (simp add: lucid_inv_def)
  note sp = rising_split [OF ri, of k]
  obtain n p where b: "base_point db s = (n, p)" by fastforce
  have ch: "chained_stream H pl db s" using assms by (simp add: lucid_inv_def)
  obtain evs where evs: "mapR (read_event pl) (live db s) = Inr evs" "linked_from H (n + 1) p evs"
    "map arSeq (live db s) = map (\<lambda>i. n + 1 + int i) [0..<length (live db s)]"
    by (rule chained_live [OF ch b])
  have "mapR (read_event pl) (?pre @ ?post) = Inr evs" unfolding sp by (rule evs(1))
  from split_reads [OF this evs(2)] obtain us vs where uv: "mapR (read_event pl) ?pre = Inr us"
    "mapR (read_event pl) ?post = Inr vs" "linked_from H (n + int (length ?pre) + 1) (end_hash p us) vs" "linked_from H (n + 1) p us"
    by blast
  have low: "n < arSeq r" if "r \<in> set (live db s)" for r
  proof -
    have "arSeq r \<in> set (map arSeq (live db s))" using that by (simp del: set_live)
    then show ?thesis unfolding evs(3) by auto
  qed
  show ?thesis
  proof (cases ?pre rule: rev_cases)
    case Nil
    then have "arSeq r < k \<longleftrightarrow> False" if "r \<in> set (live db s)" for r using that by (auto simp: filter_empty_conv simp del: set_live)
    then have "page_after toSeq n (live db s) = filter (\<lambda>r. \<not> arSeq r < k \<and> (case toSeq of None \<Rightarrow> True | Some t \<Rightarrow> arSeq r \<le> t)) (live db s)"
      using low unfolding page_after_def by (intro filter_cong) (simp_all del: set_live)
    moreover have "us = []" using uv(1) Nil by simp
    ultimately show ?thesis using Nil uv b by (intro exI [of _ n] exI [of _ p] exI [of _ vs]) (simp add: verify_start_def)
  next
    case (snoc rs r)
    have "seq (us ! length rs) = n + 1 + int (length rs)"
      using linked_from_seq [OF uv(4)] read_events_keep(3) [OF uv(1)] snoc by simp
    moreover have "seq (us ! length rs) = arSeq r"
      using arg_cong [OF read_events_keep(1) [OF uv(1)], of "\<lambda>xs. xs ! length rs"] read_events_keep(3) [OF uv(1)] snoc by (simp add: nth_append)
    ultimately have q: "arSeq r = n + int (length ?pre)" using snoc by simp
    have h: "end_hash p us = arHash r" using end_of_reads [OF uv(1)] snoc by simp
    have "arSeq x < k \<longleftrightarrow> arSeq x \<le> arSeq r" if "x \<in> set (live db s)" for x
    proof
      assume "arSeq x < k"
      then have "x \<in> set (rs @ [r])" using that snoc [symmetric] by simp
      moreover have "rising (rs @ [r])" using rising_filter [OF ri, of "\<lambda>r. arSeq r < k"] snoc by simp
      ultimately show "arSeq x \<le> arSeq r" by (auto simp: sorted_wrt_append)
    next
      have "r \<in> set ?pre" using snoc by simp
      then show "arSeq x \<le> arSeq r \<Longrightarrow> arSeq x < k" by simp
    qed
    then have "page_after toSeq (arSeq r) (live db s) = filter (\<lambda>r. \<not> arSeq r < k \<and> (case toSeq of None \<Rightarrow> True | Some t \<Rightarrow> arSeq r \<le> t)) (live db s)"
      unfolding page_after_def by (intro filter_cong) (auto simp del: set_live)
    then show ?thesis using uv q h snoc by (intro exI [of _ "arSeq r"] exI [of _ "arHash r"] exI [of _ vs]) (simp add: verify_start_def)
  qed
qed

definition in_range :: "int option \<Rightarrow> int option \<Rightarrow> audit_row \<Rightarrow> bool" where
  "in_range fromSeq toSeq r \<longleftrightarrow>
     (case fromSeq of None \<Rightarrow> True | Some k \<Rightarrow> k \<le> arSeq r) \<and> (case toSeq of None \<Rightarrow> True | Some k \<Rightarrow> arSeq r \<le> k)"

section \<open>Properties\<close>

text \<open>The tables after two events have been written.\<close>

definition sample_db :: lucid_db where
  "sample_db = snd (lucid_write sample_digest sample_platform sample_env [stamped sample_a, stamped sample_b] empty_db)"

lemma sample_db_inv: "lucid_inv sample_digest sample_platform sample_db"
proof -
  have "list_all (storable sample_platform) [stamped sample_a, stamped sample_b]" using sample_storable by simp
  from write_keeps [OF lucid_inv_empty sample_faithful this prod.collapse [symmetric]]
  show ?thesis unfolding sample_db_def by blast
qed

lemma sample_db_keys: "distinct (map row_key (auRows sample_db))"
  using sample_db_inv by (simp add: lucid_inv_def)

lemma sample_db_positive: "\<forall>r \<in> set (auRows sample_db). 1 \<le> arSeq r"
  using live_positive [OF sample_db_inv] by auto

text \<open>
  C26: Paging does not change what is verified: when the positions of the rows are distinct, as the
  unique index ensures, \<open>verify\<close> yields the reports of one pass over the live rows behind its
  starting point, in the order of their sequence numbers, and ends, whatever the number of pages.
\<close>

theorem paged_verify_is_one_pass:
  assumes "distinct (map row_key (auRows db))" "verify_start db s (case fromSeq of None \<Rightarrow> 1 | Some k \<Rightarrow> k) = (n, p)"
  shows "lucid_verify H pl db s fromSeq toSeq =
    verify_pass H pl s \<lparr>prevSeq = n, statePrevHash = p, checked = 0, stateFirstInvalid = None\<rparr> (page_after toSeq n (live db s))"
  using verify_pages_pass [OF rising_live [OF assms(1)]] assms(2) by (simp add: lucid_verify_def)

theorem paged_verify_is_one_pass_witness:
  "\<exists>n p. lucid_verify sample_digest sample_platform sample_db ''s'' None (Some 9) =
    verify_pass sample_digest sample_platform ''s'' \<lparr>prevSeq = n, statePrevHash = p, checked = 0, stateFirstInvalid = None\<rparr>
      (page_after (Some 9) n (live sample_db ''s''))"
proof -
  obtain n p where "verify_start sample_db ''s'' (case None of None \<Rightarrow> 1 | Some k \<Rightarrow> k) = (n, p)" by (rule prod.exhaust)
  from paged_verify_is_one_pass [OF sample_db_keys this] show ?thesis by blast
qed

text \<open>
  C27: A verification of a whole stream passes exactly when its live rows can be read and form a chain
  from the base point: consecutive numbers behind it, each row with the digest of its own fields
  and its predecessor.
\<close>

theorem lucid_verify_iff:
  assumes "distinct (map row_key (auRows db))" "\<forall>r \<in> set (auRows db). 1 \<le> arSeq r"
  shows "passes (lucid_verify H pl db s None None) \<longleftrightarrow> chained_stream H pl db s"
proof -
  obtain n p where b: "base_point db s = (n, p)" by fastforce
  have none: "filter (\<lambda>r. arSeq r < 1) (live db s) = []" using assms(2) by (auto simp: filter_empty_conv)
  then have vs: "verify_start db s 1 = (n, p)" using b by (simp add: verify_start_def)
  have "n < arSeq r" if "r \<in> set (live db s)" for r
  proof -
    have "n < arSeq (hd (live db s)) \<or> n = 0"
      using base_before [OF b] that by (cases "live db s") (auto simp del: set_live)
    moreover have "arSeq (hd (live db s)) \<le> arSeq r" using sorted_live [of db s] that by (cases "live db s") (auto simp del: set_live)
    ultimately show ?thesis using assms(2) that by auto
  qed
  then have "page_after None n (live db s) = live db s" unfolding page_after_def by (simp add: filter_id_conv del: set_live)
  then have "lucid_verify H pl db s None None =
    verify_pass H pl s \<lparr>prevSeq = n, statePrevHash = p, checked = 0, stateFirstInvalid = None\<rparr> (live db s)"
    using verify_pages_pass [OF rising_live [OF assms(1)], of H pl s None _ n s] vs by (simp add: lucid_verify_def)
  then show ?thesis by (simp add: verify_pass_passes chained_stream_def b)
qed

theorem lucid_verify_iff_witness:
  "passes (lucid_verify sample_digest sample_platform sample_db ''s'' None None)"
  using lucid_verify_iff [OF sample_db_keys sample_db_positive] sample_db_inv by (simp add: lucid_inv_def)

text \<open>
  C28: Tables in order verify over every range: the verification of any stream between any two
  bounds ends without a throw, and yields one valid report for each live row in the range and
  nothing else, also when the rows before the range have been pruned.
\<close>

theorem ranges_verify:
  assumes "lucid_inv H pl db"
  shows "\<exists>reps. lucid_verify H pl db s fromSeq toSeq = (reps, None) \<and> list_all valid reps
    \<and> length reps = length (filter (in_range fromSeq toSeq) (live db s))"
proof -
  let ?k = "case fromSeq of None \<Rightarrow> 1 | Some k \<Rightarrow> k"
  let ?post = "filter (\<lambda>r. \<not> arSeq r < ?k) (live db s)"
  let ?le = "\<lambda>r. case toSeq of None \<Rightarrow> True | Some t \<Rightarrow> arSeq r \<le> t"
  have ri: "rising (live db s)" using assms by (intro rising_live) (simp add: lucid_inv_def)
  obtain m q vs where v: "verify_start db s ?k = (m, q)"
    "page_after toSeq m (live db s) = filter (\<lambda>r. \<not> arSeq r < ?k \<and> ?le r) (live db s)"
    "mapR (read_event pl) ?post = Inr vs" "linked_from H (m + 1) q vs"
    using verify_start_linked [OF assms, of s ?k toSeq] by blast
  have "filter ?le ?post @ filter (\<lambda>r. \<not> ?le r) ?post = ?post"
  proof (cases toSeq)
    case (Some t)
    then show ?thesis using rising_split [OF rising_filter [OF ri], of "t + 1"] by (simp add: zless_add1_eq order_le_less)
  qed simp
  then have "mapR (read_event pl) (filter ?le ?post @ filter (\<lambda>r. \<not> ?le r) ?post) = Inr vs" using v(3) by simp
  from split_reads [OF this v(4)] obtain us where us: "mapR (read_event pl) (filter ?le ?post) = Inr us" "linked_from H (m + 1) q us"
    by blast
  have pg: "page_after toSeq m (live db s) = filter ?le ?post" using v(2) by (simp add: conj_commute)
  define st where "st = \<lparr>prevSeq = m, statePrevHash = q, checked = 0, stateFirstInvalid = None\<rparr>"
  have "linked_from H (prevSeq st + 1) (statePrevHash st) us" using us(2) by (simp add: st_def)
  from verify_page_linked [OF us(1) this, of s]
  obtain reps st' where "verify_page H pl s st (filter ?le ?post) = (reps, Inr st')"
    "list_all valid reps" "length reps = length (filter ?le ?post)" by blast
  moreover have "lucid_verify H pl db s fromSeq toSeq = verify_pass H pl s st (filter ?le ?post)"
    using verify_pages_pass [OF ri] v(1) pg by (simp add: lucid_verify_def st_def)
  moreover have "\<not> arSeq r < ?k \<and> ?le r \<longleftrightarrow> in_range fromSeq toSeq r" if "r \<in> set (live db s)" for r
    using live_positive [OF assms that] by (auto simp: in_range_def split: option.splits)
  then have "filter ?le ?post = filter (in_range fromSeq toSeq) (live db s)"
    unfolding filter_filter by (intro filter_cong) (auto simp del: set_live)
  ultimately show ?thesis by (simp add: verify_pass_def)
qed
theorem ranges_verify_witness:
  "\<exists>reps. lucid_verify sample_digest sample_platform sample_db ''s'' (Some 2) (Some 7) = (reps, None) \<and> list_all valid reps"
  using ranges_verify [OF sample_db_inv] by blast

end
