(* ===== verification/LucidQuery.thy ===== *)
theory LucidQuery
  imports LucidVerify
begin

text \<open>
  \<open>LucidStore.query\<close>: the filters, the cursor and the limit. Rows with equal sequence numbers, which
  are of different streams, come in the order of the table.
\<close>

datatype event_filter = OneEvent string | AnyEvent "string list"

record query_filters =
  qfStream :: "string option"
  qfEvent :: "event_filter option"
  qfAuditableType :: "string option"
  qfAuditableId :: "string option"
  qfActorType :: "string option"
  qfActorId :: "string option"
  qfTenantId :: "string option"
  qfFromSeq :: "int option"
  qfToSeq :: "int option"
  qfFromCreatedAt :: "string option"
  qfToCreatedAt :: "string option"
  qfLimit :: "nat option"
  qfCursor :: "int option"

text \<open>A filter that is absent or the empty string does not filter.\<close>

definition wanted :: "string option \<Rightarrow> string option \<Rightarrow> bool" where
  "wanted f col \<longleftrightarrow> (case f of None \<Rightarrow> True | Some v \<Rightarrow> v = '''' \<or> col = Some v)"

definition wanted_event :: "event_filter option \<Rightarrow> string \<Rightarrow> bool" where
  "wanted_event f ev \<longleftrightarrow>
     (case f of None \<Rightarrow> True | Some (OneEvent v) \<Rightarrow> v = '''' \<or> ev = v | Some (AnyEvent vs) \<Rightarrow> ev \<in> set vs)"

fun timestamp_le :: "jsval \<Rightarrow> jsval \<Rightarrow> bool" where
  "timestamp_le (JStr a) (JStr b) \<longleftrightarrow> a \<le> b"
| "timestamp_le (JDate a) (JDate b) \<longleftrightarrow> a \<le> b"
| "timestamp_le v w \<longleftrightarrow> False"

definition query_matches :: "platform \<Rightarrow> query_filters \<Rightarrow> audit_row \<Rightarrow> bool" where
  "query_matches pl f r \<longleftrightarrow>
     wanted (qfStream f) (Some (arStream r)) \<and> wanted_event (qfEvent f) (arEvent r)
     \<and> wanted (qfAuditableType f) (arAuditableType r) \<and> wanted (qfAuditableId f) (arAuditableId r)
     \<and> wanted (qfActorType f) (Some (arActorType r)) \<and> wanted (qfActorId f) (arActorId r)
     \<and> wanted (qfTenantId f) (arTenantId r)
     \<and> (case qfFromSeq f of None \<Rightarrow> True | Some n \<Rightarrow> n \<le> arSeq r)
     \<and> (case qfToSeq f of None \<Rightarrow> True | Some n \<Rightarrow> arSeq r \<le> n)
     \<and> (case qfFromCreatedAt f of None \<Rightarrow> True | Some t \<Rightarrow> t = '''' \<or> timestamp_le (toDbTimestamp pl t) (arCreatedAt r))
     \<and> (case qfToCreatedAt f of None \<Rightarrow> True | Some t \<Rightarrow> t = '''' \<or> timestamp_le (arCreatedAt r) (toDbTimestamp pl t))
     \<and> (case qfCursor f of None \<Rightarrow> True | Some n \<Rightarrow> n < arSeq r)"

definition query_limit :: "query_filters \<Rightarrow> nat" where
  "query_limit f = (case qfLimit f of None \<Rightarrow> 100 | Some n \<Rightarrow> n)"

definition query_all :: "platform \<Rightarrow> query_filters \<Rightarrow> lucid_db \<Rightarrow> audit_row list" where
  "query_all pl f db = sort_key arSeq (filter (query_matches pl f) (auRows db))"

definition query_rows :: "platform \<Rightarrow> query_filters \<Rightarrow> lucid_db \<Rightarrow> audit_row list" where
  "query_rows pl f db = take (query_limit f) (query_all pl f db)"

definition lucid_query :: "platform \<Rightarrow> query_filters \<Rightarrow> lucid_db \<Rightarrow> chained_event list result" where
  "lucid_query pl f db = mapR (read_event pl) (query_rows pl f db)"

lemma query_all_live:
  assumes "qfStream f = Some s" "s \<noteq> ''''"
  shows "query_all pl f db = filter (query_matches pl f) (live db s)"
proof -
  have "query_matches pl f r \<Longrightarrow> arStream r = s" for r using assms by (auto simp: query_matches_def wanted_def)
  then have "filter (query_matches pl f) (auRows db) = filter (query_matches pl f) (filter (\<lambda>r. arStream r = s) (auRows db))"
    by (auto simp: filter_filter intro!: filter_cong)
  then show ?thesis by (simp add: query_all_def live_def filter_sort)
qed

lemma query_cursor:
  assumes "case qfCursor f of None \<Rightarrow> True | Some m \<Rightarrow> m \<le> n"
  shows "query_matches pl (f\<lparr>qfCursor := Some n\<rparr>) r \<longleftrightarrow> query_matches pl f r \<and> n < arSeq r"
  using assms by (auto simp: query_matches_def split: option.splits)


definition stream_query :: query_filters where
  "stream_query = \<lparr>qfStream = Some ''s'', qfEvent = None, qfAuditableType = None, qfAuditableId = None, qfActorType = None,
     qfActorId = None, qfTenantId = None, qfFromSeq = None, qfToSeq = None, qfFromCreatedAt = None, qfToCreatedAt = None,
     qfLimit = Some 1, qfCursor = None\<rparr>"

definition plain_row :: "string \<Rightarrow> string \<Rightarrow> int \<Rightarrow> audit_row" where
  "plain_row i s n =
     \<lparr>arId = i, arSeq = n, arStream = s, arEvent = ''created'', arAuditableType = None, arAuditableId = None,
      arOldValues = JNull, arNewValues = JNull, arMetadata = JNull, arActorType = ''user'', arActorId = None,
      arActorLabel = None, arTenantId = None, arRequestId = None, arCorrelationId = None, arIpAddress = None,
      arUserAgent = None, arUrl = None, arHttpMethod = None, arTags = JStr ''[]'', arSchemaVersion = ''1'',
      arHash = '''', arPrevHash = '''', arCreatedAt = JStr epoch\<rparr>"


text \<open>
  Across streams the cursor skips rows: sequence numbers are per stream, and of two rows with number 1
  a page of one row returns the first, and the page behind its cursor nothing.
\<close>

theorem cursor_skips_streams:
  "let db = empty_db\<lparr>auRows := [plain_row ''a'' ''s'' 1, plain_row ''b'' ''t'' 1]\<rparr>; f = stream_query\<lparr>qfStream := None\<rparr> in
   map arId (query_rows sample_platform f db) = [''a''] \<and> query_rows sample_platform (f\<lparr>qfCursor := Some 1\<rparr>) db = []"
  by (simp add: Let_def query_rows_def query_all_def query_limit_def query_matches_def wanted_def wanted_event_def stream_query_def plain_row_def)

end
