(* ===== verification/LucidPrune.thy ===== *)
theory LucidPrune
  imports LucidVerify
begin

text \<open>
  \<open>LucidStore.prune\<close>: the oldest rows of a stream that share one event and have expired go to the
  archive, then, in a transaction, out of the live table, with a checkpoint where they ended. The
  order in which the streams come is the database's (a \<open>GROUP BY\<close> without an order) and a
  parameter. Event names are taken not to be members of \<open>Object.prototype\<close>.
\<close>

section \<open>Selecting the rows\<close>

record prune_policy =
  ppRetention :: retention_policy
  ppDryRun :: bool
  ppArchive :: "(retention_segment \<Rightarrow> audit_error option) option"
  ppEventFilter :: "string option"

text \<open>The time, the configured maintenance operation, and what may fail.\<close>

record prune_env =
  peNow :: int
  peMaintenance :: "(string \<Rightarrow> audit_error option) option"
  peInsert :: "string \<Rightarrow> audit_error option"

definition event_duration :: "retention_policy \<Rightarrow> string \<Rightarrow> string" where
  "event_duration p ev =
     (case (case retentionPerEvent p of None \<Rightarrow> None | Some m \<Rightarrow> map_of m ev) of
        None \<Rightarrow> retentionDefault p | Some d \<Rightarrow> d)"

text \<open>\<open>new Date(t).toISOString()\<close>, which throws outside the range of time values.\<close>

definition iso_of :: "int \<Rightarrow> string result" where
  "iso_of t = (if \<bar>t\<bar> \<le> 8640000000000000 then Inr (toISOString t) else Inl (JsError ''Invalid time value''))"

definition cutoff_of :: "retention_policy \<Rightarrow> int \<Rightarrow> string \<Rightarrow> string result" where
  "cutoff_of p now ev = rbind (parseDuration (event_duration p ev)) (\<lambda>ms. iso_of (now - ms))"

definition filtered_out :: "prune_policy \<Rightarrow> string \<Rightarrow> bool" where
  "filtered_out policy ev \<longleftrightarrow> (case ppEventFilter policy of None \<Rightarrow> False | Some f \<Rightarrow> ev \<noteq> f)"

fun prune_candidates :: "platform \<Rightarrow> prune_policy \<Rightarrow> int \<Rightarrow> string \<Rightarrow> audit_row list \<Rightarrow> audit_row list result" where
  "prune_candidates pl policy now ev [] = Inr []"
| "prune_candidates pl policy now ev (r # rs) =
     (if arEvent r \<noteq> ev \<or> filtered_out policy (arEvent r) then Inr []
      else rbind (cutoff_of (ppRetention policy) now (arEvent r)) (\<lambda>cutoff.
        if cutoff \<le> toIsoString pl (arCreatedAt r) then Inr []
        else rmap ((#) r) (prune_candidates pl policy now ev rs)))"

section \<open>Archiving and deleting\<close>

definition segment_of :: "platform \<Rightarrow> string \<Rightarrow> string \<Rightarrow> audit_row list \<Rightarrow> retention_segment" where
  "segment_of pl s ev cands =
     \<lparr>idempotencyKey = s @ '':'' @ int_str (arSeq (hd cands)) @ '':'' @ int_str (arSeq (last cands)),
      segmentEvent = ev, segmentStream = s, segmentFrom = arSeq (hd cands), segmentTo = arSeq (last cands),
      segmentCount = length cands, segmentFromCreatedAt = toIsoString pl (arCreatedAt (hd cands)),
      segmentToCreatedAt = toIsoString pl (arCreatedAt (last cands))\<rparr>"

definition same_row :: "audit_row \<Rightarrow> archived \<Rightarrow> bool" where
  "same_row r a \<longleftrightarrow> arStream r = avStream a \<and> arSeq r = avSeq a \<and> arHash r = avHash a \<and> arPrevHash r = avPrevHash a"

fun check_archived :: "audit_row list \<Rightarrow> archived list \<Rightarrow> unit result" where
  "check_archived cands [] = Inr ()"
| "check_archived cands (a # as) =
     (case map_of (map (\<lambda>r. (arId r, r)) cands) (avId a) of
        Some r \<Rightarrow> if same_row r a then check_archived cands as
          else Inl (JsError (''Archived audit event '' @ avId a @ '' conflicts with the live audit event''))
      | None \<Rightarrow> Inl (JsError (''Archived audit event '' @ avId a @ '' conflicts with the live audit event'')))"

definition archived_of :: "audit_row \<Rightarrow> archived" where
  "archived_of r = \<lparr>avId = arId r, avStream = arStream r, avSeq = arSeq r, avHash = arHash r, avPrevHash = arPrevHash r,
     avCreatedAt = arCreatedAt r\<rparr>"

definition archive_keys :: "archived list \<Rightarrow> bool" where
  "archive_keys as \<longleftrightarrow> distinct (map avId as) \<and> distinct (map (\<lambda>a. (avStream a, avSeq a)) as)"

definition archive_segment ::
  "platform \<Rightarrow> prune_env \<Rightarrow> prune_policy \<Rightarrow> string \<Rightarrow> string \<Rightarrow> audit_row list \<Rightarrow> lucid_db \<Rightarrow> unit result \<times> lucid_db" where
  "archive_segment pl pe policy s ev cands db =
     (let ids = arId ` set cands;
          archivedRows = filter (\<lambda>a. avId a \<in> ids) (auArchive db);
          archivedIds = avId ` set archivedRows;
          missing = map archived_of (filter (\<lambda>r. arId r \<notin> archivedIds) cands);
          all = auArchive db @ missing in
      case check_archived cands archivedRows of
        Inl e \<Rightarrow> (Inl e, db)
      | Inr _ \<Rightarrow>
          if card archivedIds = length cands then (Inr (), db)
          else case (case ppArchive policy of None \<Rightarrow> None | Some f \<Rightarrow> f (segment_of pl s ev cands)) of
            Some e \<Rightarrow> (Inl e, db)
          | None \<Rightarrow>
              (case peInsert pe s of
                 Some e \<Rightarrow> (Inl e, db)
               | None \<Rightarrow> if archive_keys all then (Inr (), db\<lparr>auArchive := all\<rparr>)
                   else (Inl (JsError ''UNIQUE constraint failed''), db)))"

definition checkpoint_of :: "string \<Rightarrow> audit_row \<Rightarrow> checkpoint" where
  "checkpoint_of s r = \<lparr>cpStream = s, cpSeq = arSeq r, cpHash = arHash r, cpCreatedAt = arCreatedAt r\<rparr>"

definition delete_segment ::
  "platform \<Rightarrow> lucid_env \<Rightarrow> (string \<Rightarrow> audit_error option) \<Rightarrow> string \<Rightarrow> audit_row list \<Rightarrow> lucid_db \<Rightarrow> unit result \<times> lucid_db" where
  "delete_segment pl env maintenance s cands db =
     (let checkpoint = checkpoint_of s (last cands) in
      case rbind (acquireLock pl env s) (\<lambda>_.
           case maintenance s of Some e \<Rightarrow> Inl e | None \<Rightarrow>
           if (s, arSeq (last cands)) \<in> (\<lambda>c. (cpStream c, cpSeq c)) ` set (auCheckpoints db)
           then Inl (JsError ''UNIQUE constraint failed'')
           else case leFailure env s of Some e \<Rightarrow> Inl e | None \<Rightarrow>
             Inr (db\<lparr>auRows := filter (\<lambda>r. arId r \<notin> arId ` set cands) (auRows db),
                     auCheckpoints := auCheckpoints db @ [checkpoint]\<rparr>)) of
        Inl e \<Rightarrow> (Inl e, db)
      | Inr db' \<Rightarrow> (Inr (), db'))"

section \<open>The whole operation\<close>

definition prune_stream ::
  "platform \<Rightarrow> lucid_env \<Rightarrow> prune_env \<Rightarrow> prune_policy \<Rightarrow> string \<Rightarrow> lucid_db \<Rightarrow> (string \<times> nat) option result \<times> lucid_db" where
  "prune_stream pl env pe policy s db =
     (let rows = live db s; ev = arEvent (hd rows) in
      if length rows < 2 \<or> filtered_out policy ev then (Inr None, db)
      else case prune_candidates pl policy (peNow pe) ev (butlast rows) of
        Inl e \<Rightarrow> (Inl e, db)
      | Inr cands \<Rightarrow>
          if cands = [] then (Inr None, db)
          else if ppDryRun policy then (Inr (Some (ev, length cands)), db)
          else case peMaintenance pe of
            None \<Rightarrow> (Inl (JsError ''Physical audit pruning requires a LucidStore maintenance operation configured for this store''), db)
          | Some maintenance \<Rightarrow>
              sbind (archive_segment pl pe policy s ev cands db) (\<lambda>_ db.
              sbind (delete_segment pl env maintenance s cands db) (\<lambda>_ db. (Inr (Some (ev, length cands)), db))))"

fun prune_streams ::
  "platform \<Rightarrow> lucid_env \<Rightarrow> prune_env \<Rightarrow> prune_policy \<Rightarrow> string list \<Rightarrow> lucid_db \<Rightarrow> (string \<times> (string \<times> nat) option) list result \<times> lucid_db" where
  "prune_streams pl env pe policy [] db = (Inr [], db)"
| "prune_streams pl env pe policy (s # ss) db =
     sbind (prune_stream pl env pe policy s db) (\<lambda>r db.
     sbind (prune_streams pl env pe policy ss db) (\<lambda>rs db. (Inr ((s, r) # rs), db)))"

definition count_event :: "(string \<times> nat) list \<Rightarrow> string \<times> nat \<Rightarrow> (string \<times> nat) list" where
  "count_event m p = AList.update (fst p) ((case map_of m (fst p) of None \<Rightarrow> 0 | Some k \<Rightarrow> k) + snd p) m"

definition prune_report_of :: "(string \<times> (string \<times> nat) option) list \<Rightarrow> prune_report" where
  "prune_report_of rs =
     (let pruned = filter (\<lambda>(s, r). r \<noteq> None) rs; counts = map (\<lambda>(s, r). the r) pruned in
      \<lparr>prunedStreams = map fst pruned, totalPruned = sum_list (map snd counts), perEventCounts = foldl count_event [] counts\<rparr>)"

definition lucid_prune ::
  "platform \<Rightarrow> lucid_env \<Rightarrow> prune_env \<Rightarrow> prune_policy \<Rightarrow> string list \<Rightarrow> lucid_db \<Rightarrow> prune_report result \<times> lucid_db" where
  "lucid_prune pl env pe policy ss db =
     sbind (prune_streams pl env pe policy ss db) (\<lambda>rs db. (Inr (prune_report_of rs), db))"

section \<open>What is selected\<close>

definition expired :: "platform \<Rightarrow> prune_policy \<Rightarrow> int \<Rightarrow> string \<Rightarrow> audit_row \<Rightarrow> bool" where
  "expired pl policy now ev r \<longleftrightarrow>
     arEvent r = ev \<and> \<not> filtered_out policy ev
     \<and> (case cutoff_of (ppRetention policy) now ev of Inr cutoff \<Rightarrow> toIsoString pl (arCreatedAt r) < cutoff | Inl e \<Rightarrow> False)"

lemma candidates_expired:
  "prune_candidates pl policy now ev rows = Inr cands \<Longrightarrow> prefix cands rows \<and> list_all (expired pl policy now ev) cands"
  by (induction rows arbitrary: cands) (auto simp: result_iff expired_def not_le split: if_splits)

lemma prune_selection:
  assumes "prune_candidates pl policy now ev (butlast rows) = Inr cands" "\<not> length rows < 2"
  obtains rest where "rows = cands @ rest" "rest \<noteq> []"
proof -
  have "prefix cands (butlast rows)" using candidates_expired [OF assms(1)] by blast
  then obtain zs where "butlast rows = cands @ zs" by (rule prefixE)
  then have "rows = cands @ zs @ [last rows]" using append_butlast_last_id [of rows] assms(2) by (cases rows) auto
  then show ?thesis by (rule that) simp
qed

section \<open>Deleting keeps the chains\<close>

lemma live_delete:
  "live (db\<lparr>auRows := filter P (auRows db), auCheckpoints := cps\<rparr>) s = filter P (live db s)"
  by (simp add: live_def filter_sort filter_filter conj_commute)

lemma sort_key_last:
  assumes "x \<in> set xs" "\<And>y. y \<in> set xs \<Longrightarrow> y \<noteq> x \<Longrightarrow> f y < (f x :: int)"
  shows "\<exists>ys. rev (sort_key f xs) = x # ys"
proof -
  have st: "set (sort_key f xs) = set xs" by simp
  obtain ys y where y: "sort_key f xs = ys @ [y]" using assms(1) st by (cases "sort_key f xs" rule: rev_cases) auto
  have "x \<in> set (ys @ [y])" "y \<in> set xs" using assms(1) st unfolding y by auto
  moreover have "sorted (map f (ys @ [y]))" using sorted_sort_key [of f xs] y by simp
  ultimately have "f x \<le> f y" by (auto simp: sorted_append)
  then have "y = x" using assms(2) [OF \<open>y \<in> set xs\<close>] by fastforce
  then show ?thesis using y by simp
qed

definition covers :: "lucid_db \<Rightarrow> audit_row list \<Rightarrow> bool" where
  "covers db cands \<longleftrightarrow> (\<forall>r \<in> set cands. \<exists>a \<in> set (auArchive db). avId a = arId r \<and> same_row r a)"

lemma delete_segment_Inr:
  "delete_segment pl env m s cands db = (Inr u, db') \<Longrightarrow>
     db' = db\<lparr>auRows := filter (\<lambda>r. arId r \<notin> arId ` set cands) (auRows db), auCheckpoints := auCheckpoints db @ [checkpoint_of s (last cands)]\<rparr>
     \<and> (s, arSeq (last cands)) \<notin> (\<lambda>c. (cpStream c, cpSeq c)) ` set (auCheckpoints db)"
  by (auto simp: delete_segment_def Let_def result_iff split: sum.splits option.splits if_splits)

lemma delete_segment_Inl: "delete_segment pl env m s cands db = (Inl e, db') \<Longrightarrow> db' = db"
  by (auto simp: delete_segment_def Let_def split: sum.splits)

lemma deleted_live:
  assumes "lucid_inv H pl db" "live db s = cands @ rest" "delete_segment pl env m s cands db = (Inr u, db')"
  shows "live db' s = rest" "t \<noteq> s \<Longrightarrow> live db' t = live db t"
proof -
  note d = conjunct1 [OF delete_segment_Inr [OF assms(3)]]
  have c: "r \<in> set (auRows db)" "arStream r = s" if "r \<in> set (cands @ rest)" for r
    using that unfolding assms(2) [symmetric] by simp_all
  have inj: "inj_on arId (set (auRows db))" "distinct (live db s)"
    using assms(1) by (auto simp: lucid_inv_def distinct_map live_def)
  have dj: "set cands \<inter> set rest = {}" using inj(2) assms(2) by simp
  have "arId r \<in> arId ` set cands \<longleftrightarrow> r \<in> set cands" if "r \<in> set (auRows db)" for r
    using inj_on_image_mem_iff [OF inj(1) that, of "set cands"] c by auto
  then have f: "filter (\<lambda>r. arId r \<notin> arId ` set cands) rs = filter (\<lambda>r. r \<notin> set cands) rs" if "set rs \<subseteq> set (auRows db)" for rs
    using that by (intro filter_cong) auto
  have "filter (\<lambda>r. r \<notin> set cands) (cands @ rest) = rest" using dj by (auto simp: filter_id_conv filter_empty_conv)
  moreover have "set (live db s) \<subseteq> set (auRows db)" by auto
  ultimately show "live db' s = rest" using f [of "live db s"] unfolding d live_delete assms(2) by simp
  show "live db' t = live db t" if "t \<noteq> s"
  proof -
    have "filter (\<lambda>r. r \<notin> set cands) (live db t) = live db t" using c that by (auto simp: filter_id_conv)
    moreover have "set (live db t) \<subseteq> set (auRows db)" by auto
    ultimately show ?thesis using f [of "live db t"] unfolding d live_delete by simp
  qed
qed

lemma delete_inv:
  assumes "lucid_inv H pl db" "live db s = cands @ rest" "cands \<noteq> []" "rest \<noteq> []"
    "delete_segment pl env m s cands db = (Inr u, db')"
  shows "lucid_inv H pl db'"
proof -
  let ?to = "last cands"
  have d: "db' = db\<lparr>auRows := filter (\<lambda>r. arId r \<notin> arId ` set cands) (auRows db), auCheckpoints := auCheckpoints db @ [checkpoint_of s ?to]\<rparr>"
    and fresh: "(s, arSeq ?to) \<notin> (\<lambda>c. (cpStream c, cpSeq c)) ` set (auCheckpoints db)"
    using delete_segment_Inr [OF assms(5)] by simp_all
  note lv = deleted_live [OF assms(1,2,5)]
  obtain n p where b: "base_point db s = (n, p)" by fastforce
  have ch: "chained_stream H pl db s" using assms(1) by (simp add: lucid_inv_def)
  obtain evs where evs: "mapR (read_event pl) (live db s) = Inr evs" "linked_from H (n + 1) p evs"
    "map arSeq (live db s) = map (\<lambda>i. n + 1 + int i) [0..<length (live db s)]"
    by (rule chained_live [OF ch b])
  obtain us vs where uv: "mapR (read_event pl) cands = Inr us" "mapR (read_event pl) rest = Inr vs"
    "linked_from H (n + int (length cands) + 1) (end_hash p us) vs"
    using split_reads [OF evs(1) [unfolded assms(2)] evs(2)] by blast
  have nth: "arSeq (live db s ! i) = n + 1 + int i" if "i < length (live db s)" for i
    using arg_cong [OF evs(3), of "\<lambda>xs. xs ! i"] that by simp
  have ln: "length cands - 1 < length (live db s)" "length cands < length (live db s)" "0 < length cands"
    using assms(2,3,4) by (cases cands; cases rest; simp)+
  have to: "arSeq ?to = n + int (length cands)" "arSeq (hd rest) = n + int (length cands) + 1"
    using nth [OF ln(1)] nth [OF ln(2)] assms(2,3,4) ln(3)
    by (simp_all add: nth_append last_conv_nth hd_conv_nth of_nat_diff Suc_leI)
  have eh: "end_hash p us = arHash ?to" by (rule end_of_reads [OF uv(1) assms(3)])
  let ?cps = "filter (\<lambda>c. cpStream c = s \<and> cpSeq c < arSeq (hd rest)) (auCheckpoints db')"
  have "\<exists>ys. rev (sort_key cpSeq ?cps) = checkpoint_of s ?to # ys"
  proof (rule sort_key_last)
    show "checkpoint_of s ?to \<in> set ?cps" using to by (simp add: d checkpoint_of_def)
    fix c assume c: "c \<in> set ?cps" "c \<noteq> checkpoint_of s ?to"
    then have "c \<in> set (auCheckpoints db)" "cpStream c = s" "cpSeq c \<le> arSeq ?to" using to by (auto simp: d split: if_splits)
    moreover from this have "cpSeq c \<noteq> arSeq ?to" using fresh by force
    ultimately show "cpSeq c < cpSeq (checkpoint_of s ?to)" by (simp add: checkpoint_of_def)
  qed
  then have "base_point db' s = (arSeq ?to, arHash ?to)"
    using lv(1) assms(4) by (cases rest) (auto simp: base_point_def checkpoint_of_def)
  then have "chained_stream H pl db' s" using uv(2,3) lv(1) to(1) eh by (simp add: chained_stream_def)
  moreover have "chained_stream H pl db' t" if "t \<noteq> s" for t
  proof -
    have "filter (\<lambda>c. cpStream c = t \<and> cpSeq c < k) (auCheckpoints db') = filter (\<lambda>c. cpStream c = t \<and> cpSeq c < k) (auCheckpoints db)" for k
      using that by (simp add: d checkpoint_of_def)
    then have "base_point db' t = base_point db t" unfolding base_point_def lv(2) [OF that] by (simp only:)
    then show ?thesis using assms(1) lv(2) [OF that] by (simp add: lucid_inv_def chained_stream_def)
  qed
  moreover have "1 \<le> arSeq ?to"
  proof -
    have "?to \<in> set (live db s)" unfolding assms(2) using assms(3) by simp
    then show ?thesis by (rule live_positive [OF assms(1)])
  qed
  moreover have "auRows db' = filter (\<lambda>r. arId r \<notin> arId ` set cands) (auRows db)"
    "auCheckpoints db' = auCheckpoints db @ [checkpoint_of s ?to]" by (simp_all add: d)
  moreover from calculation have "\<forall>t. chained_stream H pl db' t" by metis
  ultimately show ?thesis using assms(1)
    unfolding lucid_inv_def by (simp add: checkpoint_of_def distinct_map_filter)
qed

section \<open>Every number stays resolvable\<close>

lemma resolve_live:
  assumes "distinct (map row_key (auRows db))" "r \<in> set (auRows db)"
  shows "resolveSequenceHash db (arStream r) (arSeq r) = Some (arHash r)"
proof -
  let ?fs = "filter (\<lambda>x. arStream x = arStream r \<and> arSeq x = arSeq r) (auRows db)"
  obtain x xs where x: "?fs = x # xs" using assms(2) by (cases ?fs) (auto simp: filter_empty_conv)
  then have "x \<in> set ?fs" by simp
  then have "row_key x = row_key r" "x \<in> set (auRows db)" by (simp_all add: row_key_def)
  then have "x = r" using assms by (auto simp: distinct_map inj_on_def)
  then show ?thesis using x by (simp add: resolveSequenceHash_def)
qed

definition unkept :: "lucid_db \<Rightarrow> string \<Rightarrow> int \<Rightarrow> bool" where
  "unkept db s n \<longleftrightarrow> filter (\<lambda>r. arStream r = s \<and> arSeq r = n) (auRows db) = []"

lemma resolve_unkept:
  "unkept db s n \<Longrightarrow> resolveSequenceHash db s n =
     (case filter (\<lambda>a. avStream a = s \<and> avSeq a = n) (auArchive db) of a # as \<Rightarrow> Some (avHash a)
      | [] \<Rightarrow> (case filter (\<lambda>c. cpStream c = s \<and> cpSeq c = n) (auCheckpoints db) of c # cs \<Rightarrow> Some (cpHash c) | [] \<Rightarrow> None))"
  by (simp add: unkept_def resolveSequenceHash_def)

lemma resolve_archived:
  assumes "archive_keys (auArchive db)" "a \<in> set (auArchive db)" "unkept db (avStream a) (avSeq a)"
  shows "resolveSequenceHash db (avStream a) (avSeq a) = Some (avHash a)"
proof -
  let ?fs = "filter (\<lambda>x. avStream x = avStream a \<and> avSeq x = avSeq a) (auArchive db)"
  obtain x xs where x: "?fs = x # xs" using assms(2) by (cases ?fs) (auto simp: filter_empty_conv)
  then have "x \<in> set ?fs" by simp
  then have "x = a" using assms(1,2) by (auto simp: archive_keys_def distinct_map inj_on_def)
  then show ?thesis using x resolve_unkept [OF assms(3)] by simp
qed

text \<open>What a step of pruning keeps.\<close>

definition prunes :: "(string \<Rightarrow> string) \<Rightarrow> platform \<Rightarrow> lucid_db \<Rightarrow> lucid_db \<Rightarrow> bool" where
  "prunes H pl db db' \<longleftrightarrow>
     lucid_inv H pl db' \<and> archive_keys (auArchive db')
     \<and> (\<forall>s. suffix (live db' s) (live db s) \<and> (live db s \<noteq> [] \<longrightarrow> live db' s \<noteq> []))
     \<and> (\<forall>s n h. resolveSequenceHash db s n = Some h \<longrightarrow> resolveSequenceHash db' s n = Some h)"

lemma prunes_refl: "lucid_inv H pl db \<Longrightarrow> archive_keys (auArchive db) \<Longrightarrow> prunes H pl db db"
  by (simp add: prunes_def)

lemma prunes_trans: "prunes H pl db db' \<Longrightarrow> prunes H pl db' db'' \<Longrightarrow> prunes H pl db db''"
  unfolding prunes_def using suffix_order.trans by blast

lemma lucid_inv_archive [simp]: "lucid_inv H pl (db\<lparr>auArchive := as\<rparr>) = lucid_inv H pl db"
proof -
  have l: "live (db\<lparr>auArchive := as\<rparr>) s = live db s" for s by (simp add: live_def)
  then have "base_point (db\<lparr>auArchive := as\<rparr>) s = base_point db s" for s by (intro base_point_same) simp_all
  then show ?thesis by (simp add: lucid_inv_def chained_stream_def l)
qed

lemma check_archived_same:
  assumes "check_archived cands as = Inr ()" "a \<in> set as"
  shows "\<exists>r \<in> set cands. arId r = avId a \<and> same_row r a"
  using assms
proof (induction as)
  case (Cons b as)
  obtain r where r: "map_of (map (\<lambda>r. (arId r, r)) cands) (avId b) = Some r" "same_row r b" "check_archived cands as = Inr ()"
    using Cons.prems(1) by (auto split: option.splits if_splits)
  have "r \<in> set cands" "arId r = avId b" using map_of_SomeD [OF r(1)] by auto
  then show ?case using Cons.IH r Cons.prems(2) by auto
qed simp

lemma archive_segment_cases:
  assumes "archive_segment pl pe policy s ev cands db = (res, db')"
  shows "(\<exists>e. res = Inl e) \<and> db' = db
    \<or> check_archived cands (filter (\<lambda>a. avId a \<in> arId ` set cands) (auArchive db)) = Inr () \<and> res = Inr ()
      \<and> (card (avId ` set (filter (\<lambda>a. avId a \<in> arId ` set cands) (auArchive db))) = length cands \<and> db' = db
        \<or> (let all = auArchive db @ map archived_of (filter (\<lambda>r. arId r \<notin> avId ` set (filter (\<lambda>a. avId a \<in> arId ` set cands) (auArchive db))) cands)
           in archive_keys all \<and> db' = db\<lparr>auArchive := all\<rparr>))"
proof -
  define rows where "rows = filter (\<lambda>a. avId a \<in> arId ` set cands) (auArchive db)"
  define missing where "missing = map archived_of (filter (\<lambda>r. arId r \<notin> avId ` set rows) cands)"
  have "(\<exists>e. res = Inl e) \<and> db' = db \<or> check_archived cands rows = Inr () \<and> res = Inr ()
      \<and> (card (avId ` set rows) = length cands \<and> db' = db
        \<or> archive_keys (auArchive db @ missing) \<and> db' = db\<lparr>auArchive := auArchive db @ missing\<rparr>)"
  proof (cases "check_archived cands rows")
    case (Inl e)
    then have "res = Inl e \<and> db' = db" using assms unfolding archive_segment_def Let_def rows_def [symmetric] by auto
    then show ?thesis by blast
  next
    case (Inr u)
    then show ?thesis using assms unfolding archive_segment_def Let_def rows_def [symmetric] missing_def [symmetric]
      by (auto split: option.splits if_splits)
  qed
  then show ?thesis unfolding Let_def missing_def rows_def .
qed

lemma archive_step:
  assumes "lucid_inv H pl db" "archive_keys (auArchive db)" "live db s = cands @ rest"
    "archive_segment pl pe policy s ev cands db = (res, db')"
  shows "prunes H pl db db'" "res = Inr u \<Longrightarrow> covers db' cands" "live db' t = live db t"
proof -
  let ?rows = "filter (\<lambda>a. avId a \<in> arId ` set cands) (auArchive db)"
  let ?missing = "map archived_of (filter (\<lambda>r. arId r \<notin> avId ` set ?rows) cands)"
  note outcome = archive_segment_cases [OF assms(4), unfolded Let_def]
  have cases: "db' = db \<or> db' = db\<lparr>auArchive := auArchive db @ ?missing\<rparr> \<and> archive_keys (auArchive db @ ?missing)"
    using outcome by blast
  show lv: "live db' t = live db t" for t using cases by (auto simp: live_def)
  have c: "r \<in> set (auRows db)" "arStream r = s" if "r \<in> set cands" for r
  proof -
    have "r \<in> set (live db s)" unfolding assms(3) using that by simp
    then show "r \<in> set (auRows db)" "arStream r = s" by simp_all
  qed
  have "resolveSequenceHash (db\<lparr>auArchive := auArchive db @ ?missing\<rparr>) t n = Some h"
    if h: "resolveSequenceHash db t n = Some h" for t n h
  proof (cases "unkept db t n")
    case False
    then show ?thesis using h by (cases "filter (\<lambda>r. arStream r = t \<and> arSeq r = n) (auRows db)") (simp_all add: unkept_def resolveSequenceHash_def)
  next
    case True
    have no: "filter (\<lambda>a. avStream a = t \<and> avSeq a = n) ?missing = []"
      using True c by (auto simp: filter_empty_conv archived_of_def unkept_def)
    have True': "unkept (db\<lparr>auArchive := auArchive db @ ?missing\<rparr>) t n" using True by (simp add: unkept_def)
    have sel: "auArchive (db\<lparr>auArchive := as\<rparr>) = as" for as by simp
    have "filter (\<lambda>a. avStream a = t \<and> avSeq a = n) (auArchive (db\<lparr>auArchive := auArchive db @ ?missing\<rparr>))
        = filter (\<lambda>a. avStream a = t \<and> avSeq a = n) (auArchive db)" unfolding sel filter_append no by (rule append_Nil2)
    moreover have "auCheckpoints (db\<lparr>auArchive := auArchive db @ ?missing\<rparr>) = auCheckpoints db" by simp
    ultimately show ?thesis using h unfolding resolve_unkept [OF True] resolve_unkept [OF True'] by (simp only:)
  qed
  then show "prunes H pl db db'" using cases assms(1,2) lv by (auto simp: prunes_def)
  assume "res = Inr u"
  then have ok: "check_archived cands ?rows = Inr ()"
    and fin: "card (avId ` set ?rows) = length cands \<and> db' = db \<or> db' = db\<lparr>auArchive := auArchive db @ ?missing\<rparr>"
    using outcome by blast+
  have dist: "distinct (map arId cands)"
  proof -
    have "distinct (map arId (live db s))" using assms(1) by (auto simp: lucid_inv_def live_def distinct_map intro: inj_on_subset)
    then show ?thesis unfolding assms(3) by simp
  qed
  have old: "\<exists>a \<in> set (auArchive db). avId a = arId r \<and> same_row r a" if r: "r \<in> set cands" "arId r \<in> avId ` set ?rows" for r
  proof -
    obtain a where a: "a \<in> set ?rows" "avId a = arId r" using r(2) by auto
    obtain q where q: "q \<in> set cands" "arId q = avId a" "same_row q a" using check_archived_same [OF ok a(1)] by blast
    then have "q = r" using dist a(2) r(1) by (simp add: distinct_map inj_on_def)
    then show ?thesis using a q by auto
  qed
  show "covers db' cands"
  proof (cases "db' = db \<and> card (avId ` set ?rows) = length cands")
    case True
    have "card (arId ` set cands) = length cands" using dist by (metis distinct_card length_map list.set_map)
    moreover have "avId ` set ?rows \<subseteq> arId ` set cands" by auto
    ultimately have "avId ` set ?rows = arId ` set cands" using True by (intro card_subset_eq) simp_all
    then show ?thesis using old True by (auto simp: covers_def)
  next
    case False
    then have d: "db' = db\<lparr>auArchive := auArchive db @ ?missing\<rparr>" using fin by blast
    have "\<exists>a \<in> set (auArchive db'). avId a = arId r \<and> same_row r a" if r: "r \<in> set cands" for r
    proof (cases "arId r \<in> avId ` set ?rows")
      case True
      then show ?thesis using old [OF r] d by auto
    next
      case False
      then have "archived_of r \<in> set ?missing" using r by simp
      then show ?thesis unfolding d by (intro bexI [of _ "archived_of r"]) (simp_all add: archived_of_def same_row_def)
    qed
    then show ?thesis by (simp add: covers_def)
  qed
qed

lemma delete_step:
  assumes "lucid_inv H pl db" "archive_keys (auArchive db)" "live db s = cands @ rest" "cands \<noteq> []" "rest \<noteq> []"
    "covers db cands" "delete_segment pl env m s cands db = (res, db')"
  shows "prunes H pl db db'"
proof (cases res)
  case (Inl e)
  then have "db' = db" using delete_segment_Inl assms(7) by blast
  then show ?thesis using assms(1,2) by (simp add: prunes_refl)
next
  case (Inr u)
  note del = assms(7) [unfolded Inr]
  have d: "db' = db\<lparr>auRows := filter (\<lambda>r. arId r \<notin> arId ` set cands) (auRows db), auCheckpoints := auCheckpoints db @ [checkpoint_of s (last cands)]\<rparr>"
    using delete_segment_Inr [OF del] by simp
  note lv = deleted_live [OF assms(1,3) del]
  have inv: "lucid_inv H pl db'" by (rule delete_inv [OF assms(1,3,4,5) del])
  have keys: "distinct (map row_key (auRows db))" "distinct (map row_key (auRows db'))" "distinct (map arId (auRows db))"
    using assms(1) inv by (simp_all add: lucid_inv_def)
  have live_ok: "suffix (live db' t) (live db t) \<and> (live db t \<noteq> [] \<longrightarrow> live db' t \<noteq> [])" for t
    using lv assms(3,5) by (cases "t = s") (auto simp: suffix_def)
  have "resolveSequenceHash db' t n = Some h" if h: "resolveSequenceHash db t n = Some h" for t n h
  proof (cases "unkept db t n")
    case True
    then have u: "unkept db' t n" by (auto simp: unkept_def d filter_empty_conv)
    have "last cands \<in> set (live db s)" unfolding assms(3) using assms(4) by simp
    then have "\<not> (s = t \<and> arSeq (last cands) = n)" using True by (auto simp: unkept_def filter_empty_conv)
    then have "filter (\<lambda>c. cpStream c = t \<and> cpSeq c = n) (auCheckpoints db') = filter (\<lambda>c. cpStream c = t \<and> cpSeq c = n) (auCheckpoints db)"
      by (auto simp: d checkpoint_of_def)
    moreover have "auArchive db' = auArchive db" by (simp add: d)
    ultimately show ?thesis using h unfolding resolve_unkept [OF True] resolve_unkept [OF u] by (simp only:)
  next
    case False
    then obtain r where r: "r \<in> set (auRows db)" "arStream r = t" "arSeq r = n" by (auto simp: unkept_def filter_empty_conv)
    then have hash: "h = arHash r" using resolve_live [OF keys(1) r(1)] h by simp
    show ?thesis
    proof (cases "r \<in> set (auRows db')")
      case True
      then show ?thesis using resolve_live [OF keys(2) True] r hash by simp
    next
      case gone: False
      then have "arId r \<in> arId ` set cands" using r(1) by (simp add: d)
      then obtain q where q: "q \<in> set cands" "arId q = arId r" by auto
      have "q \<in> set (live db s)" unfolding assms(3) using q(1) by simp
      then have "q = r" using keys(3) q(2) r(1) by (simp add: distinct_map inj_on_def)
      then obtain a where a: "a \<in> set (auArchive db')" "same_row r a" using assms(6) q(1) by (auto simp: covers_def d)
      have "unkept db' t n"
      proof -
        have "x = r" if "x \<in> set (auRows db)" "arStream x = t" "arSeq x = n" for x
          using keys(1) that r by (simp add: distinct_map inj_on_def row_key_def)
        then show ?thesis using gone by (auto simp: unkept_def filter_empty_conv d)
      qed
      then show ?thesis using resolve_archived [of db' a] assms(2) a r hash by (simp add: same_row_def d)
    qed
  qed
  then show ?thesis using inv assms(2) live_ok by (simp add: prunes_def d)
qed

lemma prune_stream_step:
  assumes "lucid_inv H pl db" "archive_keys (auArchive db)" "prune_stream pl env pe policy s db = (res, db')"
  shows "prunes H pl db db'"
proof -
  let ?ev = "arEvent (hd (live db s))"
  have refl: "prunes H pl db db" by (rule prunes_refl [OF assms(1,2)])
  show ?thesis
  proof (cases "length (live db s) < 2 \<or> filtered_out policy ?ev")
    case True
    then have "db' = db" using assms(3) by (simp add: prune_stream_def Let_def)
    then show ?thesis using refl by simp
  next
    case False
    show ?thesis
    proof (cases "prune_candidates pl policy (peNow pe) ?ev (butlast (live db s))")
      case (Inl e)
      then have "db' = db" using False assms(3) by (simp add: prune_stream_def Let_def)
      then show ?thesis using refl by simp
    next
      case (Inr cands)
      show ?thesis
      proof (cases "cands = [] \<or> ppDryRun policy \<or> peMaintenance pe = None")
        case True
        then have "db' = db" using False Inr assms(3) by (auto simp: prune_stream_def Let_def split: if_splits)
        then show ?thesis using refl by simp
      next
        case run: False
        then obtain m where m: "peMaintenance pe = Some m" by auto
        obtain rest where rest: "live db s = cands @ rest" "rest \<noteq> []"
          by (rule prune_selection [OF Inr]) (use False in auto)
        obtain r1 db1 where a: "archive_segment pl pe policy s ?ev cands db = (r1, db1)" by (rule prod.exhaust)
        note st = archive_step [OF assms(1,2) rest(1) a]
        have eq: "prune_stream pl env pe policy s db = sbind (r1, db1) (\<lambda>_ db. sbind (delete_segment pl env m s cands db) (\<lambda>_ db. (Inr (Some (?ev, length cands)), db)))"
          using False Inr run m a by (simp add: prune_stream_def Let_def)
        show ?thesis
        proof (cases r1)
          case (Inl e)
          then show ?thesis using eq assms(3) st(1) by simp
        next
          case ok: (Inr u)
          obtain r2 db2 where de: "delete_segment pl env m s cands db1 = (r2, db2)" by (rule prod.exhaust)
          have "db2 = db'" using eq assms(3) ok de by (cases r2) simp_all
          moreover have "prunes H pl db1 db2"
          proof (rule delete_step)
            show "lucid_inv H pl db1" "archive_keys (auArchive db1)" using st(1) by (simp_all add: prunes_def)
            show "live db1 s = cands @ rest" using st(3) rest(1) by simp
            show "covers db1 cands" by (rule st(2) [OF ok])
          qed (use run rest de in simp_all)
          ultimately show ?thesis using prunes_trans [OF st(1)] by simp
        qed
      qed
    qed
  qed
qed

lemma prune_streams_step:
  assumes "lucid_inv H pl db" "archive_keys (auArchive db)" "prune_streams pl env pe policy ss db = (res, db')"
  shows "prunes H pl db db'"
  using assms
proof (induction ss arbitrary: db res)
  case Nil
  then show ?case by (simp add: prunes_refl)
next
  case (Cons s ss)
  obtain r1 db1 where a: "prune_stream pl env pe policy s db = (r1, db1)" by (rule prod.exhaust)
  note st = prune_stream_step [OF Cons.prems(1,2) a]
  show ?case
  proof (cases r1)
    case (Inl e)
    then show ?thesis using a Cons.prems(3) st by simp
  next
    case (Inr x)
    obtain r2 db2 where b: "prune_streams pl env pe policy ss db1 = (r2, db2)" by (rule prod.exhaust)
    have "db2 = db'" using a b Inr Cons.prems(3) by (cases r2) simp_all
    then show ?thesis using Cons.IH [of db1 r2] st b prunes_trans [OF st] by (simp add: prunes_def)
  qed
qed

section \<open>What one stream's pruning does\<close>

definition prune_plan :: "platform \<Rightarrow> prune_env \<Rightarrow> prune_policy \<Rightarrow> audit_row list \<Rightarrow> (string \<times> nat) option result" where
  "prune_plan pl pe policy rows =
     (let ev = arEvent (hd rows) in
      if length rows < 2 \<or> filtered_out policy ev then Inr None
      else rmap (\<lambda>cands. if cands = [] then None else Some (ev, length cands))
             (prune_candidates pl policy (peNow pe) ev (butlast rows)))"

lemma dry_stream: "ppDryRun policy \<Longrightarrow> prune_stream pl env pe policy s db = (prune_plan pl pe policy (live db s), db)"
  by (cases "prune_candidates pl policy (peNow pe) (arEvent (hd (live db s))) (butlast (live db s))")
    (auto simp: prune_stream_def prune_plan_def Let_def)

lemma filtered_dry [simp]: "filtered_out (policy\<lparr>ppDryRun := b\<rparr>) = filtered_out policy"
  by (simp add: filtered_out_def fun_eq_iff)

lemma candidates_dry: "prune_candidates pl (policy\<lparr>ppDryRun := b\<rparr>) now ev rows = prune_candidates pl policy now ev rows"
  by (induction rows) (simp_all cong: if_cong)

lemma plan_dry: "prune_plan pl pe (policy\<lparr>ppDryRun := b\<rparr>) rows = prune_plan pl pe policy rows"
  by (simp add: prune_plan_def candidates_dry Let_def cong: if_cong)

lemma archive_unchanged: "archive_segment pl pe policy s ev cands db = (res, db') \<Longrightarrow> live db' t = live db t"
  using archive_segment_cases [of pl pe policy s ev cands db res db'] by (auto simp: Let_def live_def)

lemma prune_stream_local:
  assumes "lucid_inv H pl db" "archive_keys (auArchive db)" "prune_stream pl env pe policy s db = (res, db')"
  shows "t \<noteq> s \<Longrightarrow> live db' t = live db t"
    "\<exists>cands. live db s = cands @ live db' s \<and> list_all (expired pl policy (peNow pe) (arEvent (hd (live db s)))) cands"
    "res = Inr r \<Longrightarrow> prune_plan pl pe policy (live db s) = Inr r"
proof -
  let ?ev = "arEvent (hd (live db s))"
  have "(t \<noteq> s \<longrightarrow> live db' t = live db t)
    \<and> (\<exists>cands. live db s = cands @ live db' s \<and> list_all (expired pl policy (peNow pe) ?ev) cands)
    \<and> (res = Inr r \<longrightarrow> prune_plan pl pe policy (live db s) = Inr r)"
  proof (cases "length (live db s) < 2 \<or> filtered_out policy ?ev")
    case True
    then show ?thesis using assms(3) by (auto simp: prune_stream_def prune_plan_def Let_def intro: exI [of _ "[]"])
  next
    case False
    show ?thesis
    proof (cases "prune_candidates pl policy (peNow pe) ?ev (butlast (live db s))")
      case (Inl e)
      then have "db' = db" "res = Inl e" using False assms(3) by (simp_all add: prune_stream_def Let_def)
      then show ?thesis by (auto intro: exI [of _ "[]"])
    next
      case (Inr cands)
      have plan: "prune_plan pl pe policy (live db s) = Inr (if cands = [] then None else Some (?ev, length cands))"
        using False Inr by (simp add: prune_plan_def Let_def)
      show ?thesis
      proof (cases "cands = [] \<or> ppDryRun policy \<or> peMaintenance pe = None")
        case True
        have "db' = db \<and> (res = Inr r \<longrightarrow> r = (if cands = [] then None else Some (?ev, length cands)))"
          using False Inr True assms(3) by (auto simp: prune_stream_def Let_def split: if_splits)
        then show ?thesis using plan by (auto intro: exI [of _ "[]"])
      next
        case run: False
        then obtain m where m: "peMaintenance pe = Some m" by auto
        obtain rest where rest: "live db s = cands @ rest" "rest \<noteq> []"
          by (rule prune_selection [OF Inr]) (use False in auto)
        have exp: "list_all (expired pl policy (peNow pe) ?ev) cands" using candidates_expired [OF Inr] by blast
        obtain r1 db1 where a: "archive_segment pl pe policy s ?ev cands db = (r1, db1)" by (rule prod.exhaust)
        note lv = archive_unchanged [OF a]
        have inv1: "lucid_inv H pl db1" using archive_step(1) [OF assms(1,2) rest(1) a] by (simp add: prunes_def)
        have eq: "prune_stream pl env pe policy s db = sbind (r1, db1) (\<lambda>_ db. sbind (delete_segment pl env m s cands db) (\<lambda>_ db. (Inr (Some (?ev, length cands)), db)))"
          using False Inr run m a by (simp add: prune_stream_def Let_def)
        show ?thesis
        proof (cases r1)
          case (Inl e)
          then have "db' = db1" "res = Inl e" using eq assms(3) by simp_all
          then show ?thesis using lv by (auto intro: exI [of _ "[]"])
        next
          case ok: (Inr u)
          obtain r2 db2 where de: "delete_segment pl env m s cands db1 = (r2, db2)" by (rule prod.exhaust)
          show ?thesis
          proof (cases r2)
            case (Inl e)
            then have "db' = db1" "res = Inl e" using eq assms(3) ok de delete_segment_Inl by auto
            then show ?thesis using lv by (auto intro: exI [of _ "[]"])
          next
            case (Inr v)
            have r: "db' = db2" "res = Inr (Some (?ev, length cands))" using eq assms(3) ok de Inr by simp_all
            have l1: "live db1 s = cands @ rest" using lv rest(1) by simp
            note dl = deleted_live [OF inv1 l1 de [unfolded Inr]]
            show ?thesis using r dl lv rest(1) exp plan run by auto
          qed
        qed
      qed
    qed
  qed
  then show "t \<noteq> s \<Longrightarrow> live db' t = live db t"
    "\<exists>cands. live db s = cands @ live db' s \<and> list_all (expired pl policy (peNow pe) (arEvent (hd (live db s)))) cands"
    "res = Inr r \<Longrightarrow> prune_plan pl pe policy (live db s) = Inr r" by blast+
qed

lemma prune_streams_local:
  assumes "lucid_inv H pl db" "archive_keys (auArchive db)" "prune_streams pl env pe policy ss db = (res, db')" "distinct ss"
  shows "t \<notin> set ss \<Longrightarrow> live db' t = live db t"
    "\<exists>cands. live db t = cands @ live db' t \<and> list_all (expired pl policy (peNow pe) (arEvent (hd (live db t)))) cands"
    "res = Inr rs \<Longrightarrow> rs = map (\<lambda>s. (s, case prune_plan pl pe policy (live db s) of Inr r \<Rightarrow> r | Inl e \<Rightarrow> None)) ss
       \<and> list_all (\<lambda>s. \<exists>r. prune_plan pl pe policy (live db s) = Inr r) ss"
proof -
  have "(t \<notin> set ss \<longrightarrow> live db' t = live db t)
    \<and> (\<exists>cands. live db t = cands @ live db' t \<and> list_all (expired pl policy (peNow pe) (arEvent (hd (live db t)))) cands)
    \<and> (res = Inr rs \<longrightarrow> rs = map (\<lambda>s. (s, case prune_plan pl pe policy (live db s) of Inr r \<Rightarrow> r | Inl e \<Rightarrow> None)) ss
       \<and> list_all (\<lambda>s. \<exists>r. prune_plan pl pe policy (live db s) = Inr r) ss)"
    using assms
  proof (induction ss arbitrary: db res rs)
    case Nil
    then show ?case by (auto intro: exI [of _ "[]"])
  next
    case (Cons s ss)
    obtain r1 db1 where a: "prune_stream pl env pe policy s db = (r1, db1)" by (rule prod.exhaust)
    note lo = prune_stream_local [OF Cons.prems(1,2) a]
    have st: "prunes H pl db db1" by (rule prune_stream_step [OF Cons.prems(1,2) a])
    show ?case
    proof (cases r1)
      case (Inl e)
      then have "db' = db1" "res = Inl e" using a Cons.prems(3) by simp_all
      then have t: "live db' t = live db t" if "t \<noteq> s" using lo(1) that by simp
      have "\<exists>cands. live db t = cands @ live db' t \<and> list_all (expired pl policy (peNow pe) (arEvent (hd (live db t)))) cands"
      proof (cases "t = s")
        case True
        then show ?thesis using lo(2) \<open>db' = db1\<close> by simp
      qed (use t in \<open>intro exI [of _ "[]"], simp\<close>)
      then show ?thesis using t \<open>res = Inl e\<close> by simp
    next
      case (Inr r)
      obtain r2 db2 where b: "prune_streams pl env pe policy ss db1 = (r2, db2)" by (rule prod.exhaust)
      have "(res, db') = sbind (r2, db2) (\<lambda>rs db. (Inr ((s, r) # rs), db))" using Cons.prems(3) a b Inr by (simp only: prune_streams.simps sbind_simps)
      then have e: "db2 = db'" "res = rmap (\<lambda>rs. (s, r) # rs) r2" by (cases r2; simp)+
      have ns: "s \<notin> set ss" "distinct ss" using Cons.prems(4) by simp_all
      have inv: "lucid_inv H pl db1" "archive_keys (auArchive db1)" using st by (simp_all add: prunes_def)
      note IH = Cons.IH [OF inv b [unfolded e(1)] ns(2)]
      have same: "live db1 u = live db u" if "u \<in> set ss" for u using lo(1) [of u] ns(1) that by auto
      have p: "prune_plan pl pe policy (live db s) = Inr r" using lo(3) [OF Inr] .
      have "live db' s = live db1 s" if "t = s" using IH [of undefined] ns(1) that by simp
      then have 2: "\<exists>cands. live db t = cands @ live db' t \<and> list_all (expired pl policy (peNow pe) (arEvent (hd (live db t)))) cands"
        using lo(1) [of t] lo(2) IH [of undefined] by (cases "t = s") (simp only: if_True, simp)
      have 3: "rs = map (\<lambda>s. (s, case prune_plan pl pe policy (live db s) of Inr r \<Rightarrow> r | Inl e \<Rightarrow> None)) (s # ss)
        \<and> list_all (\<lambda>s. \<exists>r. prune_plan pl pe policy (live db s) = Inr r) (s # ss)" if rr: "res = Inr rs"
      proof -
        obtain rs' where rs': "r2 = Inr rs'" "rs = (s, r) # rs'" using e(2) rr by (cases r2) auto
        have "rs' = map (\<lambda>s. (s, case prune_plan pl pe policy (live db1 s) of Inr r \<Rightarrow> r | Inl e \<Rightarrow> None)) ss
          \<and> list_all (\<lambda>s. \<exists>r. prune_plan pl pe policy (live db1 s) = Inr r) ss" using IH [of rs'] rs'(1) by blast
        then show ?thesis using same p rs'(2) by (simp add: list_all_iff)
      qed
      have 1: "live db' t = live db t" if "t \<notin> set (s # ss)" using IH [of undefined] lo(1) [of t] that by simp
      show ?thesis using 1 2 3 by blast
    qed
  qed
  then show "t \<notin> set ss \<Longrightarrow> live db' t = live db t"
    "\<exists>cands. live db t = cands @ live db' t \<and> list_all (expired pl policy (peNow pe) (arEvent (hd (live db t)))) cands"
    "res = Inr rs \<Longrightarrow> rs = map (\<lambda>s. (s, case prune_plan pl pe policy (live db s) of Inr r \<Rightarrow> r | Inl e \<Rightarrow> None)) ss
       \<and> list_all (\<lambda>s. \<exists>r. prune_plan pl pe policy (live db s) = Inr r) ss" by blast+
qed

lemma dry_streams:
  assumes "ppDryRun policy" "list_all (\<lambda>s. \<exists>r. prune_plan pl pe policy (live db s) = Inr r) ss"
  shows "prune_streams pl env pe policy ss db = (Inr (map (\<lambda>s. (s, case prune_plan pl pe policy (live db s) of Inr r \<Rightarrow> r | Inl e \<Rightarrow> None)) ss), db)"
  using assms(2) by (induction ss) (auto simp: dry_stream [OF assms(1)])

section \<open>Properties\<close>

text \<open>
  C29: Pruning, also one that throws half way, keeps what makes the trail verifiable: every stream
  remains a chain from its base point, its head stays the same, what is left of it is an end of
  what it was, and every sequence number that resolved to a digest, in the live table, the archive or
  the checkpoints, still resolves to the same digest.
\<close>

theorem prune_keeps_chains:
  assumes "lucid_inv H pl db" "archive_keys (auArchive db)" "lucid_prune pl env pe policy ss db = (res, db')"
  shows "lucid_inv H pl db' \<and> archive_keys (auArchive db') \<and> head db' s = head db s \<and> suffix (live db' s) (live db s)
    \<and> (resolveSequenceHash db s n = Some h \<longrightarrow> resolveSequenceHash db' s n = Some h)"
proof -
  obtain r1 db1 where a: "prune_streams pl env pe policy ss db = (r1, db1)" by (rule prod.exhaust)
  have "db1 = db'" using a assms(3) by (cases r1) (simp_all add: lucid_prune_def)
  then have p: "prunes H pl db db'" using prune_streams_step [OF assms(1,2) a] by simp
  then have sf: "suffix (live db' s) (live db s)" and ne: "live db s \<noteq> [] \<Longrightarrow> live db' s \<noteq> []"
    by (simp_all add: prunes_def)
  from sf obtain zs where zs: "live db s = zs @ live db' s" by (rule suffixE)
  have "head db' s = head db s"
  proof (cases "rev (live db' s)")
    case Nil
    then show ?thesis using ne by (cases "live db s = []") (simp_all add: head_def)
  next
    case (Cons r rs)
    then show ?thesis using zs(1) by (simp add: head_def)
  qed
  then show ?thesis using p by (auto simp: prunes_def)
qed


text \<open>
  C31: A dry run predicts the run: when pruning succeeds, the dry run of the same policy on the same
  tables returns the same report, streams, counts per event and total, and changes nothing.
\<close>

theorem dry_run_predicts:
  assumes "lucid_inv H pl db" "archive_keys (auArchive db)" "distinct ss" "lucid_prune pl env pe policy ss db = (Inr report, db')"
  shows "lucid_prune pl env pe (policy\<lparr>ppDryRun := True\<rparr>) ss db = (Inr report, db)"
proof -
  obtain rs where rs: "prune_streams pl env pe policy ss db = (Inr rs, db')" "report = prune_report_of rs"
    using assms(4) by (auto simp: lucid_prune_def result_iff)
  have p: "rs = map (\<lambda>s. (s, case prune_plan pl pe policy (live db s) of Inr r \<Rightarrow> r | Inl e \<Rightarrow> None)) ss"
    "list_all (\<lambda>s. \<exists>r. prune_plan pl pe policy (live db s) = Inr r) ss"
    using prune_streams_local(3) [OF assms(1,2) rs(1) assms(3) refl] by blast+
  have "prune_streams pl env pe (policy\<lparr>ppDryRun := True\<rparr>) ss db = (Inr rs, db)"
    using dry_streams [of "policy\<lparr>ppDryRun := True\<rparr>" pl pe db ss env] p by (simp add: plan_dry)
  then show ?thesis using rs(2) by (simp add: lucid_prune_def)
qed

text \<open>A run for the witnesses: a thousand days later, with a retention of one day, one of two rows goes.\<close>

definition sample_policy :: prune_policy where
  "sample_policy = \<lparr>ppRetention = \<lparr>retentionDefault = ''1 day'', retentionPerEvent = None\<rparr>, ppDryRun = False,
     ppArchive = None, ppEventFilter = None\<rparr>"

definition sample_prune_env :: prune_env where
  "sample_prune_env = \<lparr>peNow = 1000 * msPerDay, peMaintenance = Some (\<lambda>s. None), peInsert = (\<lambda>s. None)\<rparr>"

lemma sample_cutoff: "cutoff_of (ppRetention sample_policy) (peNow sample_prune_env) ''created'' = Inr ''1972-09-26T00:00:00.000Z''"
  by code_simp

lemma sample_db_rows:
  "auArchive sample_db = [] \<and> auCheckpoints sample_db = [] \<and> (\<exists>x y. live sample_db ''s'' = [x, y] \<and> arId x \<noteq> arId y
     \<and> arEvent x = ''created'' \<and> arCreatedAt x = JStr epoch)"
proof -
  let ?b = "[stamped sample_a, stamped sample_b]"
  have st: "list_all (storable sample_platform) ?b" using sample_storable by simp
  obtain out db' where w: "lucid_write sample_digest sample_platform sample_env ?b empty_db = (Inr out, db')"
    using lucid_write_total [OF lucid_inv_empty sample_faithful st _ sample_compatible] sample_available by blast
  have d: "sample_db = db'" by (simp add: sample_db_def w)
  obtain r where r: "lucid_write sample_digest sample_platform sample_env ?b empty_db
      = sbind (write_streams sample_digest sample_platform sample_env (new_groups empty_db ?b) r empty_db) (\<lambda>results db. (collect results ?b, db))"
    by (rule lucid_write_runs [OF lucid_inv_empty st sample_compatible, where env = sample_env]) (simp, rule that)
  obtain res where res: "write_streams sample_digest sample_platform sample_env (new_groups empty_db ?b) r empty_db = (Inr res, db')"
    using w unfolding r sbind_Inr_iff by auto
  have g: "concat (map snd (new_groups empty_db ?b)) = ?b"
    by (simp add: new_groups_def empty_db_def group_by_def group_push_def stamped_def sample_a_def sample_b_def sample_event_def)
  obtain cs where cs: "appended sample_platform cs empty_db db'" "map base cs = ?b"
    using write_streams_keeps [OF lucid_inv_empty sample_faithful new_groups_ok(1) [OF st] res] g by auto
  then obtain rows where rows: "db' = empty_db\<lparr>auRows := rows\<rparr>" "list_all2 (stored_as sample_platform) cs rows"
    by (auto simp: appended_def empty_db_def)
  obtain c1 c2 where c: "cs = [c1, c2]" "base c1 = stamped sample_a" "base c2 = stamped sample_b" using cs(2) by auto
  obtain r1 r2 where rr: "rows = [r1, r2]" "stored_as sample_platform c1 r1" "stored_as sample_platform c2 r2"
    using rows(2) c(1) by (auto simp: list_all2_Cons1)
  have p: "arId r1 = ''a''" "arId r2 = ''b''" "arStream r1 = ''s''" "arStream r2 = ''s''" "arEvent r1 = ''created''" "arEvent r2 = ''created''"
    "arCreatedAt r1 = JStr epoch" "arCreatedAt r2 = JStr epoch"
    using rr c by (simp_all add: stored_as_def stamped_def sample_a_def sample_b_def sample_event_def toDbTimestamp_def isSqlite_def sample_platform_def)
  have "live db' ''s'' = [r1, r2] \<or> live db' ''s'' = [r2, r1]" using rows(1) rr(1) p by (simp add: live_def)
  then show ?thesis unfolding d using rows(1) p by (auto simp: empty_db_def)
qed

lemma sample_prune_returns:
  "\<exists>report db'. lucid_prune sample_platform sample_env sample_prune_env sample_policy [''s''] sample_db = (Inr report, db') \<and> totalPruned report = 1"
proof -
  obtain x y where l: "auArchive sample_db = []" "auCheckpoints sample_db = []" "live sample_db ''s'' = [x, y]" "arId x \<noteq> arId y"
    "arEvent x = ''created''" "arCreatedAt x = JStr epoch" using sample_db_rows by blast
  have iso: "toIsoString sample_platform (JStr epoch) = epoch" by (simp add: toIsoString_def sample_platform_def epoch_def)
  have lt: "\<not> ''1972-09-26T00:00:00.000Z'' \<le> epoch" unfolding epoch_def by code_simp
  have flt: "\<not> filtered_out sample_policy ev" for ev by (simp add: filtered_out_def sample_policy_def)
  have c: "prune_candidates sample_platform sample_policy (peNow sample_prune_env) ''created'' [x] = Inr [x]"
    using l flt iso lt sample_cutoff by simp
  obtain db1 where a: "archive_segment sample_platform sample_prune_env sample_policy ''s'' ''created'' [x] sample_db = (Inr (), db1)"
    "auCheckpoints db1 = []"
    using l by (simp add: archive_segment_def Let_def sample_policy_def sample_prune_env_def archive_keys_def)
  obtain db2 where b: "delete_segment sample_platform sample_env (\<lambda>s. None) ''s'' [x] db1 = (Inr (), db2)"
    using a(2) sample_available [of sample_platform "''s''"] by (simp add: delete_segment_def Let_def available_def)
  have "prune_stream sample_platform sample_env sample_prune_env sample_policy ''s'' sample_db = (Inr (Some (''created'', 1)), db2)"
    using l flt c a b by (simp add: prune_stream_def Let_def sample_policy_def [THEN arg_cong, of ppDryRun] sample_prune_env_def [THEN arg_cong, of peMaintenance])
  then show ?thesis by (simp add: lucid_prune_def prune_report_of_def Let_def)
qed

theorem prune_keeps_chains_witness:
  "lucid_inv sample_digest sample_platform (snd (lucid_prune sample_platform sample_env sample_prune_env sample_policy [''s''] sample_db))"
  using prune_keeps_chains [OF sample_db_inv _ prod.collapse [symmetric]] sample_db_rows by (auto simp: archive_keys_def)


theorem dry_run_predicts_witness:
  "\<exists>report. lucid_prune sample_platform sample_env sample_prune_env (sample_policy\<lparr>ppDryRun := True\<rparr>) [''s''] sample_db = (Inr report, sample_db)
     \<and> totalPruned report = 1"
proof -
  have k: "archive_keys (auArchive sample_db)" using sample_db_rows by (simp add: archive_keys_def)
  obtain report db' where r: "lucid_prune sample_platform sample_env sample_prune_env sample_policy [''s''] sample_db = (Inr report, db')" "totalPruned report = 1"
    using sample_prune_returns by blast
  have "distinct [''s'']" by simp
  from dry_run_predicts [OF sample_db_inv k this r(1)] show ?thesis using r(2) by blast
qed

end
