(* ===== verification/ChainHeads.thy ===== *)
theory ChainHeads
  imports StoreContract
begin

text \<open>
  What \<open>src/stores/stream_store.ts\<close> and \<open>src/stores/http_store.ts\<close> share: a map from streams to
  their heads in memory, and the chaining of a batch group by group onto those heads.
\<close>

type_synonym heads = "(string \<times> chain_head) list"

definition groupByStream :: "audit_event list \<Rightarrow> (string \<times> audit_event list) list" where
  "groupByStream batch = group_by stream batch"

text \<open>All chained events, in the order of the groups, and the new head of each group.\<close>

fun chain_groups :: "(string \<Rightarrow> string) \<Rightarrow> (string \<Rightarrow> chain_head option) \<Rightarrow> (string \<times> audit_event list) list
    \<Rightarrow> (chained_event list \<times> heads) result" where
  "chain_groups H heads_of [] = Inr ([], [])"
| "chain_groups H heads_of ((s, es) # gs) =
     rbind (chainBatch H es (heads_of s)) (\<lambda>chained.
       rmap (\<lambda>(rest, hs). (chained @ rest, (s, (seq (last chained), hash (last chained))) # hs))
         (chain_groups H heads_of gs))"

definition set_heads :: "heads \<Rightarrow> heads \<Rightarrow> heads" where
  "set_heads new heads = foldl (\<lambda>m (s, h). AList.update s h m) heads new"

section \<open>Chaining a batch\<close>

lemma set_heads_lookup: "distinct (map fst new) \<Longrightarrow> map_of (set_heads new heads) = map_of heads ++ map_of new"
proof (induction new arbitrary: heads)
  case (Cons g new)
  have "map_of new (fst g) = None" using Cons.prems by (simp add: map_of_eq_None_iff)
  then show ?case
    using Cons by (cases g) (auto simp: set_heads_def map_add_def fun_eq_iff split: option.splits)
qed (simp add: set_heads_def)

lemma chain_groups_returns:
  "(\<exists>r. chain_groups H heads_of gs = Inr r) \<longleftrightarrow> list_all (\<lambda>g. list_all hashable (snd g)) gs"
proof (induction gs)
  case (Cons g gs)
  obtain s es where g: "g = (s, es)" by (cases g)
  show ?case
    using Cons.IH chainBatch_returns [of H es "heads_of s"]
    by (cases "chainBatch H es (heads_of s)"; cases "chain_groups H heads_of gs") (auto simp: g)
qed simp

lemma linked_from_extend:
  assumes "linked_from H n p log" "log = [] \<Longrightarrow> n = 1 \<and> p = GENESIS" "chainBatch H es (head_of log) = Inr rs"
  shows "linked_from H n p (log @ rs)" "map base rs = es"
proof -
  have "log \<noteq> [] \<Longrightarrow> seq (last log) = n + int (length log) - 1"
    using linked_from_seq [OF assms(1), of "length log - 1"] by (simp add: last_conv_nth of_nat_diff Suc_leI)
  then have "chain_from H (n + int (length log)) (end_hash p log) es = Inr rs"
    using assms(2,3) by (cases "log = []") (auto simp: head_of_def chainBatch_def end_hash_def)
  then show "linked_from H n p (log @ rs)" "map base rs = es"
    using assms(1) chain_from_linked by auto
qed

text \<open>Each stream gets the chained form of its own events, and its last row as the new head.\<close>

lemma chainBatch_rows: "chainBatch H es h = Inr rs \<Longrightarrow> map base rs = es"
  using chain_from_linked by (fastforce simp: chainBatch_def split: option.splits prod.splits)

lemma of_stream_all: "list_all (\<lambda>r. row_stream r = s) rs \<Longrightarrow> of_stream s' rs = (if s' = s then rs else [])"
  by (induction rs) auto

lemma chain_groups_streams:
  assumes "chain_groups H heads_of gs = Inr (rows, hs)" "distinct (map fst gs)"
    and "\<And>g. g \<in> set gs \<Longrightarrow> snd g \<noteq> [] \<and> list_all (\<lambda>e. stream e = fst g) (snd g)"
  shows "map fst hs = map fst gs \<and> map base rows = concat (map snd gs)
    \<and> (\<forall>s. case map_of gs s of
         None \<Rightarrow> of_stream s rows = [] \<and> map_of hs s = None
       | Some es \<Rightarrow> chainBatch H es (heads_of s) = Inr (of_stream s rows) \<and> map_of hs s = head_of (of_stream s rows))"
  using assms
proof (induction gs arbitrary: rows hs)
  case (Cons g gs)
  obtain s es where g: "g = (s, es)" by (cases g)
  from Cons.prems(1) obtain chained rest hs' where c: "chainBatch H es (heads_of s) = Inr chained"
    "chain_groups H heads_of gs = Inr (rest, hs')" "rows = chained @ rest"
    "hs = (s, (seq (last chained), hash (last chained))) # hs'"
    by (auto simp: g result_iff)
  have es: "es \<noteq> []" "list_all (\<lambda>e. stream e = s) es" using Cons.prems(3) [of g] by (simp_all add: g)
  have b: "map base chained = es" by (rule chainBatch_rows [OF c(1)])
  then have all: "list_all (\<lambda>r. row_stream r = s) chained" "chained \<noteq> []" using es by (auto simp: list_all_iff)
  have IH: "map fst hs' = map fst gs \<and> map base rest = concat (map snd gs)
    \<and> (\<forall>s. case map_of gs s of
         None \<Rightarrow> of_stream s rest = [] \<and> map_of hs' s = None
       | Some es \<Rightarrow> chainBatch H es (heads_of s) = Inr (of_stream s rest) \<and> map_of hs' s = head_of (of_stream s rest))"
    using Cons.prems(2,3) by (intro Cons.IH [OF c(2)]) auto
  have "map_of gs s = None" using Cons.prems(2) by (simp add: g map_of_eq_None_iff)
  then have fresh: "of_stream s rest = []" using IH [THEN conjunct2, THEN conjunct2, THEN spec, of s] by simp
  have other: "of_stream s' rows = of_stream s' rest" if "s' \<noteq> s" for s'
    using that of_stream_all [OF all(1)] c(3) by simp
  have "case map_of (g # gs) s' of
         None \<Rightarrow> of_stream s' rows = [] \<and> map_of hs s' = None
       | Some es \<Rightarrow> chainBatch H es (heads_of s') = Inr (of_stream s' rows) \<and> map_of hs s' = head_of (of_stream s' rows)" for s'
  proof (cases "s' = s")
    case True
    have "of_stream s rows = chained" using fresh of_stream_all [OF all(1)] c(3) by simp
    then show ?thesis using True c(1,4) all(2) by (simp add: g head_of_def)
  next
    case False
    then show ?thesis
      using IH [THEN conjunct2, THEN conjunct2, THEN spec, of s'] c(4) other [OF False] False
      by (cases "map_of gs s'") (simp_all add: g)
  qed
  then show ?case using IH c(3,4) b by (simp add: g)
qed simp

definition logs_of :: "(string \<Rightarrow> string) \<Rightarrow> (string \<Rightarrow> chain_head option) \<Rightarrow> (string \<Rightarrow> chained_event list) \<Rightarrow> bool" where
  "logs_of H heads_of log \<longleftrightarrow> (\<forall>s. heads_of s = head_of (log s) \<and>
     (\<exists>n p. linked_from H n p (log s) \<and> (log s = [] \<longrightarrow> n = 1 \<and> p = GENESIS)))"

lemma group_by_stream:
  "g \<in> set (groupByStream b) \<Longrightarrow> snd g \<noteq> [] \<and> list_all (\<lambda>e. stream e = fst g) (snd g)"
  using group_by_mem [of "fst g" "snd g" stream b] unfolding groupByStream_def by (cases g) (auto simp: list_all_iff)

lemma chained_batch:
  assumes "chain_groups H heads_of (groupByStream b) = Inr (rows, hs)"
  shows "distinct (map fst hs)" and "set (map base rows) = set b"
    and "of_stream s rows = [] \<Longrightarrow> map_of hs s = None"
    and "of_stream s rows \<noteq> [] \<Longrightarrow> map_of hs s = head_of (of_stream s rows)"
    and "map base (of_stream s rows) = filter (\<lambda>e. stream e = s) b"
    and "of_stream s rows \<noteq> [] \<Longrightarrow> chainBatch H (filter (\<lambda>e. stream e = s) b) (heads_of s) = Inr (of_stream s rows)"
proof -
  have d: "distinct (map fst (groupByStream b))" by (simp add: groupByStream_def)
  have c: "map fst hs = map fst (groupByStream b)" "map base rows = concat (map snd (groupByStream b))"
    "case map_of (groupByStream b) s of
         None \<Rightarrow> of_stream s rows = [] \<and> map_of hs s = None
       | Some es \<Rightarrow> chainBatch H es (heads_of s) = Inr (of_stream s rows) \<and> map_of hs s = head_of (of_stream s rows)"
    using chain_groups_streams [OF assms d group_by_stream] by auto
  have look: "map_of (groupByStream b) s = (if s \<in> stream ` set b then Some (filter (\<lambda>e. stream e = s) b) else None)"
    by (simp add: groupByStream_def group_by_lookup)
  show "distinct (map fst hs)" using c d by simp
  have "mset (map base rows) = mset b"
    using c group_by_mset [of stream b] by (simp add: groupByStream_def)
  then show "set (map base rows) = set b" by (rule mset_eq_setD)
  show b: "map base (of_stream s rows) = filter (\<lambda>e. stream e = s) b"
  proof (cases "s \<in> stream ` set b")
    case True
    then have "chainBatch H (filter (\<lambda>e. stream e = s) b) (heads_of s) = Inr (of_stream s rows)"
      using c(3) by (simp add: look)
    then show ?thesis by (rule chainBatch_rows)
  next
    case False
    then have "filter (\<lambda>e. stream e = s) b = []" by (auto simp: filter_empty_conv)
    then show ?thesis using False c(3) by (simp add: look)
  qed
  have ne: "of_stream s rows = [] \<longleftrightarrow> s \<notin> stream ` set b"
    using arg_cong [OF b, of "\<lambda>xs. xs = []"] by (auto simp: filter_empty_conv)
  show "of_stream s rows = [] \<Longrightarrow> map_of hs s = None"
    "of_stream s rows \<noteq> [] \<Longrightarrow> map_of hs s = head_of (of_stream s rows)"
    "of_stream s rows \<noteq> [] \<Longrightarrow> chainBatch H (filter (\<lambda>e. stream e = s) b) (heads_of s) = Inr (of_stream s rows)"
    using c(3) ne by (simp_all add: look split: if_splits)
qed

lemma head_of_append [simp]: "head_of (xs @ ys) = (if ys = [] then head_of xs else head_of ys)"
  by (simp add: head_of_def)

lemma logs_extend:
  assumes "logs_of H (map_of heads) log" "chain_groups H (map_of heads) (groupByStream b) = Inr (rows, hs)"
  shows "logs_of H (map_of (set_heads hs heads)) (\<lambda>s. log s @ of_stream s rows)"
  unfolding logs_of_def
proof (intro allI conjI)
  fix s
  note c = chained_batch [OF assms(2)]
  obtain n p where l: "linked_from H n p (log s)" "log s = [] \<longrightarrow> n = 1 \<and> p = GENESIS" "map_of heads s = head_of (log s)"
    using assms(1) unfolding logs_of_def by blast
  show "map_of (set_heads hs heads) s = head_of (log s @ of_stream s rows)"
    using l(3) c(3,4) [of s] by (cases "of_stream s rows = []") (auto simp: set_heads_lookup [OF c(1)] map_add_def head_of_def)
  have "linked_from H n p (log s @ of_stream s rows)"
    using l c(6) [of s] linked_from_extend(1) [OF l(1)] by (cases "of_stream s rows = []") auto
  then show "\<exists>n p. linked_from H n p (log s @ of_stream s rows) \<and> (log s @ of_stream s rows = [] \<longrightarrow> n = 1 \<and> p = GENESIS)"
    using l(2) by auto
qed

text \<open>Throwing away the oldest rows of a log, but never all of them, keeps the invariant.\<close>

lemma linked_from_drop: "linked_from H n p rows \<Longrightarrow> \<exists>n p. linked_from H n p (drop k rows)"
  by (metis append_take_drop_id linked_from_append)

lemma logs_drop:
  assumes "logs_of H heads_of log" "\<And>s. k s < length (log s) \<or> k s = 0"
  shows "logs_of H heads_of (\<lambda>s. drop (k s) (log s))"
  unfolding logs_of_def
proof (intro allI conjI)
  fix s
  obtain n p where l: "linked_from H n p (log s)" "log s = [] \<longrightarrow> n = 1 \<and> p = GENESIS" "heads_of s = head_of (log s)"
    using assms(1) unfolding logs_of_def by blast
  show "heads_of s = head_of (drop (k s) (log s))" using l(3) assms(2) [of s] by (auto simp: head_of_def)
  show "\<exists>n p. linked_from H n p (drop (k s) (log s)) \<and> (drop (k s) (log s) = [] \<longrightarrow> n = 1 \<and> p = GENESIS)"
    using l assms(2) [of s] linked_from_drop [OF l(1), of "k s"] by (cases "k s = 0") auto
qed

text \<open>Every row the code chains carries the digest of its own fields.\<close>

definition sealed :: "(string \<Rightarrow> string) \<Rightarrow> chained_event \<Rightarrow> bool" where
  "sealed H r \<longleftrightarrow> hashEntry H (base r) (seq r) (prevHash r) = Inr (hash r)"

lemma chain_from_sealed: "chain_from H n p es = Inr rs \<Longrightarrow> list_all (sealed H) rs"
  by (induction es arbitrary: n p rs) (auto simp: result_iff sealed_def)

lemma chain_groups_sealed: "chain_groups H heads_of gs = Inr (rows, hs) \<Longrightarrow> list_all (sealed H) rows"
proof (induction gs arbitrary: rows hs)
  case (Cons g gs)
  obtain s es where g: "g = (s, es)" by (cases g)
  from Cons.prems obtain chained rest hs' where c: "chainBatch H es (heads_of s) = Inr chained"
    "chain_groups H heads_of gs = Inr (rest, hs')" "rows = chained @ rest"
    by (auto simp: g result_iff)
  have "list_all (sealed H) chained"
    using c(1) chain_from_sealed by (auto simp: chainBatch_def split: option.splits prod.splits)
  then show ?case using Cons.IH [OF c(2)] c(3) by simp
qed simp

text \<open>One event of one stream.\<close>

lemma chain_groups_single:
  assumes "chain_groups H heads_of (groupByStream [e]) = Inr (rows, hs)"
  shows "\<exists>r. rows = [r] \<and> base r = e \<and> seq r = (case heads_of (stream e) of None \<Rightarrow> 1 | Some (n, h) \<Rightarrow> n + 1)"
proof -
  have "groupByStream [e] = [(stream e, [e])]" by (simp add: groupByStream_def group_by_def group_push_def)
  then show ?thesis using assms by (auto simp: result_iff chainBatch_def split: option.splits)
qed

end
