(* ===== verification/HttpStore.thy ===== *)
theory HttpStore
  imports LucidPrune ChainHeads
begin

text \<open>
  \<open>src/stores/http_store.ts\<close>: batches are chained onto the heads in memory, posted to a collector,
  and the newest rows of each stream are kept for verification. \<open>fetch\<close>, the environment variables
  and \<open>createHmac\<close> are parameters. A write is split where it awaits the collector, so that two of
  them can interleave. Event names are taken not to be members of \<open>Object.prototype\<close>.
\<close>

section \<open>Options and state\<close>

record http_signature =
  secretEnvVar :: string
  signatureHeader :: "string option"

record http_options =
  optUrl :: string
  optHeaders :: "jsobj option"
  optSignature :: "http_signature option"
  optMaxRetained :: "int option"
  optIdempotencyHeader :: "string option"

record http_store =
  httpUrl :: string
  httpHeaders :: jsobj
  httpSignature :: "http_signature option"
  idempotencyHeader :: string
  maxRetainedPerStream :: int
  httpHeads :: heads
  httpLogs :: "(string \<times> chained_event list) list"

definition http_new :: "http_options \<Rightarrow> http_store result" where
  "http_new opts =
     (if optUrl opts = [] then Inl (AuditStoreError ''HttpStore requires a URL'')
      else Inr \<lparr>httpUrl = optUrl opts,
        httpHeaders = (case optHeaders opts of None \<Rightarrow> [] | Some hs \<Rightarrow> hs),
        httpSignature = optSignature opts,
        idempotencyHeader = (case optIdempotencyHeader opts of None \<Rightarrow> ''X-Idempotency-Key'' | Some h \<Rightarrow> h),
        maxRetainedPerStream = (case optMaxRetained opts of None \<Rightarrow> 100000 | Some n \<Rightarrow> n),
        httpHeads = [], httpLogs = []\<rparr>)"

section \<open>The request\<close>

record http_request =
  reqUrl :: string
  reqHeaders :: jsobj
  reqBody :: string

text \<open>The answer of \<open>fetch\<close>: a rejection, or a response whose text may be unreadable.\<close>

datatype http_response = NetworkError string | Response int "string option"

record http_env =
  envVar :: "string \<Rightarrow> string option"
  hmac :: "string \<Rightarrow> string \<Rightarrow> string"
  fetch :: "http_request \<Rightarrow> http_response"

definition rows_json :: "chained_event list \<Rightarrow> jsval" where
  "rows_json rows = JArr (map (\<lambda>r. JObj (chained_obj r)) rows)"

definition http_headers :: "http_store \<Rightarrow> chained_event list \<Rightarrow> jsobj" where
  "http_headers st rows =
     obj_assign (idempotencyHeader st) (JStr (eventId (base (hd rows)) @ '':'' @ eventId (base (last rows))))
       (foldl (\<lambda>o' (k, v). obj_put k v o') [(''content-type'', JStr ''application/json'')] (httpHeaders st))"

definition sign :: "http_env \<Rightarrow> string \<Rightarrow> string \<Rightarrow> string" where
  "sign env payload secret = hmac env secret payload"

definition signed_headers :: "http_env \<Rightarrow> http_store \<Rightarrow> chained_event list \<Rightarrow> jsobj result" where
  "signed_headers env st rows =
     (case httpSignature st of
        None \<Rightarrow> Inr (http_headers st rows)
      | Some sg \<Rightarrow>
          (case envVar env (secretEnvVar sg) of
             Some (c # cs) \<Rightarrow>
               rmap (\<lambda>t. obj_assign (case signatureHeader sg of None \<Rightarrow> ''X-Audit-Signature'' | Some h \<Rightarrow> h)
                       (JStr (sign env t (c # cs))) (http_headers st rows))
                 (canonicalJson (rows_json rows))
           | _ \<Rightarrow> Inl (AuditStoreError (''HTTP store signature requires env var '' @ secretEnvVar sg))))"

definition request_of :: "http_env \<Rightarrow> http_store \<Rightarrow> chained_event list \<Rightarrow> http_request result" where
  "request_of env st rows =
     rbind (json_str (rows_json rows)) (\<lambda>body.
       rmap (\<lambda>hs. \<lparr>reqUrl = httpUrl st, reqHeaders = hs, reqBody = (case body of None \<Rightarrow> [] | Some t \<Rightarrow> t)\<rparr>)
         (signed_headers env st rows))"

definition answer :: "http_response \<Rightarrow> unit result" where
  "answer r =
     (case r of
        NetworkError m \<Rightarrow> Inl (AuditStoreError (''HttpStore request failed: '' @ m))
      | Response status t \<Rightarrow>
          if 200 \<le> status \<and> status \<le> 299 then Inr ()
          else Inl (AuditStoreError (''HttpStore collector returned '' @ int_str status @ '': ''
                 @ take 200 (case t of None \<Rightarrow> [] | Some t \<Rightarrow> t))))"

definition post :: "http_env \<Rightarrow> http_store \<Rightarrow> chained_event list \<Rightarrow> unit result" where
  "post env st rows = rbind (request_of env st rows) (\<lambda>r. answer (fetch env r))"

section \<open>Writing\<close>

definition http_log :: "http_store \<Rightarrow> string \<Rightarrow> chained_event list" where
  "http_log st s = (case map_of (httpLogs st) s of None \<Rightarrow> [] | Some rows \<Rightarrow> rows)"

definition http_head :: "http_store \<Rightarrow> string \<Rightarrow> chain_head option" where
  "http_head st s = map_of (httpHeads st) s"

text \<open>Up to the request, and from the collector's answer on.\<close>

definition http_prepare :: "(string \<Rightarrow> string) \<Rightarrow> http_store \<Rightarrow> audit_event list \<Rightarrow> (chained_event list \<times> heads) result" where
  "http_prepare H st batch = chain_groups H (http_head st) (groupByStream batch)"

definition trimmed :: "int \<Rightarrow> chained_event list \<Rightarrow> chained_event list" where
  "trimmed m rows = (if 0 < m \<and> m < int (length rows) then drop (length rows - nat m) rows else rows)"

definition retain_event :: "int \<Rightarrow> (string \<times> chained_event list) list \<Rightarrow> chained_event \<Rightarrow> (string \<times> chained_event list) list" where
  "retain_event m logs ev =
     AList.update (row_stream ev)
       (trimmed m ((case map_of logs (row_stream ev) of None \<Rightarrow> [] | Some rows \<Rightarrow> rows) @ [ev])) logs"

definition http_commit :: "chained_event list \<times> heads \<Rightarrow> http_store \<Rightarrow> http_store" where
  "http_commit c st =
     st\<lparr>httpLogs := foldl (retain_event (maxRetainedPerStream st)) (httpLogs st) (fst c),
        httpHeads := set_heads (snd c) (httpHeads st)\<rparr>"

definition http_write ::
  "(string \<Rightarrow> string) \<Rightarrow> http_env \<Rightarrow> audit_event list \<Rightarrow> http_store \<Rightarrow> chained_event list result \<times> http_store" where
  "http_write H env batch st =
     (if batch = [] then (Inr [], st)
      else case http_prepare H st batch of
        Inl e \<Rightarrow> (Inl e, st)
      | Inr c \<Rightarrow>
          (case post env st (fst c) of
             Inl e \<Rightarrow> (Inl e, st)
           | Inr _ \<Rightarrow> (Inr (fst c), http_commit c st)))"

section \<open>Verifying\<close>

definition in_bounds :: "int option \<Rightarrow> int option \<Rightarrow> chained_event \<Rightarrow> bool" where
  "in_bounds fromSeq toSeq r \<longleftrightarrow>
     (case fromSeq of None \<Rightarrow> True | Some k \<Rightarrow> k \<le> seq r) \<and> (case toSeq of None \<Rightarrow> True | Some k \<Rightarrow> seq r \<le> k)"

text \<open>The rows of the range, and the last row in front of the first of them.\<close>

definition select_row :: "int option \<Rightarrow> int option \<Rightarrow> chained_event list \<times> chained_event option \<Rightarrow> chained_event
    \<Rightarrow> chained_event list \<times> chained_event option" where
  "select_row fromSeq toSeq acc r =
     (if in_bounds fromSeq toSeq r then (fst acc @ [r], snd acc)
      else if fst acc = [] then (fst acc, Some r) else acc)"

fun check_rows :: "(string \<Rightarrow> string) \<Rightarrow> string \<Rightarrow> stream_state \<Rightarrow> chained_event list \<Rightarrow> verify_report list \<times> audit_error option" where
  "check_rows H s st [] = ([], None)"
| "check_rows H s st (r # rs) =
     (case check_event H s st r of
        Inl e \<Rightarrow> ([], Some e)
      | Inr (st, rep) \<Rightarrow> (let (reps, err) = check_rows H s st rs in (rep # reps, err)))"

definition empty_report :: "string \<Rightarrow> verify_report" where
  "empty_report s = \<lparr>reportStream = s, valid = True, firstInvalidSeq = None, expectedHash = None, actualHash = None, checkedCount = 0\<rparr>"

definition http_verify ::
  "(string \<Rightarrow> string) \<Rightarrow> http_store \<Rightarrow> string \<Rightarrow> int option \<Rightarrow> int option \<Rightarrow> verify_report list \<times> audit_error option" where
  "http_verify H st s fromSeq toSeq =
     (let (filtered, previous) = foldl (select_row fromSeq toSeq) ([], None) (http_log st s) in
      if filtered = [] then ([empty_report s], None)
      else check_rows H s
        \<lparr>prevSeq = (case previous of Some r \<Rightarrow> seq r | None \<Rightarrow> seq (hd filtered) - 1),
         statePrevHash = (case previous of Some r \<Rightarrow> hash r | None \<Rightarrow> prevHash (hd filtered)),
         checked = 0, stateFirstInvalid = None\<rparr> filtered)"

section \<open>Pruning\<close>

fun split_expired :: "prune_policy \<Rightarrow> int \<Rightarrow> int \<Rightarrow> chained_event list \<Rightarrow> (chained_event list \<times> chained_event list) result" where
  "split_expired policy now headSeq [] = Inr ([], [])"
| "split_expired policy now headSeq (r # rs) =
     rbind (cutoff_of (ppRetention policy) now (eventName (base r))) (\<lambda>cutoff.
       rmap (\<lambda>(retained, pruned).
           if filtered_out policy (eventName (base r)) \<or> seq r = headSeq \<or> cutoff \<le> createdAt (base r)
           then (r # retained, pruned) else (retained, r # pruned))
         (split_expired policy now headSeq rs))"

definition http_segment :: "prune_policy \<Rightarrow> string \<Rightarrow> chained_event list \<Rightarrow> retention_segment" where
  "http_segment policy s pruned =
     \<lparr>idempotencyKey = s @ '':'' @ int_str (seq (hd pruned)) @ '':'' @ int_str (seq (last pruned)),
      segmentEvent = (case ppEventFilter policy of None \<Rightarrow> eventName (base (hd pruned)) | Some f \<Rightarrow> f),
      segmentStream = s, segmentFrom = seq (hd pruned), segmentTo = seq (last pruned),
      segmentCount = length pruned, segmentFromCreatedAt = createdAt (base (hd pruned)),
      segmentToCreatedAt = createdAt (base (last pruned))\<rparr>"

definition archive_pruned :: "prune_policy \<Rightarrow> string \<Rightarrow> chained_event list \<Rightarrow> audit_error option" where
  "archive_pruned policy s pruned =
     (case ppArchive policy of
        None \<Rightarrow> None
      | Some f \<Rightarrow> if pruned \<noteq> [] \<and> \<not> ppDryRun policy then f (http_segment policy s pruned) else None)"

fun prune_logs :: "prune_policy \<Rightarrow> int \<Rightarrow> (string \<times> chained_event list) list \<Rightarrow> http_store
    \<Rightarrow> (string \<times> chained_event list) list result \<times> http_store" where
  "prune_logs policy now [] st = (Inr [], st)"
| "prune_logs policy now ((s, rows) # ls) st =
     (if rows = [] then prune_logs policy now ls st
      else case split_expired policy now (seq (last rows)) rows of
        Inl e \<Rightarrow> (Inl e, st)
      | Inr (retained, pruned) \<Rightarrow>
          (case archive_pruned policy s pruned of
             Some e \<Rightarrow> (Inl e, st)
           | None \<Rightarrow>
               sbind (prune_logs policy now ls
                   (if ppDryRun policy then st else st\<lparr>httpLogs := AList.update s retained (httpLogs st)\<rparr>))
                 (\<lambda>rs st. (Inr ((s, pruned) # rs), st))))"

definition http_prune_report :: "(string \<times> chained_event list) list \<Rightarrow> prune_report" where
  "http_prune_report rs =
     (let pruned = concat (map snd rs) in
      \<lparr>prunedStreams = map fst rs, totalPruned = length pruned,
       perEventCounts = foldl count_event [] (map (\<lambda>r. (eventName (base r), 1)) pruned)\<rparr>)"

definition http_prune :: "prune_policy \<Rightarrow> int \<Rightarrow> http_store \<Rightarrow> prune_report result \<times> http_store" where
  "http_prune policy now st =
     sbind (prune_logs policy now (httpLogs st) st) (\<lambda>rs st. (Inr (http_prune_report rs), st))"

section \<open>The window of newest rows\<close>

lemma trimmed_again: "trimmed m (trimmed m xs @ ys) = trimmed m (xs @ ys)"
  by (auto simp: trimmed_def)

lemma trimmed_drop: "\<exists>k. trimmed m xs = drop k xs \<and> (k < length xs \<or> k = 0)"
proof (cases "0 < m \<and> m < int (length xs)")
  case True
  then show ?thesis by (intro exI [of _ "length xs - nat m"]) (auto simp: trimmed_def)
next
  case False
  then show ?thesis by (intro exI [of _ 0]) (auto simp: trimmed_def)
qed

lemma retain_logs:
  "(case map_of (foldl (retain_event m) logs rows) s of None \<Rightarrow> [] | Some l \<Rightarrow> l)
     = (let old = (case map_of logs s of None \<Rightarrow> [] | Some l \<Rightarrow> l) in
        if of_stream s rows = [] then old else trimmed m (old @ of_stream s rows))"
proof (induction rows arbitrary: logs)
  case (Cons r rows)
  show ?case
    using Cons.IH [of "retain_event m logs r"] by (auto simp: retain_event_def Let_def trimmed_again)
qed simp

lemma retain_distinct: "distinct (map fst logs) \<Longrightarrow> distinct (map fst (foldl (retain_event m) logs rows))"
  by (induction rows arbitrary: logs) (simp_all add: retain_event_def)

lemma commit_log:
  "http_log (http_commit c st) s =
     (if of_stream s (fst c) = [] then http_log st s else trimmed (maxRetainedPerStream st) (http_log st s @ of_stream s (fst c)))"
  using retain_logs [of "maxRetainedPerStream st" "httpLogs st" "fst c" s] by (simp add: http_log_def http_commit_def Let_def)

lemma commit_head: "http_head (http_commit c st) = map_of (set_heads (snd c) (httpHeads st))"
  by (simp add: fun_eq_iff http_head_def http_commit_def)

lemma commit_head_lookup:
  "distinct (map fst (snd c)) \<Longrightarrow>
   http_head (http_commit c st) s = (case map_of (snd c) s of None \<Rightarrow> http_head st s | Some h \<Rightarrow> Some h)"
  by (simp add: commit_head set_heads_lookup map_add_def http_head_def split: option.split)

lemma http_head_map: "http_head st = map_of (httpHeads st)"
  by (simp add: fun_eq_iff http_head_def)

lemma http_write_cases:
  obtains (kept) res where "http_write H env b st = (res, st)" "case res of Inl e \<Rightarrow> True | Inr rows \<Rightarrow> b = [] \<and> rows = []"
  | (posted) c where "http_write H env b st = (Inr (fst c), http_commit c st)" "http_prepare H st b = Inr c"
      "post env st (fst c) = Inr ()" "b \<noteq> []"
proof (cases "b = []")
  case True
  then show thesis using kept by (simp add: http_write_def)
next
  case False
  show thesis
  proof (cases "http_prepare H st b")
    case (Inl e)
    then show thesis using False kept by (simp add: http_write_def)
  next
    case (Inr c)
    then show thesis using False kept posted by (cases "post env st (fst c)") (simp_all add: http_write_def)
  qed
qed

definition http_ok :: "(string \<Rightarrow> string) \<Rightarrow> http_store \<Rightarrow> bool" where
  "http_ok H st \<longleftrightarrow> logs_of H (http_head st) (http_log st) \<and> (\<forall>s. list_all (sealed H) (http_log st s))
     \<and> distinct (map fst (httpLogs st))"

lemma http_ok_linked: "http_ok H st \<Longrightarrow> \<exists>n p. linked_from H n p (http_log st s)"
  unfolding http_ok_def logs_of_def by blast

lemma list_all_drop: "list_all P xs \<Longrightarrow> list_all P (drop k xs)"
  by (auto simp: list_all_iff dest: in_set_dropD)

lemma of_stream_sealed: "list_all P rows \<Longrightarrow> list_all P (of_stream s rows)"
  by (simp add: list_all_iff of_stream_def)

lemma commit_ok:
  assumes "http_ok H st" "http_prepare H st b = Inr c"
  shows "http_ok H (http_commit c st)"
proof -
  obtain rows hs where c: "c = (rows, hs)" by (cases c)
  have g: "chain_groups H (map_of (httpHeads st)) (groupByStream b) = Inr (rows, hs)"
    using assms(2) by (simp add: http_prepare_def c http_head_map)
  let ?full = "\<lambda>s. http_log st s @ of_stream s rows"
  obtain k where k: "\<And>s. http_log (http_commit c st) s = drop (k s) (?full s) \<and> (k s < length (?full s) \<or> k s = 0)"
  proof -
    have "\<exists>k. http_log (http_commit c st) s = drop k (?full s) \<and> (k < length (?full s) \<or> k = 0)" for s
      using trimmed_drop [of "maxRetainedPerStream st" "?full s"] by (auto simp: commit_log c intro: exI [of _ 0])
    then show thesis using that by metis
  qed
  have "logs_of H (map_of (set_heads hs (httpHeads st))) ?full"
    using assms(1) by (intro logs_extend [OF _ g]) (simp add: http_ok_def http_head_map)
  moreover have eq: "http_log (http_commit c st) = (\<lambda>s. drop (k s) (?full s))" using k by (intro ext) blast
  ultimately have "logs_of H (http_head (http_commit c st)) (http_log (http_commit c st))"
    using logs_drop [of H _ ?full k] k eq by (simp add: commit_head c)
  moreover have "list_all (sealed H) (http_log (http_commit c st) s)" for s
    using assms(1) chain_groups_sealed [OF g] k of_stream_sealed [of "sealed H" rows s] by (simp add: http_ok_def list_all_drop)
  moreover have "distinct (map fst (httpLogs (http_commit c st)))"
    using assms(1) retain_distinct by (simp add: http_ok_def http_commit_def)
  ultimately show ?thesis by (simp add: http_ok_def)
qed

interpretation http: windowed_store H "http_write H" http_log "http_ok H" "\<lambda>_. True"
proof
  fix st b env
  assume "http_ok H st"
  then show "http_ok H (snd (http_write H env b st))"
    by (cases rule: http_write_cases [of H env b st]) (auto simp: commit_ok)
next
  fix st s
  assume "http_ok H st"
  then show "\<exists>n p. linked_from H n p (http_log st s)" by (rule http_ok_linked)
next
  fix st :: http_store and b env s
  show "\<exists>k new. http_log (snd (http_write H env b st)) s = drop k (http_log st s @ new)"
  proof (cases rule: http_write_cases [of H env b st])
    case (kept res)
    then show ?thesis by (auto intro!: exI [of _ 0] exI [of _ "[]"])
  next
    case (posted c)
    then show ?thesis
      using trimmed_drop [of "maxRetainedPerStream st" "http_log st s @ of_stream s (fst c)"]
      by (auto simp: commit_log intro: exI [of _ 0])
  qed
qed

section \<open>Verifying a window\<close>

lemma check_rows_passes: "passes (check_rows H s st rows) \<longleftrightarrow> linked_from H (prevSeq st + 1) (statePrevHash st) rows"
proof (induction rows arbitrary: st)
  case (Cons r rows)
  show ?case
  proof (cases "check_event H s st r")
    case (Inl e)
    then show ?thesis using check_event_linked [of r st H s] by (auto simp: passes_def)
  next
    case (Inr p)
    obtain st' rep where c: "check_event H s st r = Inr (st', rep)" using Inr by (cases p) simp
    have "passes (check_rows H s st (r # rows)) \<longleftrightarrow> valid rep \<and> passes (check_rows H s st' rows)"
      using c by (simp add: passes_def split: prod.split) blast
    then show ?thesis
      using Cons.IH [of st'] check_event_valid [OF c] check_event_linked [of r st H s] c by auto
  qed
qed (simp add: passes_def)

lemma select_rows_found:
  "fs \<noteq> [] \<Longrightarrow> foldl (select_row f t) (fs, prev) rows = (fs @ filter (in_bounds f t) rows, prev)"
  by (induction rows arbitrary: fs) (simp_all add: select_row_def)

lemma select_rows:
  "foldl (select_row f t) ([], prev) rows =
     (filter (in_bounds f t) rows,
      let pre = takeWhile (\<lambda>r. \<not> in_bounds f t r) rows in if pre = [] then prev else Some (last pre))"
  by (induction rows arbitrary: prev) (auto simp: select_row_def select_rows_found Let_def)

lemma verify_all_linked:
  assumes "passes (http_verify H st s None None)"
  shows "\<exists>n p. linked_from H n p (http_log st s)"
proof (cases "http_log st s = []")
  case False
  have "filter (in_bounds None None) rows = rows" "takeWhile (\<lambda>r. \<not> in_bounds None None r) rows = []" for rows
    by (simp_all add: in_bounds_def takeWhile_eq_Nil_iff)
  then show ?thesis
    using assms False by (auto simp: http_verify_def select_rows check_rows_passes simp del: check_rows.simps)
qed simp

lemma beyond_range: "linked_from H n p rows \<Longrightarrow> t < n \<Longrightarrow> filter (in_bounds f (Some t)) rows = []"
  by (induction rows arbitrary: n p) (auto simp: in_bounds_def)

lemma range_linked:
  "linked_from H n p rows \<Longrightarrow> rows \<noteq> [] \<Longrightarrow> in_bounds f t (hd rows) \<Longrightarrow> linked_from H n p (filter (in_bounds f t) rows)"
proof (induction rows arbitrary: n p)
  case (Cons r rows)
  show ?case
  proof (cases "rows = [] \<or> in_bounds f t (hd rows)")
    case True
    then have "linked_from H (n + 1) (hash r) (filter (in_bounds f t) rows)"
      using Cons by (cases "rows = []") simp_all
    then show ?thesis using Cons.prems by simp
  next
    case False
    then obtain r' rows' where rs: "rows = r' # rows'" "\<not> in_bounds f t r'" by (cases rows) auto
    have l: "seq r = n" "linked_from H (n + 1) (hash r) rows" "seq r' = n + 1" using Cons.prems(1) rs by auto
    obtain k where k: "t = Some k" "k < n + 1"
      using rs(2) Cons.prems(3) l(1,3) by (cases t) (auto simp: in_bounds_def split: option.splits)
    have "filter (in_bounds f t) rows = []" using beyond_range [OF l(2)] k by simp
    then show ?thesis using Cons.prems by simp
  qed
qed simp

lemma window_verifies:
  assumes "http_ok H st"
  shows "passes (http_verify H st s f t)"
proof -
  let ?rows = "http_log st s" and ?ib = "in_bounds f t"
  let ?pre = "takeWhile (\<lambda>r. \<not> ?ib r) ?rows" and ?rest = "dropWhile (\<lambda>r. \<not> ?ib r) ?rows"
  obtain n p where l: "linked_from H n p ?rows" using http_ok_linked [OF assms] by blast
  have sl: "list_all (sealed H) ?rows" using assms by (simp add: http_ok_def)
  have lp: "linked_from H n p ?pre" and lr: "linked_from H (n + int (length ?pre)) (end_hash p ?pre) ?rest"
    using l linked_from_append [of H n p ?pre ?rest] by simp_all
  have "filter ?ib ?pre = []" by (auto simp: filter_empty_conv dest: set_takeWhileD)
  then have flt: "filter ?ib ?rows = filter ?ib ?rest"
    by (metis append_Nil filter_append takeWhile_dropWhile_id)
  show ?thesis
  proof (cases "?rest = []")
    case True
    then have "filter ?ib ?rows = []" using flt by simp
    then show ?thesis by (simp add: http_verify_def select_rows passes_def empty_report_def)
  next
    case False
    have h: "?ib (hd ?rest)" using False hd_dropWhile by blast
    have lf: "linked_from H (n + int (length ?pre)) (end_hash p ?pre) (filter ?ib ?rows)"
      using range_linked [OF lr False h] flt by simp
    have hd_f: "filter ?ib ?rows \<noteq> []" "hd (filter ?ib ?rows) = hd ?rest"
      using False h flt by (cases ?rest; simp)+
    show ?thesis
    proof (cases "?pre = []")
      case True
      obtain r rs where r: "filter ?ib ?rows = r # rs" using hd_f(1) by (cases "filter ?ib ?rows") auto
      have "r \<in> set ?rows" using r by (metis filter_is_subset list.set_intros(1) subsetD)
      then have "sealed H r" using sl by (simp add: list_all_iff)
      then have "linked_from H (seq r) (prevHash r) (r # rs)" using lf r True by (simp add: sealed_def)
      then show ?thesis using True r
        by (simp add: http_verify_def select_rows check_rows_passes del: check_rows.simps)
    next
      case False
      have "seq (last ?pre) = n + int (length ?pre) - 1"
        using linked_from_seq [OF lp, of "length ?pre - 1"] False
        by (simp add: last_conv_nth of_nat_diff Suc_leI del: takeWhile_eq_Nil_iff)
      then show ?thesis using False lf hd_f(1)
        by (simp add: http_verify_def select_rows check_rows_passes end_hash_def Let_def)
    qed
  qed
qed

section \<open>What the collector has accepted\<close>

text \<open>A run of writes, with all rows the collector has answered for, in the order it got them.\<close>

definition http_step :: "(string \<Rightarrow> string) \<Rightarrow> chained_event list \<times> http_store \<Rightarrow> http_env \<times> audit_event list \<Rightarrow> chained_event list \<times> http_store" where
  "http_step H x w =
     (case http_write H (fst w) (snd w) (snd x) of (Inl e, st) \<Rightarrow> (fst x, st) | (Inr rows, st) \<Rightarrow> (fst x @ rows, st))"

definition http_run :: "(string \<Rightarrow> string) \<Rightarrow> http_store \<Rightarrow> (http_env \<times> audit_event list) list \<Rightarrow> chained_event list \<times> http_store" where
  "http_run H st ws = foldl (http_step H) ([], st) ws"

definition matches :: "(string \<Rightarrow> string) \<Rightarrow> chained_event list \<times> http_store \<Rightarrow> bool" where
  "matches H x \<longleftrightarrow> (\<forall>s. linked H (of_stream s (fst x)) \<and> http_head (snd x) s = head_of (of_stream s (fst x))
        \<and> http_log (snd x) s = trimmed (maxRetainedPerStream (snd x)) (of_stream s (fst x)))"

lemma http_new_matches: "http_new opts = Inr st \<Longrightarrow> matches H ([], st)"
  by (auto simp: http_new_def matches_def http_head_def http_log_def head_of_def linked_def trimmed_def split: if_splits option.splits)

lemma http_new_ok: "http_new opts = Inr st \<Longrightarrow> http_ok H st"
  by (auto simp: http_new_def http_ok_def logs_of_def http_head_def http_log_def head_of_def split: if_splits option.splits)

lemma http_step_matches: "matches H x \<Longrightarrow> matches H (http_step H x w)"
proof -
  assume m: "matches H x"
  show ?thesis
  proof (cases rule: http_write_cases [of H "fst w" "snd w" "snd x"])
    case (kept res)
    then show ?thesis using m by (cases res) (simp_all add: http_step_def)
  next
    case (posted c)
    obtain rows hs where c: "c = (rows, hs)" by (cases c)
    have g: "chain_groups H (http_head (snd x)) (groupByStream (snd w)) = Inr (rows, hs)"
      using posted(2) by (simp add: http_prepare_def c)
    have "http_head (http_commit c (snd x)) s = head_of (of_stream s (fst x @ rows)) \<and> linked H (of_stream s (fst x @ rows))
      \<and> http_log (http_commit c (snd x)) s = trimmed (maxRetainedPerStream (snd x)) (of_stream s (fst x @ rows))" for s
    proof -
      note b = chained_batch [OF g]
      have h: "http_head (snd x) s = head_of (of_stream s (fst x))" "linked H (of_stream s (fst x))"
        "http_log (snd x) s = trimmed (maxRetainedPerStream (snd x)) (of_stream s (fst x))"
        using m by (auto simp: matches_def)
      have "http_head (http_commit c (snd x)) s = head_of (of_stream s (fst x @ rows))"
        using h(1) b(3,4) [of s] commit_head_lookup [of c "snd x" s] b(1)
        by (cases "of_stream s rows = []") (auto simp: c head_of_def)
      moreover have "linked H (of_stream s (fst x @ rows))"
        using h b(6) [of s] chainBatch_linked [of H "of_stream s (fst x)"] by (cases "of_stream s rows = []") auto
      ultimately show ?thesis using h(3) by (simp add: commit_log c trimmed_again)
    qed
    moreover have "maxRetainedPerStream (http_commit c (snd x)) = maxRetainedPerStream (snd x)" by (simp add: http_commit_def)
    ultimately show ?thesis using posted(1) by (simp add: http_step_def matches_def c)
  qed
qed

lemma http_run_matches: "matches H (acc, st) \<Longrightarrow> matches H (foldl (http_step H) (acc, st) ws)"
proof (induction ws arbitrary: acc st)
  case (Cons w ws)
  obtain acc' st' where w: "http_step H (acc, st) w = (acc', st')" by (rule prod.exhaust)
  then show ?case using http_step_matches [OF Cons.prems, of w] Cons.IH by simp
qed simp

lemma http_run_store: "snd (foldl (http_step H) (acc, st) ws) = http.run H ws st"
proof (induction ws arbitrary: acc st)
  case (Cons w ws)
  have "snd (http_step H (acc, st) w) = snd (http_write H (fst w) (snd w) st)"
    by (simp add: http_step_def split: prod.split sum.split)
  then show ?case using Cons.IH [of "fst (http_step H (acc, st) w)" "snd (http_step H (acc, st) w)"]
    by (simp add: http.run_simps del: split_paired_All) (metis prod.collapse)
qed (simp add: http.run_simps)

lemma http_run_ok: "http_ok H st \<Longrightarrow> http_ok H (http.run H ws st)"
  by (rule http.run_ok) (simp_all add: list_all_iff)

section \<open>Pruning with one retention for all events\<close>

lemma split_kept:
  "(\<And>ev. cutoff_of (ppRetention policy) now ev = Inr c) \<Longrightarrow> list_all (\<lambda>r. c \<le> createdAt (base r)) rows \<Longrightarrow>
   split_expired policy now n rows = Inr (rows, [])"
  by (induction rows) simp_all

lemma split_uniform:
  assumes "\<And>ev. cutoff_of (ppRetention policy) now ev = Inr c" "ppEventFilter policy = None"
    and "sorted_wrt (\<lambda>a b. createdAt (base a) \<le> createdAt (base b)) rows" "rows \<noteq> []"
    "linked_from H n p rows"
  shows "\<exists>k < length rows. split_expired policy now (seq (last rows)) rows = Inr (drop k rows, take k rows)"
  using assms(3-5)
proof (induction rows arbitrary: n p)
  case (Cons r rs)
  let ?n = "seq (last (r # rs))"
  show ?case
  proof (cases "rs = [] \<or> c \<le> createdAt (base r)")
    case True
    then have "split_expired policy now ?n (r # rs) = Inr (r # rs, [])"
      using Cons.prems assms(1) split_kept [OF assms(1), of rs]
      by (fastforce simp: list_all_iff intro: order_trans)
    then show ?thesis by (intro exI [of _ 0]) simp
  next
    case False
    then obtain k where k: "k < length rs" "split_expired policy now ?n rs = Inr (drop k rs, take k rs)"
      using Cons.IH [of "n + 1" "hash r"] Cons.prems by auto
    have "seq (last rs) = n + int (length rs)"
      using linked_from_seq [of H "n + 1" "hash r" rs "length rs - 1"] Cons.prems(3) False
      by (simp add: last_conv_nth of_nat_diff Suc_leI)
    then have "seq r \<noteq> ?n" using False Cons.prems(3) by simp
    then show ?thesis using False k assms(1,2) by (intro exI [of _ "Suc k"]) (simp add: filtered_out_def)
  qed
qed simp

text \<open>What pruning makes of every log: it keeps the newest rows, and always the head.\<close>

definition shortened :: "http_store \<Rightarrow> http_store \<Rightarrow> bool" where
  "shortened st st' \<longleftrightarrow> httpHeads st' = httpHeads st \<and> distinct (map fst (httpLogs st')) \<and>
     (\<forall>s. \<exists>k. http_log st' s = drop k (http_log st s) \<and> (k < length (http_log st s) \<or> k = 0))"

lemma shortened_refl: "distinct (map fst (httpLogs st)) \<Longrightarrow> shortened st st"
  by (auto simp: shortened_def intro: exI [of _ 0])

lemma shortened_trans:
  assumes "shortened a b" "shortened b c"
  shows "shortened a c"
  unfolding shortened_def
proof (intro conjI allI)
  fix s
  obtain j k where j: "http_log b s = drop j (http_log a s)" "j < length (http_log a s) \<or> j = 0"
    and k: "http_log c s = drop k (http_log b s)" "k < length (http_log b s) \<or> k = 0"
    using assms unfolding shortened_def by blast
  then show "\<exists>k. http_log c s = drop k (http_log a s) \<and> (k < length (http_log a s) \<or> k = 0)"
    by (intro exI [of _ "k + j"]) auto
qed (use assms in \<open>auto simp: shortened_def\<close>)

lemma shortened_ok:
  assumes "http_ok H st" "shortened st st'"
  shows "http_ok H st'"
proof -
  obtain k where k: "\<And>s. http_log st' s = drop (k s) (http_log st s) \<and> (k s < length (http_log st s) \<or> k s = 0)"
    using choice [of "\<lambda>s k. http_log st' s = drop k (http_log st s) \<and> (k < length (http_log st s) \<or> k = 0)"] assms(2)
    unfolding shortened_def by blast
  have eq: "http_log st' = (\<lambda>s. drop (k s) (http_log st s))" using k by (intro ext) blast
  have d: "distinct (map fst (httpLogs st'))" and heads: "httpHeads st' = httpHeads st"
    using assms(2) unfolding shortened_def by blast+
  have ok: "logs_of H (http_head st) (http_log st)" "\<forall>s. list_all (sealed H) (http_log st s)"
    using assms(1) unfolding http_ok_def by blast+
  have logs: "logs_of H (http_head st) (\<lambda>s. drop (k s) (http_log st s))"
    by (rule logs_drop [OF ok(1)]) (rule conjunct2 [OF k])
  have sl: "\<forall>s. list_all (sealed H) (drop (k s) (http_log st s))"
    using ok(2) list_all_drop by blast
  have "http_head st' = http_head st" by (simp add: fun_eq_iff http_head_def heads)
  then show ?thesis
    using logs d sl unfolding eq http_ok_def by simp
qed

definition one_retention :: "prune_policy \<Rightarrow> bool" where
  "one_retention policy \<longleftrightarrow> retentionPerEvent (ppRetention policy) = None \<and> ppEventFilter policy = None"

definition in_time_order :: "chained_event list \<Rightarrow> bool" where
  "in_time_order rows \<longleftrightarrow> sorted_wrt (\<lambda>a b. createdAt (base a) \<le> createdAt (base b)) rows"

lemma split_shortens:
  assumes "one_retention policy" "in_time_order rows" "linked_from H n p rows" "rows \<noteq> []"
    and "split_expired policy now (seq (last rows)) rows = Inr (retained, pruned)"
  shows "\<exists>k < length rows. retained = drop k rows \<and> pruned = take k rows"
proof -
  let ?cut = "cutoff_of (ppRetention policy) now"
  have all: "?cut ev = ?cut ev'" for ev ev' using assms(1) by (simp add: one_retention_def cutoff_of_def event_duration_def)
  show ?thesis
  proof (cases "?cut []")
    case (Inl e)
    then have "?cut ev = Inl e" for ev using all by metis
    then show ?thesis using assms(4,5) by (cases rows) simp_all
  next
    case (Inr c)
    then have "?cut ev = Inr c" for ev using all by metis
    then show ?thesis
      using split_uniform [of policy now c rows H n p] assms by (auto simp: one_retention_def in_time_order_def)
  qed
qed

lemma set_log: "http_log (st\<lparr>httpLogs := AList.update s rows (httpLogs st)\<rparr>) t = (if t = s then rows else http_log st t)"
  by (simp add: http_log_def)

lemma prune_logs_shortens:
  assumes "one_retention policy" "distinct (map fst ls)" "distinct (map fst (httpLogs st))"
    and "\<And>s rows. (s, rows) \<in> set ls \<Longrightarrow> http_log st s = rows \<and> in_time_order rows \<and> (\<exists>n p. linked_from H n p rows)"
    and "prune_logs policy now ls st = (res, st')"
  shows "shortened st st'"
  using assms(2-5)
proof (induction ls arbitrary: st res)
  case Nil
  then show ?case using shortened_refl by auto
next
  case (Cons l ls)
  obtain s rows where l: "l = (s, rows)" by (cases l)
  have row: "http_log st s = rows" "in_time_order rows" "\<exists>n p. linked_from H n p rows"
    using Cons.prems(3) [of s rows] l by auto
  have rest: "http_log st t = rs \<and> in_time_order rs \<and> (\<exists>n p. linked_from H n p rs)" if "(t, rs) \<in> set ls" for t rs
    using Cons.prems(3) [of t rs] that by simp
  consider (skip) "rows = []" | (fails) "st' = st" | (cut) retained pruned where "rows \<noteq> []"
      "split_expired policy now (seq (last rows)) rows = Inr (retained, pruned)"
      "\<exists>res. prune_logs policy now ls (if ppDryRun policy then st else st\<lparr>httpLogs := AList.update s retained (httpLogs st)\<rparr>) = (res, st')"
    using Cons.prems(4)
    by (auto simp: l sbind_def split: if_splits sum.splits option.splits prod.splits)
  then show ?case
  proof cases
    case skip
    then show ?thesis using Cons.IH [of st res] Cons.prems rest by (simp add: l)
  next
    case fails
    then show ?thesis using shortened_refl Cons.prems(2) by simp
  next
    case cut
    let ?st = "if ppDryRun policy then st else st\<lparr>httpLogs := AList.update s retained (httpLogs st)\<rparr>"
    obtain k where k: "k < length rows" "retained = drop k rows"
      using split_shortens [OF assms(1) row(2) _ cut(1,2)] row(3) by blast
    have one: "shortened st ?st"
      using k row(1) Cons.prems(2) shortened_refl [of st] by (auto simp: shortened_def set_log intro: exI [of _ 0])
    have d: "distinct (map fst ls)" "distinct (map fst (httpLogs ?st))"
      using Cons.prems(1,2) by simp_all
    have same: "http_log ?st t = rs \<and> in_time_order rs \<and> (\<exists>n p. linked_from H n p rs)" if r: "(t, rs) \<in> set ls" for t rs
    proof -
      have "t \<noteq> s" using Cons.prems(1) l r by force
      then show ?thesis using rest [OF r] by (simp add: set_log)
    qed
    obtain res' where "prune_logs policy now ls ?st = (res', st')" using cut(3) by blast
    then have "shortened ?st st'" by (rule Cons.IH [OF d, rotated]) (rule same)
    then show ?thesis by (rule shortened_trans [OF one])
  qed
qed

section \<open>Properties\<close>

definition plain_event :: "string \<Rightarrow> string \<Rightarrow> string \<Rightarrow> audit_event" where
  "plain_event i ev t =
     \<lparr>eventId = i, eventName = ev, stream = ''global'', auditableType = None, auditableId = None, oldValues = None,
      newValues = None, metadata = None, actor = \<lparr>actorType = ''system'', actorId = None, actorLabel = None\<rparr>,
      tenantId = None, requestId = None, correlationId = None, ipAddress = None, userAgent = None, url = None,
      httpMethod = None, tags = [], schemaVersion = ''1'', createdAt = t\<rparr>"

definition collector :: http_env where
  "collector = \<lparr>envVar = (\<lambda>_. None), hmac = (\<lambda>k t. t), fetch = (\<lambda>r. Response 202 None)\<rparr>"

definition small_window :: http_options where
  "small_window = \<lparr>optUrl = ''https://collector'', optHeaders = None, optSignature = None, optMaxRetained = Some 2,
     optIdempotencyHeader = None\<rparr>"

lemma plain_hashable [simp]: "hashable (plain_event i ev t)"
  by (simp add: hashable_def plain_event_def opt_obj_def)




text \<open>A store that has posted one event.\<close>

definition first_row :: "(string \<Rightarrow> string) \<Rightarrow> chained_event" where
  "first_row H = \<lparr>base = plain_event ''a'' ''login'' ''2024-01-01T00:00:00.000Z'', seq = 1,
     hash = projr (hashEntry H (plain_event ''a'' ''login'' ''2024-01-01T00:00:00.000Z'') 1 GENESIS), prevHash = GENESIS\<rparr>"

definition one_row :: "(string \<Rightarrow> string) \<Rightarrow> http_store" where
  "one_row H = (projr (http_new small_window))
     \<lparr>httpHeads := [(''global'', (1, hash (first_row H)))], httpLogs := [(''global'', [first_row H])]\<rparr>"

lemma one_row_log: "http_log (one_row H) s = (if s = ''global'' then [first_row H] else [])"
  by (simp add: one_row_def http_log_def)

lemma one_row_ok: "http_ok H (one_row H)"
proof -
  obtain h where "hashEntry H (plain_event ''a'' ''login'' ''2024-01-01T00:00:00.000Z'') 1 GENESIS = Inr h"
    using hashEntry_returns plain_hashable by blast
  then have r: "hashEntry H (base (first_row H)) 1 GENESIS = Inr (hash (first_row H))" "seq (first_row H) = 1" "prevHash (first_row H) = GENESIS"
    by (simp_all add: first_row_def)
  have "logs_of H (http_head (one_row H)) (http_log (one_row H))"
    unfolding logs_of_def
  proof (intro allI conjI)
    fix s
    show "http_head (one_row H) s = head_of (http_log (one_row H) s)"
      using r by (simp add: one_row_log head_of_def http_head_def) (simp add: one_row_def)
    show "\<exists>n p. linked_from H n p (http_log (one_row H) s) \<and> (http_log (one_row H) s = [] \<longrightarrow> n = 1 \<and> p = GENESIS)"
      using r by (intro exI [of _ 1] exI [of _ GENESIS]) (simp add: one_row_log)
  qed
  moreover have "distinct (map fst (httpLogs (one_row H)))" by (simp add: one_row_def)
  ultimately show ?thesis using r by (simp add: http_ok_def one_row_log sealed_def)
qed

definition keep_year :: prune_policy where
  "keep_year = \<lparr>ppRetention = \<lparr>retentionDefault = ''1 year'', retentionPerEvent = None\<rparr>,
     ppDryRun = False, ppArchive = None, ppEventFilter = None\<rparr>"


text \<open>
  Two writes to one stream whose requests are in flight together are chained onto the same head:
  once both have been accepted, the stream no longer verifies.
\<close>

theorem concurrent_writes_fork:
  assumes "http_prepare H st [e] = Inr c" "http_prepare H st [g] = Inr d" "stream e = stream g"
    and "maxRetainedPerStream st \<noteq> 1"
  shows "\<not> passes (http_verify H (http_commit d (http_commit c st)) (stream e) None None)"
proof -
  obtain ra ha rb hb where c: "c = (ra, ha)" and d: "d = (rb, hb)" by (cases c, cases d)
  obtain a where a: "ra = [a]" "base a = e" "seq a = (case http_head st (stream e) of None \<Rightarrow> 1 | Some (n, h) \<Rightarrow> n + 1)"
    using chain_groups_single [OF assms(1) [unfolded http_prepare_def c]] by blast
  obtain b where b: "rb = [b]" "base b = g" "seq b = (case http_head st (stream g) of None \<Rightarrow> 1 | Some (n, h) \<Rightarrow> n + 1)"
    using chain_groups_single [OF assms(2) [unfolded http_prepare_def d]] by blast
  have ab: "fst c = [a]" "fst d = [b]" "row_stream a = stream e" "row_stream b = stream e" "seq a = seq b"
    using a b c d assms(3) by simp_all
  let ?m = "maxRetainedPerStream st" and ?log = "http_log st (stream e)"
  have "http_log (http_commit d (http_commit c st)) (stream e) = trimmed ?m (trimmed ?m (?log @ [a]) @ [b])"
    using ab by (simp add: commit_log) (simp add: http_commit_def)
  also have "\<dots> = trimmed ?m (?log @ [a, b])" by (simp add: trimmed_again)
  finally have log: "http_log (http_commit d (http_commit c st)) (stream e) = trimmed ?m (?log @ [a, b])" .
  obtain zs where zs: "trimmed ?m (?log @ [a, b]) = zs @ [a, b]"
    using assms(4) by (cases "0 < ?m \<and> ?m < int (length ?log) + 2") (auto simp: trimmed_def nat_le_iff)
  have "\<not> linked_from H n p (zs @ [a, b])" for n p using ab(5) by simp
  then show ?thesis using verify_all_linked log zs by metis
qed

text \<open>
  A retention of its own for one event cuts rows out of the middle of a stream: what is left no
  longer verifies.
\<close>

theorem per_event_prune_breaks_window:
  assumes "httpLogs st = [(''global'', [a, b, c])]" "linked_from H n p [a, b, c]"
    and "cutoff_of (ppRetention policy) now (eventName (base a)) = Inr keep" "keep \<le> createdAt (base a)"
    and "cutoff_of (ppRetention policy) now (eventName (base b)) = Inr limit" "createdAt (base b) < limit"
    and "eventName (base c) = eventName (base a)" "ppEventFilter policy = None" "ppArchive policy = None" "\<not> ppDryRun policy"
  shows "\<not> passes (http_verify H (snd (http_prune policy now st)) ''global'' None None)"
proof -
  have "seq a \<noteq> seq c" "seq b \<noteq> seq c" using assms(2) by auto
  then have "split_expired policy now (seq c) [a, b, c] = Inr ([a, c], [b])"
    using assms(3-8) by (simp add: filtered_out_def not_le)
  then have "http_log (snd (http_prune policy now st)) ''global'' = [a, c]"
    using assms(9,10) by (simp add: http_prune_def assms(1) archive_pruned_def) (simp add: http_log_def)
  moreover have "\<not> linked_from H k q [a, c]" for k q using assms(2) by auto
  ultimately show ?thesis using verify_all_linked by metis
qed

end
