(* ===== verification/StreamStore.thy ===== *)
theory StreamStore
  imports HttpStore
begin

text \<open>
  \<open>src/stores/stream_store.ts\<close>: batches are chained onto heads in memory and appended, one JSON text
  per line, to a file (or a standard stream); the heads are kept in a sidecar file. The state holds
  the text that has reached the destination (an absent file being an empty one) and the sidecar.
  \<open>node:path\<close>'s \<open>resolve\<close> and what the file system does to a write are parameters; waiting for a
  stream to drain is not modelled. A \<open>seq\<close> read back from a file is taken to be a number.
\<close>

section \<open>Options and state\<close>

datatype destination = Stdout | Stderr | FileDest string | WritableDest
datatype dest_option = DestUndefined | DestString string | DestWritable
datatype stream_format = Ndjson | JsonFormat

record stream_options =
  optDestination :: dest_option
  optFormat :: "stream_format option"

record stream_store =
  destination :: destination
  streamFormat :: stream_format
  streamHeads :: heads
  fileStreamError :: "string option"
  sink :: string
  sidecar :: "string option"

definition isAbsolute :: "string \<Rightarrow> bool" where
  "isAbsolute p \<longleftrightarrow> (case p of [] \<Rightarrow> False | c # cs \<Rightarrow> c = CHR ''/'')"

definition resolveDestination :: "(string \<Rightarrow> string) \<Rightarrow> dest_option \<Rightarrow> destination" where
  "resolveDestination resolve d =
     (case d of
        DestUndefined \<Rightarrow> Stdout
      | DestWritable \<Rightarrow> WritableDest
      | DestString s \<Rightarrow>
          if s = ''stdout'' then Stdout
          else if s = ''stderr'' then Stderr
          else FileDest (if isAbsolute s then s else resolve s))"

definition sidecarPath :: "string \<Rightarrow> string" where
  "sidecarPath p = p @ ''.head.json''"

section \<open>The sidecar\<close>

definition head_state_json :: "chain_head \<Rightarrow> jsval" where
  "head_state_json h = JObj [(''seq'', JNum (fst h)), (''hash'', JStr (snd h))]"

definition head_of_json :: "jsval \<Rightarrow> chain_head" where
  "head_of_json v = (num_of (field ''seq'' v), str_of (field ''hash'' v))"

definition heads_json :: "heads \<Rightarrow> jsval" where
  "heads_json heads = JObj (foldl (\<lambda>data (s, h). obj_assign s (head_state_json h) data) [] heads)"

definition loadHeads :: "string option \<Rightarrow> heads" where
  "loadHeads sc =
     (case sc of
        None \<Rightarrow> []
      | Some t \<Rightarrow>
          (case json_parse t of
             Inl e \<Rightarrow> []
           | Inr v \<Rightarrow> foldl (\<lambda>m (s, x). AList.update s (head_of_json x) m) [] (own_props v)))"

definition persistHeads :: "audit_error option \<Rightarrow> stream_store \<Rightarrow> unit result \<times> stream_store" where
  "persistHeads failure st =
     (case destination st of
        FileDest p \<Rightarrow>
          (case failure of
             Some e \<Rightarrow> (Inl e, st)
           | None \<Rightarrow>
               (case json_str (heads_json (streamHeads st)) of
                  Inl e \<Rightarrow> (Inl e, st)
                | Inr t \<Rightarrow> (Inr (), st\<lparr>sidecar := t\<rparr>)))
      | _ \<Rightarrow> (Inr (), st))"

text \<open>The constructor, over the files there are.\<close>

definition stream_open :: "(string \<Rightarrow> string) \<Rightarrow> stream_options \<Rightarrow> (string \<Rightarrow> string option) \<Rightarrow> stream_store" where
  "stream_open resolve opts files =
     (let d = resolveDestination resolve (optDestination opts);
          format = (case optFormat opts of None \<Rightarrow> Ndjson | Some f \<Rightarrow> f)
      in case d of
           FileDest p \<Rightarrow>
             \<lparr>destination = d, streamFormat = format, streamHeads = loadHeads (files (sidecarPath p)), fileStreamError = None,
              sink = (case files p of None \<Rightarrow> [] | Some t \<Rightarrow> t), sidecar = files (sidecarPath p)\<rparr>
         | _ \<Rightarrow> \<lparr>destination = d, streamFormat = format, streamHeads = [], fileStreamError = None, sink = [], sidecar = None\<rparr>)"

section \<open>Writing lines\<close>

text \<open>
  What happens to one line of a file: an error event may have arrived before it; then the callback
  comes without an error, with one, or after an error event. An error may come after any number of
  characters have reached the file.
\<close>

datatype line_outcome = Flushed | CallbackFailed nat string | StreamFailed nat string

record line_env =
  errorBefore :: "string option"
  outcome :: line_outcome

definition store_failed :: "string \<Rightarrow> audit_error" where
  "store_failed m = AuditStoreError (''Stream store write failed: '' @ m)"

abbreviation newline :: char where "newline \<equiv> CHR 0x0A"

definition write_file_line :: "line_env \<Rightarrow> string \<Rightarrow> stream_store \<Rightarrow> unit result \<times> stream_store" where
  "write_file_line le payload st =
     (case (case errorBefore le of None \<Rightarrow> fileStreamError st | Some m \<Rightarrow> Some m) of
        Some m \<Rightarrow> (Inl (store_failed m), st\<lparr>fileStreamError := None\<rparr>)
      | None \<Rightarrow>
          (case outcome le of
             Flushed \<Rightarrow> (Inr (), st\<lparr>sink := sink st @ payload\<rparr>)
           | CallbackFailed n m \<Rightarrow> (Inl (store_failed m), st\<lparr>sink := sink st @ take n payload\<rparr>)
           | StreamFailed n m \<Rightarrow> (Inl (store_failed m), st\<lparr>sink := sink st @ take n payload, fileStreamError := None\<rparr>)))"

definition writeLine :: "line_env \<Rightarrow> string \<Rightarrow> stream_store \<Rightarrow> unit result \<times> stream_store" where
  "writeLine le line st =
     (let payload = line @ [newline] in
      case destination st of
        FileDest p \<Rightarrow> write_file_line le payload st
      | _ \<Rightarrow> (Inr (), st\<lparr>sink := sink st @ payload\<rparr>))"

fun write_rows :: "(nat \<Rightarrow> line_env) \<Rightarrow> chained_event list \<Rightarrow> stream_store \<Rightarrow> unit result \<times> stream_store" where
  "write_rows le [] st = (Inr (), st)"
| "write_rows le (r # rs) st =
     (case canonicalJson (JObj (chained_obj r)) of
        Inl e \<Rightarrow> (Inl e, st)
      | Inr t \<Rightarrow> sbind (writeLine (le 0) t st) (\<lambda>_ st. write_rows (\<lambda>i. le (Suc i)) rs st))"

definition writeEvents :: "(nat \<Rightarrow> line_env) \<Rightarrow> chained_event list \<Rightarrow> stream_store \<Rightarrow> unit result \<times> stream_store" where
  "writeEvents le rows st =
     (case streamFormat st of
        JsonFormat \<Rightarrow>
          (case canonicalJson (rows_json rows) of
             Inl e \<Rightarrow> (Inl e, st)
           | Inr t \<Rightarrow> writeLine (le 0) t st)
      | Ndjson \<Rightarrow> write_rows le rows st)"

section \<open>Writing a batch\<close>

record stream_env =
  lineEnvs :: "nat \<Rightarrow> line_env"
  persistFailure :: "audit_error option"

definition writeBatch ::
  "(string \<Rightarrow> string) \<Rightarrow> stream_env \<Rightarrow> audit_event list \<Rightarrow> stream_store \<Rightarrow> chained_event list result \<times> stream_store" where
  "writeBatch H env batch st =
     (if batch = [] then (Inr [], st)
      else case chain_groups H (map_of (streamHeads st)) (groupByStream batch) of
        Inl e \<Rightarrow> (Inl e, st)
      | Inr (rows, nextHeads) \<Rightarrow>
          sbind (writeEvents (lineEnvs env) rows st) (\<lambda>_ st.
          sbind (persistHeads (persistFailure env) (st\<lparr>streamHeads := set_heads nextHeads (streamHeads st)\<rparr>)) (\<lambda>_ st.
            (Inr rows, st))))"

text \<open>
  \<open>write\<close> puts each batch behind the one before, whether that succeeds or not: the batches are
  written in the order of the calls.
\<close>

fun stream_writes :: "(string \<Rightarrow> string) \<Rightarrow> (stream_env \<times> audit_event list) list \<Rightarrow> stream_store
    \<Rightarrow> chained_event list result list \<times> stream_store" where
  "stream_writes H [] st = ([], st)"
| "stream_writes H ((env, batch) # ws) st =
     (let (res, st) = writeBatch H env batch st; (rest, st) = stream_writes H ws st in (res # rest, st))"

definition stream_head :: "stream_store \<Rightarrow> string \<Rightarrow> chain_head option" where
  "stream_head st s = map_of (streamHeads st) s"

definition stream_prune :: "stream_store \<Rightarrow> prune_policy \<Rightarrow> prune_report result \<times> stream_store" where
  "stream_prune st policy = (Inr \<lparr>prunedStreams = [], totalPruned = 0, perEventCounts = []\<rparr>, st)"

section \<open>Reading and verifying\<close>

fun split_on :: "char \<Rightarrow> string \<Rightarrow> string list" where
  "split_on c [] = [[]]"
| "split_on c (x # xs) =
     (if x = c then [] # split_on c xs
      else case split_on c xs of [] \<Rightarrow> [[x]] | l # ls \<Rightarrow> (x # l) # ls)"

text \<open>The values of a line; reading \<open>stream\<close> of \<open>null\<close> throws, and the rest of the line is skipped.\<close>

definition line_values :: "string \<Rightarrow> jsval list" where
  "line_values line =
     (case json_parse line of
        Inl e \<Rightarrow> []
      | Inr v \<Rightarrow> takeWhile (\<lambda>x. x \<noteq> JNull) (case v of JArr xs \<Rightarrow> xs | _ \<Rightarrow> [v]))"

definition readFileEvents :: "stream_store \<Rightarrow> string \<Rightarrow> int option \<Rightarrow> int option \<Rightarrow> chained_event list" where
  "readFileEvents st s fromSeq toSeq =
     (let lines = filter (\<lambda>line. trim line \<noteq> []) (split_on newline (sink st));
          events = map chained_of (filter (\<lambda>v. field ''stream'' v = JStr s) (concat (map line_values lines)))
      in sort_key seq (filter (in_bounds fromSeq toSeq) events))"

definition stream_verify ::
  "(string \<Rightarrow> string) \<Rightarrow> stream_store \<Rightarrow> string \<Rightarrow> int option \<Rightarrow> int option \<Rightarrow> verify_report list \<times> audit_error option" where
  "stream_verify H st s fromSeq toSeq =
     (case destination st of
        FileDest p \<Rightarrow>
          (let res = verifyChain H (readFileEvents st s fromSeq toSeq) in
           if res = ([], None) then ([empty_report s], None) else res)
      | _ \<Rightarrow> ([empty_report s], None))"

section \<open>JSON texts stay on one line\<close>

lemma join_chars: "c \<notin> set sep \<Longrightarrow> list_all (\<lambda>t. c \<notin> set t) ts \<Longrightarrow> c \<notin> set (join sep ts)"
  by (induction sep ts rule: join.induct) auto

lemma newline_code: "char_code newline = 10"
  by (simp add: char_code_def)

lemma esc_char_line: "newline \<notin> set (esc_char c)"
proof (cases "c = newline")
  case True
  then show ?thesis by (simp add: esc_char_def newline_code)
next
  case False
  have h: "newline \<noteq> hex_char n" if "n < 16" for n
  proof -
    have "48 \<le> char_code (hex_char n)" using that by (simp add: hex_char_def digit_char_def)
    then show ?thesis using newline_code by auto
  qed
  have "char_code c div 16 < 16" "char_code c mod 16 < 16" by (auto intro: less_mult_imp_div_less)
  then show ?thesis using False h [of "char_code c div 16"] h [of "char_code c mod 16"] by (auto simp: esc_char_def)
qed

lemma json_quote_line: "newline \<notin> set (json_quote s)"
  using esc_char_line by (auto simp: json_quote_def esc_def)

lemma int_str_line: "newline \<notin> set (int_str n)"
proof -
  have "\<not> is_digit newline" by (simp add: is_digit_def newline_code)
  then have "newline \<notin> set (nat_str k)" for k using nat_str_digits [of k] by (auto simp: list_all_iff)
  then show ?thesis by (simp add: int_str_def)
qed

lemma json_lines:
  "json_str v = Inr (Some t) \<Longrightarrow> newline \<notin> set t"
  "json_items xs = Inr ts \<Longrightarrow> list_all (\<lambda>t. newline \<notin> set t) ts"
  "json_members fs = Inr ts \<Longrightarrow> list_all (\<lambda>t. newline \<notin> set t) ts"
proof (induction v and xs and fs arbitrary: t and ts and ts rule: json_str_json_items_json_members.induct)
  case (4 n)
  then show ?case using int_str_line by auto
next
  case (6 s)
  then show ?case using json_quote_line by auto
next
  case (10 d)
  then show ?case using json_quote_line by auto
next
  case (11 name ti fs)
  then show ?case by (auto simp: result_iff json_quote_line join_chars split: option.splits)
next
  case (12 xs)
  then show ?case by (auto simp: result_iff join_chars)
next
  case (13 fs)
  then show ?case by (auto simp: result_iff join_chars)
next
  case (15 x xs)
  then show ?case by (auto simp: result_iff split: option.splits)
next
  case (17 k x fs)
  then show ?case by (auto simp: result_iff json_quote_line split: option.splits)
qed simp_all

lemma canonicalJson_line: "canonicalJson v = Inr t \<Longrightarrow> newline \<notin> set t"
  using json_lines(1) by (fastforce simp: canonicalJson_def result_iff split: option.splits)

end
