(* ===== verification/StreamFile.thy ===== *)
theory StreamFile
  imports StreamStore
begin

text \<open>
  What the file store guarantees: the file is a refinement of the list of rows written to it, the
  sidecar of the heads in memory. The store is an interpretation of \<open>chained_store\<close> over runs of
  batches in between which the process may be restarted.
\<close>

section \<open>The sidecar keeps the heads\<close>

definition head_object :: "jsobj \<Rightarrow> bool" where
  "head_object ob \<longleftrightarrow> props_ok ob \<and> (\<forall>k x. map_of ob k = Some x \<longrightarrow> (\<exists>h. x = head_state_json h))"

lemma head_state_json_value [simp]: "json_value (head_state_json h)" "json_image (head_state_json h) = head_state_json h"
  "head_of_json (head_state_json h) = h" "head_state_json h = head_state_json h' \<longleftrightarrow> h = h'"
  by (auto simp: head_state_json_def head_of_json_def props_ok_def key_before_def is_index_key_def is_digit_def char_code_def prod_eq_iff)

lemma head_object_assign: "head_object ob \<Longrightarrow> head_object (obj_assign s (head_state_json h) ob)"
  by (auto simp: head_object_def obj_assign_ok)

definition assign_heads :: "heads \<Rightarrow> jsobj \<Rightarrow> jsobj" where
  "assign_heads heads ob = foldl (\<lambda>data (s, h). obj_assign s (head_state_json h) data) ob heads"

lemma assign_heads_object: "head_object ob \<Longrightarrow> head_object (assign_heads heads ob)"
  unfolding assign_heads_def by (induction heads arbitrary: ob) (auto simp: head_object_assign)

lemma assign_heads_lookup:
  "distinct (map fst heads) \<Longrightarrow> ''__proto__'' \<notin> fst ` set heads \<Longrightarrow>
   map_of (assign_heads heads ob) s = (case map_of heads s of None \<Rightarrow> map_of ob s | Some h \<Rightarrow> Some (head_state_json h))"
  unfolding assign_heads_def
proof (induction heads arbitrary: ob)
  case (Cons g heads)
  have "map_of heads (fst g) = None" using Cons.prems by (simp add: map_of_eq_None_iff)
  then show ?case using Cons by (cases g) (auto split: option.splits)
qed simp

lemma load_object:
  assumes "head_object ob"
  shows "map_of (foldl (\<lambda>m (s, x). AList.update s (head_of_json x) m) [] ob) s = map_option head_of_json (map_of ob s)"
proof -
  have "foldl (\<lambda>m (s, x). AList.update s (head_of_json x) m) m0 xs = set_heads (map (\<lambda>(s, x). (s, head_of_json x)) xs) m0" for m0 :: heads and xs
    by (induction xs arbitrary: m0) (auto simp: set_heads_def)
  moreover have "distinct (map fst (map (\<lambda>(s, x). (s, head_of_json x)) ob))"
    using assms by (simp add: head_object_def props_ok_def split_beta comp_def)
  ultimately show ?thesis by (simp add: set_heads_lookup map_of_map)
qed

lemma sidecar_roundtrip:
  assumes "distinct (map fst heads)" "''__proto__'' \<notin> fst ` set heads"
  shows "\<exists>t. json_str (heads_json heads) = Inr (Some t) \<and> map_of (loadHeads (Some t)) = map_of heads"
proof -
  let ?ob = "assign_heads heads []"
  have eq: "heads_json heads = JObj ?ob" by (simp add: heads_json_def assign_heads_def)
  have ok: "head_object ?ob" by (rule assign_heads_object) (simp add: head_object_def)
  then have d: "distinct (map fst ?ob)" by (simp add: head_object_def props_ok_def)
  have vals: "\<exists>h. snd p = head_state_json h" if "p \<in> set ?ob" for p
  proof -
    have "map_of ?ob (fst p) = Some (snd p)" using that d by (intro map_of_is_SomeI) simp_all
    then show ?thesis using ok unfolding head_object_def by blast
  qed
  have "json_value (JObj ?ob)" using ok vals by (fastforce simp: head_object_def list_all_iff)
  then obtain t where t: "json_str (JObj ?ob) = Inr (Some t)" "json_parse t = Inr (json_image (JObj ?ob))"
    using json_roundtrip_image by blast
  have "map (\<lambda>(k, x). (k, json_image x)) ?ob = ?ob"
    using vals by (intro map_idI) fastforce
  then have "json_parse t = Inr (JObj ?ob)" using t(2) by simp
  then have "map_of (loadHeads (Some t)) s = map_of heads s" for s
    using load_object [OF ok, of s] assign_heads_lookup [OF assms, of "[]" s]
    by (simp add: loadHeads_def own_props_def split: option.split)
  then show ?thesis using t(1) eq by auto
qed

section \<open>The file holds the rows\<close>

lemma split_lines:
  "list_all (\<lambda>l. newline \<notin> set l) ls \<Longrightarrow> split_on newline (concat (map (\<lambda>l. l @ [newline]) ls)) = ls @ [[]]"
proof (induction ls)
  case (Cons l ls)
  have "split_on newline (l @ newline # r) = l # split_on newline r" if "newline \<notin> set l" for r
    using that by (induction l) auto
  then show ?case using Cons by simp
qed simp

lemma trim_nonempty: "c \<in> set s \<Longrightarrow> \<not> is_space c \<Longrightarrow> trim s \<noteq> []"
proof -
  assume c: "c \<in> set s" "\<not> is_space c"
  then have "dropWhile is_space s \<noteq> []" by auto
  then have "\<not> is_space (hd (dropWhile is_space s))" "hd (dropWhile is_space s) \<in> set (rev (dropWhile is_space s))"
    by (simp_all add: hd_dropWhile)
  then show "trim s \<noteq> []" unfolding trim_def by (auto simp: dropWhile_eq_Nil_conv)
qed

text \<open>The canonical text of an object or an array: one line, read back as the canonical value.\<close>

lemma canonical_line:
  assumes "canonical_ok v" "(\<exists>fs. canon v = JObj fs) \<or> (\<exists>xs. canon v = JArr xs)"
  obtains t where "canonicalJson v = Inr t" "newline \<notin> set t" "trim t \<noteq> []" "json_parse t = Inr (canon v)"
proof -
  obtain w t where w: "json_value w" "json_image w = canon v" "json_str w = Inr (Some t)" "canonicalJson v = Inr t"
    "json_parse t = Inr (canon v)"
    using canonicalJson_canon [OF assms(1)] by blast
  have "(\<exists>fs. w = JObj fs) \<or> (\<exists>xs. w = JArr xs)" using assms(2) w(1,2) by (cases w) auto
  then have "\<exists>c \<in> {CHR ''{'', CHR ''[''}. c \<in> set t" using w(3) by (auto simp: result_iff)
  moreover have "\<not> is_space (CHR ''{'')" "\<not> is_space (CHR ''['')" by (simp_all add: is_space_def char_code_def)
  ultimately have "trim t \<noteq> []" using trim_nonempty by blast
  then show thesis using that w(4,5) canonicalJson_line by blast
qed

lemma canon_row_obj: "hashable (base r) \<Longrightarrow> \<exists>fs. canon (JObj (chained_obj r)) = JObj fs"
  using canon_obj [OF chained_obj_ok [THEN iffD2]] by blast

lemma rows_json_ok: "list_all (\<lambda>r. hashable (base r)) rows \<Longrightarrow> canonical_ok (rows_json rows)"
  using chained_obj_ok by (simp add: rows_json_def list_all_iff)

lemma canon_rows:
  "list_all (\<lambda>r. hashable (base r)) rows \<Longrightarrow> canon (rows_json rows) = JArr (map (\<lambda>r. canon (JObj (chained_obj r))) rows)"
  using canon_arr [of "map (\<lambda>r. JObj (chained_obj r)) rows"] rows_json_ok [of rows] by (simp add: rows_json_def comp_def)

lemma takeWhile_objects:
  "list_all (\<lambda>r. hashable (base r)) rows \<Longrightarrow>
   takeWhile (\<lambda>x. x \<noteq> JNull) (map (\<lambda>r. canon (JObj (chained_obj r))) rows) = map (\<lambda>r. canon (JObj (chained_obj r))) rows"
  using canon_row_obj by (intro takeWhile_eq_all_conv [THEN iffD2]) (fastforce simp: list_all_iff)

definition holds_rows :: "string \<Rightarrow> chained_event list \<Rightarrow> bool" where
  "holds_rows t rows \<longleftrightarrow> (\<exists>ls. t = concat (map (\<lambda>l. l @ [newline]) ls)
     \<and> list_all (\<lambda>l. newline \<notin> set l \<and> trim l \<noteq> []) ls
     \<and> concat (map line_values ls) = map (\<lambda>r. canon (JObj (chained_obj r))) rows)"

lemma holds_rows_Nil: "holds_rows [] []"
  unfolding holds_rows_def by (intro exI [of _ "[]"]) simp

lemma holds_rows_line:
  assumes "holds_rows t rows" "newline \<notin> set l" "trim l \<noteq> []" "line_values l = map (\<lambda>r. canon (JObj (chained_obj r))) extra"
  shows "holds_rows (t @ l @ [newline]) (rows @ extra)"
proof -
  obtain ls where "t = concat (map (\<lambda>l. l @ [newline]) ls)" "list_all (\<lambda>l. newline \<notin> set l \<and> trim l \<noteq> []) ls"
    "concat (map line_values ls) = map (\<lambda>r. canon (JObj (chained_obj r))) rows"
    using assms(1) unfolding holds_rows_def by blast
  then show ?thesis unfolding holds_rows_def using assms(2-4) by (intro exI [of _ "ls @ [l]"]) simp
qed

lemma row_line:
  assumes "hashable (base r)"
  obtains t where "canonicalJson (JObj (chained_obj r)) = Inr t" "newline \<notin> set t" "trim t \<noteq> []"
    "line_values t = map (\<lambda>r. canon (JObj (chained_obj r))) [r]"
proof -
  obtain fs where fs: "canon (JObj (chained_obj r)) = JObj fs" using canon_row_obj [OF assms] by blast
  obtain t where t: "canonicalJson (JObj (chained_obj r)) = Inr t" "newline \<notin> set t" "trim t \<noteq> []" "json_parse t = Inr (JObj fs)"
    using canonical_line [OF chained_obj_ok [THEN iffD2, OF assms]] fs by metis
  then have "line_values t = map (\<lambda>r. canon (JObj (chained_obj r))) [r]" by (simp add: line_values_def fs)
  then show thesis using t that by blast
qed

lemma rows_line:
  assumes "list_all (\<lambda>r. hashable (base r)) rows"
  obtains t where "canonicalJson (rows_json rows) = Inr t" "newline \<notin> set t" "trim t \<noteq> []"
    "line_values t = map (\<lambda>r. canon (JObj (chained_obj r))) rows"
proof -
  obtain t where t: "canonicalJson (rows_json rows) = Inr t" "newline \<notin> set t" "trim t \<noteq> []"
    "json_parse t = Inr (JArr (map (\<lambda>r. canon (JObj (chained_obj r))) rows))"
    using canonical_line [OF rows_json_ok [OF assms]] canon_rows [OF assms] by metis
  then have "line_values t = map (\<lambda>r. canon (JObj (chained_obj r))) rows"
    using takeWhile_objects [OF assms] by (simp add: line_values_def)
  then show thesis using t that by blast
qed

text \<open>A row as it is read back: with its payloads in canonical form.\<close>

definition read_back :: "chained_event \<Rightarrow> chained_event" where
  "read_back r = r\<lparr>base := canon_event (base r)\<rparr>"

lemma read_back_simps [simp]: "seq (read_back r) = seq r" "hash (read_back r) = hash r" "row_stream (read_back r) = row_stream r"
  by (simp_all add: read_back_def canon_event_def)

lemma canon_row_stream: "hashable (base r) \<Longrightarrow> field ''stream'' (canon (JObj (chained_obj r))) = JStr (row_stream r)"
  using field_canon [OF chained_obj_ok [THEN iffD2] chained_obj_distinct, of r "''stream''"] event_fields(3) [of "base r" "[]"]
  by (simp add: chained_event_fields del: field_JObj)

lemma linked_from_least: "linked_from H n p rows \<Longrightarrow> x \<in> set rows \<Longrightarrow> n \<le> seq x"
proof (induction rows arbitrary: n p)
  case (Cons r rows)
  show ?case
  proof (cases "x = r")
    case False
    then have "n + 1 \<le> seq x" using Cons.prems by (intro Cons.IH [of "n + 1" "hash r"]) simp_all
    then show ?thesis by simp
  qed (use Cons.prems in simp)
qed simp

lemma linked_sorted: "linked_from H n p rows \<Longrightarrow> sorted (map seq rows)"
proof (induction rows arbitrary: n p)
  case (Cons r rows)
  have l: "linked_from H (n + 1) (hash r) rows" "seq r = n" using Cons.prems by simp_all
  have "seq r \<le> seq x" if "x \<in> set rows" for x
    using linked_from_least [OF l(1) that] l(2) by simp
  then show ?case using Cons.IH [OF l(1)] by simp
qed simp

lemma read_rows:
  assumes "holds_rows (sink st) rows" "list_all (\<lambda>r. hashable (base r)) rows"
  shows "readFileEvents st s f t = sort_key seq (filter (in_bounds f t) (map read_back (of_stream s rows)))"
proof -
  obtain ls where ls: "sink st = concat (map (\<lambda>l. l @ [newline]) ls)" "list_all (\<lambda>l. newline \<notin> set l \<and> trim l \<noteq> []) ls"
    "concat (map line_values ls) = map (\<lambda>r. canon (JObj (chained_obj r))) rows"
    using assms(1) unfolding holds_rows_def by blast
  have "split_on newline (sink st) = ls @ [[]]" unfolding ls(1) by (rule split_lines) (use ls(2) in \<open>simp add: list_all_iff\<close>)
  moreover have "filter (\<lambda>line. trim line \<noteq> []) (ls @ [[]]) = ls"
    using ls(2) by (simp add: trim_def list_all_iff filter_id_conv)
  moreover have "filter (\<lambda>v. field ''stream'' v = JStr s) (map (\<lambda>r. canon (JObj (chained_obj r))) rows)
      = map (\<lambda>r. canon (JObj (chained_obj r))) (of_stream s rows)"
    using assms(2) canon_row_stream by (induction rows) auto
  moreover have "map chained_of (map (\<lambda>r. canon (JObj (chained_obj r))) (of_stream s rows)) = map read_back (of_stream s rows)"
    unfolding map_map comp_def using assms(2) chained_of_canon
    by (intro map_cong) (simp_all add: of_stream_def list_all_iff read_back_def)
  ultimately show ?thesis unfolding readFileEvents_def Let_def by (simp only: ls(3))
qed

lemma read_linked_rows:
  assumes "linked H (of_stream s rows)"
  shows "sort_key seq (filter (in_bounds f t) (map read_back (of_stream s rows)))
      = filter (in_bounds f t) (map read_back (of_stream s rows))"
proof (rule sort_key_id_if_sorted)
  have "sorted (map seq (of_stream s rows))" using assms linked_sorted unfolding linked_def by blast
  then have "sorted (map seq (map read_back (of_stream s rows)))" by (simp add: comp_def)
  then show "sorted (map seq (filter (in_bounds f t) (map read_back (of_stream s rows))))" by (rule sorted_filter)
qed

section \<open>Writing to the file\<close>

text \<open>No line and no sidecar fails. A reopened store has the heads of the sidecar.\<close>

definition clean_env :: stream_env where
  "clean_env = \<lparr>lineEnvs = (\<lambda>_. \<lparr>errorBefore = None, outcome = Flushed\<rparr>), persistFailure = None\<rparr>"

definition stream_reopen :: "stream_store \<Rightarrow> stream_store" where
  "stream_reopen st = st\<lparr>streamHeads := loadHeads (sidecar st), fileStreamError := None\<rparr>"

definition good_row :: "chained_event \<Rightarrow> bool" where
  "good_row r \<longleftrightarrow> hashable (base r) \<and> payloads_wf (base r) \<and> row_stream r \<noteq> ''__proto__''"

definition stream_holds :: "(string \<Rightarrow> string) \<Rightarrow> stream_store \<Rightarrow> chained_event list \<Rightarrow> bool" where
  "stream_holds H st rows \<longleftrightarrow>
     (\<exists>p. destination st = FileDest p) \<and> fileStreamError st = None
     \<and> holds_rows (sink st) rows \<and> list_all good_row rows
     \<and> distinct (map fst (streamHeads st)) \<and> map_of (loadHeads (sidecar st)) = map_of (streamHeads st)
     \<and> (\<forall>s. linked H (of_stream s rows) \<and> map_of (streamHeads st) s = head_of (of_stream s rows))"

lemma stream_holdsD:
  assumes "stream_holds H st rows"
  shows "\<exists>p. destination st = FileDest p" "fileStreamError st = None" "holds_rows (sink st) rows" "list_all good_row rows"
    "list_all (\<lambda>r. hashable (base r)) rows" "distinct (map fst (streamHeads st))"
    "map_of (loadHeads (sidecar st)) = map_of (streamHeads st)" "linked H (of_stream s rows)"
    "map_of (streamHeads st) s = head_of (of_stream s rows)"
  using assms by (auto simp: stream_holds_def good_row_def list_all_iff)

lemma write_clean_line:
  "destination st = FileDest p \<Longrightarrow> fileStreamError st = None \<Longrightarrow>
   writeLine (lineEnvs clean_env i) line st = (Inr (), st\<lparr>sink := sink st @ line @ [newline]\<rparr>)"
  by (simp add: writeLine_def write_file_line_def clean_env_def)

lemma write_rows_clean:
  assumes "destination st = FileDest p" "fileStreamError st = None" "holds_rows (sink st) old" "list_all (\<lambda>r. hashable (base r)) rows"
  shows "\<exists>t. write_rows (\<lambda>i. lineEnvs clean_env 0) rows st = (Inr (), st\<lparr>sink := t\<rparr>) \<and> holds_rows t (old @ rows)"
  using assms
proof (induction rows arbitrary: st old)
  case Nil
  then show ?case by (intro exI [of _ "sink st"]) simp
next
  case (Cons r rows)
  obtain l where l: "canonicalJson (JObj (chained_obj r)) = Inr l" "newline \<notin> set l" "trim l \<noteq> []"
    "line_values l = map (\<lambda>r. canon (JObj (chained_obj r))) [r]"
    using row_line [of r] Cons.prems(4) by auto
  let ?st = "st\<lparr>sink := sink st @ l @ [newline]\<rparr>"
  have "holds_rows (sink ?st) (old @ [r])" using holds_rows_line [OF Cons.prems(3) l(2-4)] by simp
  then obtain t where "write_rows (\<lambda>i. lineEnvs clean_env 0) rows ?st = (Inr (), ?st\<lparr>sink := t\<rparr>)" "holds_rows t ((old @ [r]) @ rows)"
    using Cons.IH [of ?st "old @ [r]"] Cons.prems by auto
  then show ?case
    using l(1) write_clean_line [OF Cons.prems(1,2), of 0 l] by (intro exI [of _ t]) simp
qed

lemma clean_same: "lineEnvs clean_env = (\<lambda>i. lineEnvs clean_env 0)"
  by (simp add: clean_env_def)

lemma writeEvents_clean:
  assumes "destination st = FileDest p" "fileStreamError st = None" "holds_rows (sink st) old" "list_all (\<lambda>r. hashable (base r)) rows"
  shows "\<exists>t. writeEvents (lineEnvs clean_env) rows st = (Inr (), st\<lparr>sink := t\<rparr>) \<and> holds_rows t (old @ rows)"
proof (cases "streamFormat st")
  case Ndjson
  then show ?thesis using write_rows_clean [OF assms] by (simp add: writeEvents_def clean_same [symmetric])
next
  case JsonFormat
  obtain l where l: "canonicalJson (rows_json rows) = Inr l" "newline \<notin> set l" "trim l \<noteq> []"
    "line_values l = map (\<lambda>r. canon (JObj (chained_obj r))) rows"
    using rows_line [OF assms(4)] by blast
  then show ?thesis
    using holds_rows_line [OF assms(3) l(2-4)] write_clean_line [OF assms(1,2), of 0 l]
    by (intro exI [of _ "sink st @ l @ [newline]"]) (simp add: writeEvents_def JsonFormat)
qed

definition fit_event :: "audit_event \<Rightarrow> bool" where
  "fit_event e \<longleftrightarrow> payloads_wf e \<and> stream e \<noteq> ''__proto__''"

lemma chain_groups_good:
  assumes "chain_groups H heads_of (groupByStream b) = Inr (rows, hs)" "list_all fit_event b"
  shows "list_all good_row rows" "fst ` set hs = stream ` set b"
proof -
  have "hashable (base r)" if "r \<in> set rows" for r
  proof -
    have "sealed H r" using that chain_groups_sealed [OF assms(1)] by (simp add: list_all_iff)
    then show ?thesis using hashEntry_returns unfolding sealed_def by blast
  qed
  moreover have "fit_event (base r)" if "r \<in> set rows" for r
    using that chained_batch(2) [OF assms(1)] assms(2) by (auto simp: list_all_iff)
  ultimately show "list_all good_row rows" by (simp add: good_row_def fit_event_def list_all_iff)
  have "map fst hs = map fst (groupByStream b)"
    using chain_groups_streams [OF assms(1) _ group_by_stream] by (simp add: groupByStream_def)
  then have "set (map fst hs) = set (map fst (groupByStream b))" by (rule arg_cong)
  then show "fst ` set hs = stream ` set b" by (simp add: groupByStream_def)
qed

lemma set_heads_distinct: "distinct (map fst heads) \<Longrightarrow> distinct (map fst (set_heads new heads))"
  unfolding set_heads_def by (induction new arbitrary: heads) auto

lemma writeBatch_clean:
  assumes "stream_holds H st rows" "list_all fit_event b"
  obtains (same) res where "writeBatch H clean_env b st = (res, st)" "\<And>new. res = Inr new \<Longrightarrow> new = []"
  | (appended) new st' where "writeBatch H clean_env b st = (Inr new, st')" "stream_holds H st' (rows @ new)"
proof (cases "b = [] \<or> (\<exists>e. chain_groups H (map_of (streamHeads st)) (groupByStream b) = Inl e)")
  case True
  show thesis
  proof (cases "b = []")
    case True
    then show thesis by (intro same [of "Inr []"]) (simp_all add: writeBatch_def)
  next
    case False
    with True obtain e where "chain_groups H (map_of (streamHeads st)) (groupByStream b) = Inl e" by blast
    then show thesis using False by (intro same [of "Inl e"]) (simp_all add: writeBatch_def)
  qed
next
  case False
  then obtain new hs where g: "chain_groups H (map_of (streamHeads st)) (groupByStream b) = Inr (new, hs)"
    by (cases "chain_groups H (map_of (streamHeads st)) (groupByStream b)") auto
  note h = stream_holdsD [OF assms(1)] and good = chain_groups_good [OF g assms(2)] and c = chained_batch [OF g]
  obtain p where p: "destination st = FileDest p" using h(1) by blast
  have "list_all (\<lambda>r. hashable (base r)) new" using good(1) by (simp add: good_row_def list_all_iff)
  then obtain t where t: "writeEvents (lineEnvs clean_env) new st = (Inr (), st\<lparr>sink := t\<rparr>)" "holds_rows t (rows @ new)"
    using writeEvents_clean [OF p h(2,3)] by blast
  let ?heads = "set_heads hs (streamHeads st)"
  have look: "map_of ?heads s = (case map_of hs s of None \<Rightarrow> map_of (streamHeads st) s | Some x \<Rightarrow> Some x)" for s
    by (simp add: set_heads_lookup [OF c(1)] map_add_def)
  have d: "distinct (map fst ?heads)" by (rule set_heads_distinct [OF h(6)])
  have np: "map_of ?heads ''__proto__'' = None"
  proof -
    have "of_stream ''__proto__'' (rows @ new) = []"
      using h(4) good(1) by (auto simp: of_stream_def filter_empty_conv good_row_def list_all_iff)
    then show ?thesis using h(9) [of "''__proto__''"] c(3) [of "''__proto__''"] by (simp add: look head_of_def)
  qed
  then have "''__proto__'' \<notin> fst ` set ?heads" by (simp add: map_of_eq_None_iff)
  then obtain sc where sc: "json_str (heads_json ?heads) = Inr (Some sc)" "map_of (loadHeads (Some sc)) = map_of ?heads"
    using sidecar_roundtrip [OF d] by blast
  have "writeBatch H clean_env b st = (Inr new, st\<lparr>sink := t, streamHeads := ?heads, sidecar := Some sc\<rparr>)"
    using False t(1) sc(1) by (simp add: writeBatch_def g persistHeads_def p clean_env_def)
  moreover have "linked H (of_stream s (rows @ new)) \<and> map_of ?heads s = head_of (of_stream s (rows @ new))" for s
  proof (cases "of_stream s new = []")
    case True
    then show ?thesis using h(8,9) [of s] c(3) [OF True] by (simp add: look)
  next
    case False
    have "chainBatch H (filter (\<lambda>e. stream e = s) b) (head_of (of_stream s rows)) = Inr (of_stream s new)"
      using c(6) [OF False] h(9) [of s] by simp
    then show ?thesis using chainBatch_linked [OF h(8)] False c(4) [OF False] by (simp add: look head_of_def)
  qed
  ultimately show thesis
    using appended h(1,2,4) t(2) good(1) d sc(2) by (auto simp: stream_holds_def)
qed

lemma reopen_holds: "stream_holds H st rows \<Longrightarrow> distinct (map fst (loadHeads (sidecar st))) \<Longrightarrow> stream_holds H (stream_reopen st) rows"
  by (simp add: stream_holds_def stream_reopen_def)

lemma load_distinct: "distinct (map fst (loadHeads sc))"
proof -
  have "distinct (map fst (foldl (\<lambda>m (s, x). AList.update s (head_of_json x) m) m0 xs))" if "distinct (map fst m0)"
    for m0 :: heads and xs
    using that by (induction xs arbitrary: m0) auto
  from this [of "[]"] show ?thesis by (simp add: loadHeads_def split: option.split sum.split)
qed

section \<open>Runs with restarts\<close>

definition stream_ok :: "(string \<Rightarrow> string) \<Rightarrow> stream_store \<Rightarrow> bool" where
  "stream_ok H st \<longleftrightarrow> (\<exists>rows. stream_holds H st rows)"

definition write_maybe_restarted :: "(string \<Rightarrow> string) \<Rightarrow> bool \<Rightarrow> audit_event list \<Rightarrow> stream_store \<Rightarrow> chained_event list result \<times> stream_store" where
  "write_maybe_restarted H restarted b st = writeBatch H clean_env b (if restarted then stream_reopen st else st)"

lemma clean_batch_holds:
  assumes "stream_holds H st rows" "list_all fit_event b" "writeBatch H clean_env b st = (res, st')"
  shows "stream_holds H st' (rows @ (case res of Inl e \<Rightarrow> [] | Inr new \<Rightarrow> new))"
proof (rule writeBatch_clean [OF assms(1,2)])
  fix res'
  assume w: "writeBatch H clean_env b st = (res', st)" "\<And>new. res' = Inr new \<Longrightarrow> new = []"
  then have "(case res of Inl e \<Rightarrow> [] | Inr new \<Rightarrow> new) = []" using assms(3) by (simp split: sum.split)
  then show ?thesis using assms(1,3) w(1) by simp
next
  fix new st''
  assume "writeBatch H clean_env b st = (Inr new, st'')" "stream_holds H st'' (rows @ new)"
  then show ?thesis using assms(3) by simp
qed

lemma restarted_holds:
  assumes "stream_holds H st rows" "list_all fit_event b"
  shows "stream_holds H (snd (write_maybe_restarted H restarted b st))
    (rows @ (case fst (write_maybe_restarted H restarted b st) of Inl e \<Rightarrow> [] | Inr new \<Rightarrow> new))"
proof -
  have "stream_holds H (if restarted then stream_reopen st else st) rows"
    using assms(1) reopen_holds load_distinct by simp
  from clean_batch_holds [OF this assms(2) prod.collapse [symmetric]] show ?thesis
    by (simp add: write_maybe_restarted_def)
qed

lemma holds_read:
  assumes "stream_holds H st rows"
  shows "readFileEvents st s f t = filter (in_bounds f t) (map read_back (of_stream s rows))"
  using read_rows read_linked_rows stream_holdsD [OF assms] by metis

lemma all_in_bounds [simp]: "in_bounds None None r" "filter (in_bounds None None) rows = rows"
  by (simp_all add: in_bounds_def)

lemma prefix_range: "linked_from H n p rows \<Longrightarrow> linked_from H n p (filter (in_bounds None t) rows)"
proof (cases "rows = []")
  case False
  assume l: "linked_from H n p rows"
  show ?thesis
  proof (cases "in_bounds None t (hd rows)")
    case True
    then show ?thesis using range_linked [OF l False] by simp
  next
    case no: False
    then obtain k where "t = Some k" "k < n" using l False by (cases rows) (auto simp: in_bounds_def split: option.splits)
    then show ?thesis using beyond_range [OF l] by simp
  qed
qed simp

lemma read_back_linked:
  "list_all good_row rows \<Longrightarrow> linked_from H n p (map read_back rows) = linked_from H n p rows"
proof (induction rows arbitrary: n p)
  case (Cons r rows)
  have "hashEntry H (canon_event (base r)) m q = hashEntry H (base r) m q" for m q
    using Cons.prems canon_event_text(3) [of "base r"] by (simp add: good_row_def hashEntry_def)
  then show ?case using Cons by (simp add: read_back_def)
qed simp

lemma stream_all: "list_all P rows \<Longrightarrow> list_all P (of_stream s rows)"
  by (simp add: of_stream_def list_all_iff)

interpretation stream: chained_store H "write_maybe_restarted H" "\<lambda>st s. readFileEvents st s None None" "stream_ok H" fit_event
proof
  fix st b env
  assume "stream_ok H st" "list_all fit_event b"
  then show "stream_ok H (snd (write_maybe_restarted H env b st))"
    unfolding stream_ok_def using restarted_holds by blast
next
  fix st s
  assume "stream_ok H st"
  then obtain rows where h: "stream_holds H st rows" unfolding stream_ok_def by blast
  have "linked_from H 1 GENESIS (readFileEvents st s None None)"
    using stream_holdsD(8) [OF h, of s] read_back_linked [of "of_stream s rows"] stream_all [OF stream_holdsD(4) [OF h]]
    by (simp add: holds_read [OF h] linked_def)
  then show "\<exists>n p. linked_from H n p (readFileEvents st s None None)" by blast
next
  fix st b env s
  assume "stream_ok H st" "list_all fit_event b"
  then obtain rows new where "stream_holds H st rows" "stream_holds H (snd (write_maybe_restarted H env b st)) (rows @ new)"
    unfolding stream_ok_def using restarted_holds by blast
  then show "prefix (readFileEvents st s None None) (readFileEvents (snd (write_maybe_restarted H env b st)) s None None)"
    by (simp add: holds_read)
qed

text \<open>A run, with all rows that were reported as written.\<close>

definition stream_step :: "(string \<Rightarrow> string) \<Rightarrow> chained_event list \<times> stream_store \<Rightarrow> bool \<times> audit_event list \<Rightarrow> chained_event list \<times> stream_store" where
  "stream_step H x w =
     (case write_maybe_restarted H (fst w) (snd w) (snd x) of (Inl e, st) \<Rightarrow> (fst x, st) | (Inr rows, st) \<Rightarrow> (fst x @ rows, st))"

definition stream_run :: "(string \<Rightarrow> string) \<Rightarrow> stream_store \<Rightarrow> (bool \<times> audit_event list) list \<Rightarrow> chained_event list \<times> stream_store" where
  "stream_run H st ws = foldl (stream_step H) ([], st) ws"

lemma stream_step_holds:
  "stream_holds H (snd x) (fst x) \<Longrightarrow> list_all fit_event (snd w) \<Longrightarrow>
   stream_holds H (snd (stream_step H x w)) (fst (stream_step H x w))"
  using restarted_holds [of H "snd x" "fst x" "snd w" "fst w"]
  by (simp add: stream_step_def split: prod.split sum.split) (auto split: sum.splits)

lemma stream_run_holds:
  "stream_holds H st acc \<Longrightarrow> list_all (\<lambda>w. list_all fit_event (snd w)) ws \<Longrightarrow>
   stream_holds H (snd (foldl (stream_step H) (acc, st) ws)) (fst (foldl (stream_step H) (acc, st) ws))"
proof (induction ws arbitrary: acc st)
  case (Cons w ws)
  obtain acc' st' where w: "stream_step H (acc, st) w = (acc', st')" by (rule prod.exhaust)
  have "stream_holds H st' acc'" using stream_step_holds [of H "(acc, st)" w] Cons.prems w by simp
  then show ?case using Cons.IH [of st' acc'] Cons.prems(2) by (simp add: w)
qed simp

lemma new_file_holds:
  assumes "resolveDestination resolve (optDestination opts) = FileDest p"
  shows "stream_holds H (stream_open resolve opts (\<lambda>_. None)) []"
  using assms holds_rows_Nil
  by (simp add: stream_open_def Let_def stream_holds_def loadHeads_def linked_def head_of_def)

section \<open>Verification of the file\<close>

lemma verify_reads:
  assumes "destination st = FileDest p" "list_all (\<lambda>r. row_stream r = s) (readFileEvents st s f t)"
  shows "passes (stream_verify H st s f t) \<longleftrightarrow> linked H (readFileEvents st s f t)"
proof -
  let ?rows = "readFileEvents st s f t"
  have "passes (stream_verify H st s f t) \<longleftrightarrow> passes (verifyChain H ?rows)"
    by (simp add: stream_verify_def assms(1) Let_def passes_def empty_report_def)
  also have "\<dots> \<longleftrightarrow> linked H ?rows"
    unfolding verifyChain_passes using of_stream_all [OF assms(2)] by (auto simp: linked_def)
  finally show ?thesis .
qed

lemma stream_verify_file:
  assumes "stream_holds H st rows"
  shows "passes (stream_verify H st s f t) \<longleftrightarrow> linked H (filter (in_bounds f t) (map read_back (of_stream s rows)))"
proof -
  obtain p where p: "destination st = FileDest p" using stream_holdsD(1) [OF assms] by blast
  let ?rows = "filter (in_bounds f t) (map read_back (of_stream s rows))"
  have "list_all (\<lambda>r. row_stream r = s) ?rows" by (auto simp: list_all_iff of_stream_def)
  then show ?thesis using verify_reads [OF p, of s f t] by (simp add: holds_read [OF assms])
qed

section \<open>Properties\<close>


definition file_options :: stream_options where
  "file_options = \<lparr>optDestination = DestString ''/var/audit.ndjson'', optFormat = None\<rparr>"

lemma file_options_dest: "resolveDestination id (optDestination file_options) = FileDest ''/var/audit.ndjson''"
  by (simp add: resolveDestination_def file_options_def isAbsolute_def)

lemma plain_fit: "fit_event (plain_event i ev t)"
  by (simp add: fit_event_def plain_event_def payloads_wf_def opt_obj_def)




lemma batch_rows_length:
  assumes "chain_groups H heads_of (groupByStream b) = Inr (rows, hs)"
  shows "length rows = length b"
proof -
  have "map base rows = concat (map snd (groupByStream b))"
    using chain_groups_streams [OF assms _ group_by_stream] by (simp add: groupByStream_def)
  then have "mset (map base rows) = mset b" using group_by_mset [of stream b] by (simp add: groupByStream_def)
  then show ?thesis by (metis length_map size_mset)
qed

text \<open>
  A batch of at least two events that fails on its second line leaves its first line in the
  file, but not in the heads. After a restart the batch is written again from the old heads: the
  first sequence number then occurs twice and the stream never verifies again.
\<close>

theorem partial_write_breaks_file:
  assumes "stream_ok H st" "streamFormat st = Ndjson" "list_all fit_event b" "list_all hashable b" "2 \<le> length b"
    and "lineEnvs env 0 = \<lparr>errorBefore = None, outcome = Flushed\<rparr>"
    and "lineEnvs env 1 = \<lparr>errorBefore = None, outcome = CallbackFailed 0 m\<rparr>"
  shows "fst (writeBatch H env b st) = Inl (store_failed m)"
    and "\<exists>s. \<not> passes (stream_verify H (snd (writeBatch H clean_env b (stream_reopen (snd (writeBatch H env b st))))) s None None)"
proof -
  obtain rows where h: "stream_holds H st rows" using assms(1) unfolding stream_ok_def by blast
  note d = stream_holdsD [OF h]
  obtain p where p: "destination st = FileDest p" using d(1) by blast
  have "list_all (\<lambda>g. list_all hashable (snd g)) (groupByStream b)"
    using assms(4) group_by_mem(1) [of _ _ stream b] by (fastforce simp: list_all_iff groupByStream_def)
  then obtain new hs where g: "chain_groups H (map_of (streamHeads st)) (groupByStream b) = Inr (new, hs)"
    using chain_groups_returns [of H "map_of (streamHeads st)" "groupByStream b"] by auto
  have ne: "b \<noteq> []" using assms(5) by auto
  obtain a c rest where new: "new = a # c # rest"
    using batch_rows_length [OF g] assms(5) by (cases new; cases "tl new") auto
  have good: "list_all good_row new" by (rule chain_groups_good(1) [OF g assms(3)])
  obtain la where la: "canonicalJson (JObj (chained_obj a)) = Inr la" "newline \<notin> set la" "trim la \<noteq> []"
    "line_values la = map (\<lambda>r. canon (JObj (chained_obj r))) [a]"
    using row_line [of a] good new by (auto simp: good_row_def)
  obtain lc where lc: "canonicalJson (JObj (chained_obj c)) = Inr lc"
    using row_line [of c] good new by (auto simp: good_row_def)
  let ?st1 = "st\<lparr>sink := sink st @ la @ [newline]\<rparr>"
  have first: "writeBatch H env b st = (Inl (store_failed m), ?st1)"
    using assms(2,6,7) p d(2) la(1) lc
    by (simp add: writeBatch_def ne g new writeEvents_def writeLine_def write_file_line_def)
  then show "fst (writeBatch H env b st) = Inl (store_failed m)" by simp
  have f1: "holds_rows (sink ?st1) (rows @ [a])" using holds_rows_line [OF d(3) la(2-4)] by simp
  let ?st2 = "stream_reopen ?st1"
  have g2: "chain_groups H (map_of (streamHeads ?st2)) (groupByStream b) = Inr (new, hs)"
    using g d(7) by (simp add: stream_reopen_def)
  have ok2: "destination ?st2 = FileDest p" "fileStreamError ?st2 = None" "holds_rows (sink ?st2) (rows @ [a])"
    using p f1 by (simp_all add: stream_reopen_def)
  have hn: "list_all (\<lambda>r. hashable (base r)) new" using good by (simp add: list_all_iff good_row_def)
  obtain t where t: "writeEvents (lineEnvs clean_env) new ?st2 = (Inr (), ?st2\<lparr>sink := t\<rparr>)" "holds_rows t ((rows @ [a]) @ new)"
    using writeEvents_clean [OF ok2 hn] by blast
  let ?st3 = "snd (writeBatch H clean_env b ?st2)"
  have st3: "sink ?st3 = t" "destination ?st3 = FileDest p"
    using t(1) ok2(1) ne
    by (simp_all add: writeBatch_def g2 persistHeads_def split: option.split sum.split)
  let ?s = "row_stream a"
  have all: "list_all (\<lambda>r. hashable (base r)) ((rows @ [a]) @ new)"
    using d(5) hn new by simp
  have read: "readFileEvents ?st3 ?s None None = sort_key seq (map read_back (of_stream ?s ((rows @ [a]) @ new)))"
    using read_rows [of ?st3 "(rows @ [a]) @ new" ?s None None] t(2) st3(1) all by simp
  have "\<not> distinct (map seq (readFileEvents ?st3 ?s None None))"
  proof -
    have "mset (map seq (readFileEvents ?st3 ?s None None)) = mset (map seq (of_stream ?s ((rows @ [a]) @ new)))"
      by (simp add: read multiset.map_comp comp_def)
    moreover have "\<not> distinct (map seq (of_stream ?s ((rows @ [a]) @ new)))" by (simp add: new)
    ultimately show ?thesis by (metis mset_eq_imp_distinct_iff)
  qed
  moreover have "distinct (map seq xs)" if "linked H xs" for xs
    using linked_from_seq [of H 1 GENESIS xs] that by (auto simp: distinct_conv_nth linked_def)
  moreover have "list_all (\<lambda>r. row_stream r = ?s) (readFileEvents ?st3 ?s None None)"
    unfolding read by (auto simp: list_all_iff of_stream_def)
  ultimately have "\<not> passes (stream_verify H ?st3 ?s None None)" using verify_reads [OF st3(2)] by blast
  then show "\<exists>s. \<not> passes (stream_verify H (snd (writeBatch H clean_env b (stream_reopen (snd (writeBatch H env b st))))) s None None)"
    unfolding first snd_conv by blast
qed

definition second_line_fails :: stream_env where
  "second_line_fails = \<lparr>lineEnvs = (\<lambda>i. \<lparr>errorBefore = None, outcome = (if i = 1 then CallbackFailed 0 ''ENOSPC'' else Flushed)\<rparr>),
     persistFailure = None\<rparr>"

definition two_events :: "audit_event list" where
  "two_events = [plain_event ''a'' ''login'' ''2024-01-01T00:00:00.000Z'', plain_event ''b'' ''logout'' ''2024-01-01T00:00:01.000Z'']"

theorem partial_write_breaks_file_witness:
  "\<exists>s. \<not> passes (stream_verify (\<lambda>t. t) (snd (writeBatch (\<lambda>t. t) clean_env two_events (stream_reopen
     (snd (writeBatch (\<lambda>t. t) second_line_fails two_events (stream_open id file_options (\<lambda>_. None))))))) s None None)"
proof (rule partial_write_breaks_file(2))
  show "stream_ok (\<lambda>t. t) (stream_open id file_options (\<lambda>_. None))"
    unfolding stream_ok_def using new_file_holds [OF file_options_dest] by blast
  show "streamFormat (stream_open id file_options (\<lambda>_. None)) = Ndjson"
    by (simp add: stream_open_def file_options_dest) (simp add: file_options_def)
qed (simp_all add: two_events_def plain_fit second_line_fails_def)

end
