(* ===== verification/Fanout.thy ===== *)
theory Fanout
  imports LucidWrite
begin

text \<open>
  \<open>src/stores/fanout_store.ts\<close>: one primary store and its mirrors. Stores are objects and known by
  their identity, a number; the fan-out stores among them live in a heap, since binding one binds
  the fan-out stores it refers to. \<open>stores[ref]\<close> is a parameter, so that it may be any object's
  lookup. The depth of the call stack bounds the binding; when it is exhausted the runtime throws.
\<close>

section \<open>Construction and binding\<close>

datatype fanout_ref = ByName string | ByInstance nat
datatype mirror_failure = LogFailure | ThrowFailure

record fanout_options =
  foPrimary :: fanout_ref
  foMirrors :: "fanout_ref list option"
  foMirrorFailure :: "mirror_failure option"

record fanout_store =
  primaryRef :: fanout_ref
  mirrorRefs :: "fanout_ref list"
  mirrorFailure :: mirror_failure
  primary :: "nat option"
  mirrors :: "nat list option"

type_synonym fanout_heap = "nat \<Rightarrow> fanout_store option"

definition instances :: "fanout_ref list \<Rightarrow> nat list" where
  "instances refs = concat (map (\<lambda>r. case r of ByInstance i \<Rightarrow> [i] | ByName n \<Rightarrow> []) refs)"

definition fanout_new :: "fanout_options \<Rightarrow> fanout_store result" where
  "fanout_new opts =
     (if foPrimary opts = ByName [] then Inl (AuditStoreError ''FanoutStore requires a primary store'')
      else
        (let refs = (case foMirrors opts of None \<Rightarrow> [] | Some rs \<Rightarrow> rs) in
         Inr \<lparr>primaryRef = foPrimary opts, mirrorRefs = refs,
              mirrorFailure = (case foMirrorFailure opts of None \<Rightarrow> LogFailure | Some m \<Rightarrow> m),
              primary = (case foPrimary opts of ByInstance i \<Rightarrow> Some i | ByName n \<Rightarrow> None),
              mirrors = (if instances refs = [] then None else Some (instances refs))\<rparr>))"

definition stack_overflow :: audit_error where
  "stack_overflow = JsError ''Maximum call stack size exceeded''"

definition set_primary :: "nat \<Rightarrow> nat \<Rightarrow> fanout_heap \<Rightarrow> fanout_heap" where
  "set_primary i p h = h(i := map_option (\<lambda>f. f\<lparr>primary := Some p\<rparr>) (h i))"

definition set_mirrors :: "nat \<Rightarrow> nat list \<Rightarrow> fanout_heap \<Rightarrow> fanout_heap" where
  "set_mirrors i ms h = h(i := map_option (\<lambda>f. f\<lparr>mirrors := (if ms = [] then mirrors f else Some ms)\<rparr>) (h i))"

fun bindStores :: "nat \<Rightarrow> (string \<Rightarrow> nat option) \<Rightarrow> nat \<Rightarrow> fanout_heap \<Rightarrow> unit result \<times> fanout_heap"
  and resolveStore :: "nat \<Rightarrow> (string \<Rightarrow> nat option) \<Rightarrow> fanout_ref \<Rightarrow> fanout_heap \<Rightarrow> nat result \<times> fanout_heap"
  and resolve_refs :: "nat \<Rightarrow> (string \<Rightarrow> nat option) \<Rightarrow> fanout_ref list \<Rightarrow> fanout_heap \<Rightarrow> nat list result \<times> fanout_heap"
where
  "bindStores depth stores i h =
     (case depth of 0 \<Rightarrow> (Inl stack_overflow, h) | Suc d \<Rightarrow>
      case h i of None \<Rightarrow> (Inr (), h) | Some f \<Rightarrow>
       sbind (case primary f of
                Some p \<Rightarrow> (Inr (), h)
              | None \<Rightarrow> sbind (resolveStore d stores (primaryRef f) h) (\<lambda>p h. (Inr (), set_primary i p h))) (\<lambda>_ h.
       sbind (resolve_refs d stores (mirrorRefs f) h) (\<lambda>ms h. (Inr (), set_mirrors i ms h))))"
| "resolveStore depth stores r h =
     (case depth of 0 \<Rightarrow> (Inl stack_overflow, h) | Suc d \<Rightarrow>
      case r of
        ByInstance i \<Rightarrow> (Inr i, h)
      | ByName n \<Rightarrow>
          (case stores n of
             None \<Rightarrow> (Inl (AuditStoreError (''FanoutStore references unknown store \"'' @ n @ ''\"'')), h)
           | Some i \<Rightarrow>
               if h i = None then (Inr i, h)
               else sbind (bindStores d stores i h) (\<lambda>_ h. (Inr i, h))))"
| "resolve_refs depth stores [] h = (Inr [], h)"
| "resolve_refs depth stores (r # rs) h =
     sbind (resolveStore depth stores r h) (\<lambda>i h. sbind (resolve_refs depth stores rs h) (\<lambda>is h. (Inr (i # is), h)))"

declare bindStores.simps [simp del] resolveStore.simps [simp del]

section \<open>Operations\<close>

text \<open>
  The states of the stores, by identity, and what has been printed on the console. \<open>wr i\<close> is the
  \<open>write\<close> of store \<open>i\<close> on its own state. The mirrors run concurrently, each on its own state; which
  of several rejections comes first is the runtime's, \<open>earliest\<close>.
\<close>

record 's fanout_world =
  stores :: "nat \<Rightarrow> 's"
  console :: "string list"

definition requirePrimary :: "fanout_store \<Rightarrow> nat result" where
  "requirePrimary f =
     (case primary f of
        None \<Rightarrow> Inl (AuditStoreError ''FanoutStore has not been bound to configured stores'')
      | Some p \<Rightarrow> Inr p)"

definition write_store ::
  "(nat \<Rightarrow> audit_event list \<Rightarrow> 's \<Rightarrow> chained_event list result \<times> 's) \<Rightarrow> nat \<Rightarrow> audit_event list \<Rightarrow> 's fanout_world
    \<Rightarrow> chained_event list result \<times> 's fanout_world" where
  "write_store wr i batch w =
     (let (res, s) = wr i batch (stores w i) in (res, w\<lparr>stores := (stores w)(i := s)\<rparr>))"

fun write_mirrors ::
  "(nat \<Rightarrow> audit_event list \<Rightarrow> 's \<Rightarrow> chained_event list result \<times> 's) \<Rightarrow> nat list \<Rightarrow> audit_event list \<Rightarrow> 's fanout_world
    \<Rightarrow> audit_error list \<times> 's fanout_world" where
  "write_mirrors wr [] batch w = ([], w)"
| "write_mirrors wr (m # ms) batch w =
     (let (res, w) = write_store wr m batch w; (errs, w) = write_mirrors wr ms batch w in
      (case res of Inl e \<Rightarrow> e # errs | Inr rows \<Rightarrow> errs, w))"

definition bound_mirrors :: "fanout_store \<Rightarrow> nat list" where
  "bound_mirrors f = (case mirrors f of None \<Rightarrow> [] | Some ms \<Rightarrow> ms)"

definition mirror_log :: "audit_error \<Rightarrow> string" where
  "mirror_log e = ''Audit fanout mirror failed: '' @ error_message e"

definition fanout_write ::
  "(nat \<Rightarrow> audit_event list \<Rightarrow> 's \<Rightarrow> chained_event list result \<times> 's) \<Rightarrow> (audit_error list \<Rightarrow> audit_error) \<Rightarrow> fanout_store
    \<Rightarrow> audit_event list \<Rightarrow> 's fanout_world \<Rightarrow> chained_event list result \<times> 's fanout_world" where
  "fanout_write wr earliest f batch w =
     (case requirePrimary f of
        Inl e \<Rightarrow> (Inl e, w)
      | Inr p \<Rightarrow>
          (case mirrorFailure f of
             ThrowFailure \<Rightarrow>
               (let (errs, w) = write_mirrors wr (bound_mirrors f) batch w in
                if errs \<noteq> [] then (Inl (AuditStoreError (''Fanout mirror failed: '' @ error_message (earliest errs))), w)
                else write_store wr p batch w)
           | LogFailure \<Rightarrow>
               sbind (write_store wr p batch w) (\<lambda>chained w.
                 let (errs, w) = write_mirrors wr (bound_mirrors f) batch w in
                 (Inr chained, w\<lparr>console := console w @ map mirror_log errs\<rparr>))))"

text \<open>\<open>head\<close>, \<open>verify\<close> and \<open>prune\<close> are the primary's.\<close>

definition fanout_head :: "('s \<Rightarrow> string \<Rightarrow> chain_head option) \<Rightarrow> fanout_store \<Rightarrow> 's fanout_world \<Rightarrow> string \<Rightarrow> chain_head option result" where
  "fanout_head hd_of f w s = rmap (\<lambda>p. hd_of (stores w p) s) (requirePrimary f)"

definition fanout_verify ::
  "('s \<Rightarrow> string \<Rightarrow> int option \<Rightarrow> int option \<Rightarrow> verify_report list \<times> audit_error option) \<Rightarrow> fanout_store \<Rightarrow> 's fanout_world
    \<Rightarrow> string \<Rightarrow> int option \<Rightarrow> int option \<Rightarrow> verify_report list \<times> audit_error option" where
  "fanout_verify vf f w s fromSeq toSeq =
     (case requirePrimary f of Inl e \<Rightarrow> ([], Some e) | Inr p \<Rightarrow> vf (stores w p) s fromSeq toSeq)"

definition fanout_prune :: "('s \<Rightarrow> prune_report result \<times> 's) \<Rightarrow> fanout_store \<Rightarrow> 's fanout_world \<Rightarrow> prune_report result \<times> 's fanout_world" where
  "fanout_prune pr f w =
     (case requirePrimary f of
        Inl e \<Rightarrow> (Inl e, w)
      | Inr p \<Rightarrow> (let (res, s) = pr (stores w p) in (res, w\<lparr>stores := (stores w)(p := s)\<rparr>)))"

section \<open>Writing\<close>

lemma write_store_result: "fst (write_store wr i b w) = fst (wr i b (stores w i))"
  "stores (snd (write_store wr i b w)) = (stores w)(i := snd (wr i b (stores w i)))"
  by (simp_all add: write_store_def split: prod.split)

lemma write_store_console: "console (snd (write_store wr m b w)) = console w"
  by (simp add: write_store_def split: prod.split)

lemma write_mirrors_simps:
  "write_mirrors wr (m # ms) b w =
     ((case fst (write_store wr m b w) of Inl e \<Rightarrow> [e] | Inr rows \<Rightarrow> []) @ fst (write_mirrors wr ms b (snd (write_store wr m b w))),
      snd (write_mirrors wr ms b (snd (write_store wr m b w))))"
  by (simp split: prod.split sum.split)

text \<open>Distinct mirrors do not see each other: each one's state and result are its own.\<close>

lemma write_mirrors_local:
  "distinct ms \<Longrightarrow>
   stores (snd (write_mirrors wr ms b w)) = (\<lambda>i. if i \<in> set ms then snd (wr i b (stores w i)) else stores w i)
   \<and> fst (write_mirrors wr ms b w) = concat (map (\<lambda>i. case fst (wr i b (stores w i)) of Inl e \<Rightarrow> [e] | Inr rows \<Rightarrow> []) ms)"
proof (induction ms arbitrary: w)
  case (Cons m ms)
  let ?w = "snd (write_store wr m b w)"
  have same: "stores ?w i = stores w i" if "i \<in> set ms" for i using that Cons.prems by (auto simp: write_store_result)
  have d: "distinct ms" using Cons.prems by simp
  have errs: "map (\<lambda>i. case fst (wr i b (stores ?w i)) of Inl e \<Rightarrow> [e] | Inr rows \<Rightarrow> []) ms
      = map (\<lambda>i. case fst (wr i b (stores w i)) of Inl e \<Rightarrow> [e] | Inr rows \<Rightarrow> []) ms"
    using same by simp
  have "(\<lambda>i. if i \<in> set ms then snd (wr i b (stores ?w i)) else stores ?w i)
      = (\<lambda>i. if i \<in> set (m # ms) then snd (wr i b (stores w i)) else stores w i)"
    using same Cons.prems by (auto simp: write_store_result fun_eq_iff)
  then show ?case
    using Cons.IH [OF d, of ?w] unfolding write_mirrors_simps fst_conv snd_conv errs
    by (simp add: write_store_result(1))
qed simp

section \<open>Binding\<close>

text \<open>Binding only fills in what is missing: it never removes a fan-out store or its primary.\<close>

definition keeps_fanout :: "fanout_store \<Rightarrow> fanout_store \<Rightarrow> bool" where
  "keeps_fanout f f' \<longleftrightarrow> primaryRef f' = primaryRef f \<and> mirrorRefs f' = mirrorRefs f \<and> mirrorFailure f' = mirrorFailure f
     \<and> (primary f \<noteq> None \<longrightarrow> primary f' \<noteq> None)"

definition extends_heap :: "fanout_heap \<Rightarrow> fanout_heap \<Rightarrow> bool" where
  "extends_heap h h' \<longleftrightarrow> (\<forall>i. rel_option keeps_fanout (h i) (h' i))"

lemma extends_heap_refl [simp]: "extends_heap h h"
  by (simp add: extends_heap_def option.rel_refl keeps_fanout_def)

lemma extends_heap_trans: "extends_heap a b \<Longrightarrow> extends_heap b c \<Longrightarrow> extends_heap a c"
  unfolding extends_heap_def
proof
  fix i
  assume "\<forall>i. rel_option keeps_fanout (a i) (b i)" "\<forall>i. rel_option keeps_fanout (b i) (c i)"
  then have "rel_option keeps_fanout (a i) (b i)" "rel_option keeps_fanout (b i) (c i)" by blast+
  then show "rel_option keeps_fanout (a i) (c i)"
    by (cases "a i"; cases "b i"; cases "c i") (auto simp: keeps_fanout_def)
qed

lemma extends_none: "extends_heap h h' \<Longrightarrow> h' i = None \<longleftrightarrow> h i = None"
  unfolding extends_heap_def by (metis option.rel_distinct(1,2) option.exhaust)

lemma set_extends: "extends_heap h (set_primary i p h)" "extends_heap h (set_mirrors i ms h)"
  by (auto simp: extends_heap_def set_primary_def set_mirrors_def keeps_fanout_def option.rel_refl option.rel_map
      intro!: option.rel_refl)

lemma sbind_extends:
  assumes "extends_heap h (snd m)" "\<And>x. fst m = Inr x \<Longrightarrow> extends_heap (snd m) (snd (f x (snd m)))"
  shows "extends_heap h (snd (sbind m f))"
proof (cases m)
  case (Pair res h1)
  then show ?thesis using assms extends_heap_trans [of h h1] by (cases res) simp_all
qed

lemma binding_extends:
  "extends_heap h (snd (bindStores d ss i h))"
  "extends_heap h (snd (resolveStore d ss r h))"
  "extends_heap h (snd (resolve_refs d ss rs h))"
proof (induction d ss i h and d ss r h and d ss rs h rule: bindStores_resolveStore_resolve_refs.induct)
  case (1 d ss i h)
  show ?case
  proof (cases d)
    case 0
    then show ?thesis by (simp add: bindStores.simps)
  next
    case (Suc n)
    show ?thesis
    proof (cases "h i")
      case None
      then show ?thesis using Suc by (simp add: bindStores.simps)
    next
      case (Some f)
      show ?thesis
        unfolding Suc bindStores.simps [of "Suc n"] nat.case Some option.case
      proof (intro sbind_extends)
        show "extends_heap h (snd (case primary f of None \<Rightarrow> sbind (resolveStore n ss (primaryRef f) h) (\<lambda>p h. (Inr (), set_primary i p h)) | Some p \<Rightarrow> (Inr (), h)))"
          using 1(1) [OF Suc Some] set_extends by (cases "primary f") (auto intro!: sbind_extends)
      qed (use 1(2) [OF Suc Some] set_extends in \<open>auto intro!: sbind_extends\<close>)
    qed
  qed
next
  case (2 d ss r h)
  show ?case
  proof (cases d)
    case 0
    then show ?thesis by (simp add: resolveStore.simps)
  next
    case (Suc n)
    then show ?thesis using 2 by (auto simp: resolveStore.simps intro!: sbind_extends split: fanout_ref.split option.split)
  qed
next
  case (3 d ss h)
  then show ?case by simp
next
  case (4 d ss r rs h)
  then show ?case by (auto intro!: sbind_extends)
qed

text \<open>What a reference stands for, and what a bound fan-out store holds.\<close>

definition target :: "(string \<Rightarrow> nat option) \<Rightarrow> fanout_ref \<Rightarrow> nat \<Rightarrow> bool" where
  "target ss r i \<longleftrightarrow> (case r of ByInstance j \<Rightarrow> i = j | ByName n \<Rightarrow> ss n = Some i)"

lemma resolve_target: "fst (resolveStore d ss r h) = Inr i \<Longrightarrow> target ss r i"
  by (cases d)
     (auto simp: resolveStore.simps target_def sbind_def split: fanout_ref.splits option.splits if_splits prod.splits sum.splits)

lemma resolve_targets: "fst (resolve_refs d ss rs h) = Inr is \<Longrightarrow> list_all2 (target ss) rs is"
proof (induction rs arbitrary: h "is")
  case (Cons r rs)
  obtain ri h1 where r: "resolveStore d ss r h = (ri, h1)" by (rule prod.exhaust)
  obtain rsi h2 where rs: "resolve_refs d ss rs h1 = (rsi, h2)" by (rule prod.exhaust)
  show ?case
    using Cons.prems Cons.IH [of h1] resolve_target [of d ss r h] by (cases ri; cases rsi) (auto simp: r rs)
qed simp

definition is_bound :: "(string \<Rightarrow> nat option) \<Rightarrow> fanout_store \<Rightarrow> bool" where
  "is_bound ss f \<longleftrightarrow> primary f \<noteq> None \<and> (mirrorRefs f \<noteq> [] \<longrightarrow> list_all2 (target ss) (mirrorRefs f) (bound_mirrors f))"

lemma bind_bound:
  assumes "fst (bindStores d ss i h) = Inr u" "h i = Some f"
  shows "\<exists>f'. snd (bindStores d ss i h) i = Some f' \<and> is_bound ss f' \<and> keeps_fanout f f'"
proof -
  obtain n where d: "d = Suc n" using assms(1) by (cases d) (simp_all add: bindStores.simps)
  let ?step = "case primary f of Some p \<Rightarrow> (Inr (), h)
     | None \<Rightarrow> sbind (resolveStore n ss (primaryRef f) h) (\<lambda>p h. (Inr (), set_primary i p h))"
  obtain r1 h1 where s: "?step = (r1, h1)" by (rule prod.exhaust)
  obtain r2 h2 where m: "resolve_refs n ss (mirrorRefs f) h1 = (r2, h2)" by (rule prod.exhaust)
  have b: "bindStores d ss i h = sbind (r1, h1) (\<lambda>_ h. sbind (resolve_refs n ss (mirrorRefs f) h) (\<lambda>ms h. (Inr (), set_mirrors i ms h)))"
    unfolding d bindStores.simps [of "Suc n"] nat.case assms(2) option.case s by simp
  obtain ms where ok: "r1 = Inr ()" "r2 = Inr ms" using assms(1) unfolding b by (cases r1; cases r2) (simp_all add: m)
  have h': "snd (bindStores d ss i h) = set_mirrors i ms h2" unfolding b by (simp add: ok m)
  have "extends_heap h h1"
    using s binding_extends(2) [of h n ss "primaryRef f"] set_extends(1)
    by (cases "primary f") (auto simp: sbind_def split: prod.splits sum.splits intro: extends_heap_trans)
  then obtain f1 where f1: "h1 i = Some f1" "keeps_fanout f f1"
    using assms(2) unfolding extends_heap_def by (metis option.rel_cases option.sel option.distinct(1))
  have p: "primary f1 \<noteq> None"
  proof (cases "primary f")
    case None
    then obtain p h0 where "resolveStore n ss (primaryRef f) h = (Inr p, h0)" "h1 = set_primary i p h0"
      using s ok by (auto simp: sbind_def split: prod.splits sum.splits)
    then show ?thesis using f1(1) by (auto simp: set_primary_def)
  next
    case (Some p)
    then show ?thesis using f1(2) by (simp add: keeps_fanout_def)
  qed
  have "extends_heap h1 h2" using binding_extends(3) [of h1 n ss "mirrorRefs f"] m by simp
  then obtain f2 where f2: "h2 i = Some f2" "keeps_fanout f1 f2"
    using f1(1) unfolding extends_heap_def by (metis option.rel_cases option.sel option.distinct(1))
  have t: "list_all2 (target ss) (mirrorRefs f) ms" using resolve_targets [of n ss "mirrorRefs f" h1] m ok(2) by simp
  let ?f = "f2\<lparr>mirrors := (if ms = [] then mirrors f2 else Some ms)\<rparr>"
  have "set_mirrors i ms h2 i = Some ?f" by (simp add: set_mirrors_def f2(1))
  moreover have "keeps_fanout f ?f" using f1(2) f2(2) by (auto simp: keeps_fanout_def)
  moreover have "is_bound ss ?f"
    using p f1(2) f2(2) t by (auto simp: is_bound_def keeps_fanout_def bound_mirrors_def)
  ultimately show ?thesis unfolding h' by blast
qed

section \<open>The contract of a fan-out store\<close>

lemma write_store_ok:
  "(\<And>i s. P s \<Longrightarrow> P (snd (wr i b s))) \<Longrightarrow> \<forall>i. P (stores w i) \<Longrightarrow> \<forall>i. P (stores (snd (write_store wr m b w)) i)"
  by (simp add: write_store_result)

lemma write_mirrors_ok:
  "(\<And>i s. P s \<Longrightarrow> P (snd (wr i b s))) \<Longrightarrow> \<forall>i. P (stores w i) \<Longrightarrow> \<forall>i. P (stores (snd (write_mirrors wr ms b w)) i)"
proof (induction ms arbitrary: w)
  case (Cons m ms)
  then show ?case unfolding write_mirrors_simps snd_conv by (intro Cons.IH write_store_ok)
qed simp

lemma write_mirrors_step:
  assumes "\<And>i s. P s \<Longrightarrow> P (snd (wr i b s))" "\<forall>i. P (stores w i)"
    and "\<And>i s. P s \<Longrightarrow> R s (snd (wr i b s))" "\<And>s. R s s" "\<And>x y z. R x y \<Longrightarrow> R y z \<Longrightarrow> R x z"
  shows "R (stores w k) (stores (snd (write_mirrors wr ms b w)) k)"
  using assms(2)
proof (induction ms arbitrary: w)
  case (Cons m ms)
  have "R (stores w k) (stores (snd (write_store wr m b w)) k)" using assms(3,4) Cons.prems by (simp add: write_store_result)
  moreover have "\<forall>i. P (stores (snd (write_store wr m b w)) i)" 
    using write_store_ok [of P wr b w m] assms(1) Cons.prems by blast
  ultimately show ?case using Cons.IH assms(5) unfolding write_mirrors_simps snd_conv by blast
qed (use assms(4) in simp)

text \<open>Every write of a fan-out store moves each of its stores by writes of that store.\<close>

lemma fanout_write_step:
  assumes "\<And>i s. P s \<Longrightarrow> P (snd (wr i b s))" "\<forall>i. P (stores w i)"
    and "\<And>i s. P s \<Longrightarrow> R s (snd (wr i b s))" "\<And>s. R s s" "\<And>x y z. R x y \<Longrightarrow> R y z \<Longrightarrow> R x z"
  shows "(\<forall>i. P (stores (snd (fanout_write wr earliest f b w)) i))
    \<and> (\<forall>k. R (stores w k) (stores (snd (fanout_write wr earliest f b w)) k))"
proof -
  have one: "(\<forall>i. P (stores (snd (write_store wr p b v)) i)) \<and> (\<forall>k. R (stores v k) (stores (snd (write_store wr p b v)) k))"
    if "\<forall>i. P (stores v i)" for p v
    using that assms(1,3,4) by (simp add: write_store_result)
  have many: "(\<forall>i. P (stores (snd (write_mirrors wr ms b v)) i)) \<and> (\<forall>k. R (stores v k) (stores (snd (write_mirrors wr ms b v)) k))"
    if "\<forall>i. P (stores v i)" for ms v
    using write_mirrors_ok [of P wr b v ms] write_mirrors_step [of P wr b v R _ ms] that assms(1,3-5) by blast
  have mm: "(\<forall>i. P (stores (snd (write_mirrors wr ms b (snd (write_store wr p b w)))) i))
      \<and> (\<forall>k. R (stores w k) (stores (snd (write_mirrors wr ms b (snd (write_store wr p b w)))) k))" for ms p
    using one [OF assms(2), of p] many [of "snd (write_store wr p b w)" ms] assms(5) by blast
  have mp: "(\<forall>i. P (stores (snd (write_store wr p b (snd (write_mirrors wr ms b w)))) i))
      \<and> (\<forall>k. R (stores w k) (stores (snd (write_store wr p b (snd (write_mirrors wr ms b w)))) k))" for ms p
    using many [OF assms(2), of ms] one [of "snd (write_mirrors wr ms b w)" p] assms(5) by blast
  show ?thesis
  proof (cases "requirePrimary f")
    case (Inl e)
    then show ?thesis using assms(2,4) by (simp add: fanout_write_def)
  next
    case (Inr p)
    obtain errs v where v: "write_mirrors wr (bound_mirrors f) b w = (errs, v)" by (rule prod.exhaust)
    obtain res u where u: "write_store wr p b w = (res, u)" by (rule prod.exhaust)
    show ?thesis
    proof (cases "mirrorFailure f")
      case ThrowFailure
      then show ?thesis using Inr v many [OF assms(2), of "bound_mirrors f"] mp [of p "bound_mirrors f"]
        by (simp add: fanout_write_def)
    next
      case LogFailure
      then show ?thesis using Inr u one [OF assms(2), of p] mm [of "bound_mirrors f" p]
        by (cases "write_mirrors wr (bound_mirrors f) b u"; cases res) (simp_all add: fanout_write_def)
    qed
  qed
qed

context chained_store
begin

lemma fanout_contract:
  "chained_store H (\<lambda>(env, earliest) b w. fanout_write (\<lambda>i. write_to (env i)) earliest f b w)
     (\<lambda>w s. history (stores w p) s) (\<lambda>w. \<forall>i. ok (stores w i)) fit"
proof
  fix w :: "'b fanout_world" and b :: "audit_event list"
    and env :: "(nat \<Rightarrow> 'a) \<times> (audit_error list \<Rightarrow> audit_error)" and s
  let ?grows = "\<lambda>x y. prefix (history x s) (history y s)"
  obtain e earliest where env: "env = (e, earliest)" by (cases env)
  assume a: "\<forall>i. ok (stores w i)" "list_all fit b"
  have "(\<forall>i. ok (stores (snd (fanout_write (\<lambda>i. write_to (e i)) earliest f b w)) i)) \<and>
      (\<forall>k. ?grows (stores w k) (stores (snd (fanout_write (\<lambda>i. write_to (e i)) earliest f b w)) k))"
    by (rule fanout_write_step) (use a write_ok write_grows in \<open>auto intro: prefix_order.trans\<close>)
  then show "\<forall>i. ok (stores (snd ((case env of (env, earliest) \<Rightarrow> \<lambda>b w. fanout_write (\<lambda>i. write_to (env i)) earliest f b w) b w)) i)"
    and "prefix (history (stores w p) s)
      (history (stores (snd ((case env of (env, earliest) \<Rightarrow> \<lambda>b w. fanout_write (\<lambda>i. write_to (env i)) earliest f b w) b w)) p) s)"
    by (simp_all add: env)
next
  fix w s
  assume "\<forall>i. ok (stores w i)"
  then show "\<exists>n q. linked_from H n q (history (stores w p) s)" using history_linked by blast
qed

end

section \<open>Properties\<close>


text \<open>
  With \<open>mirrorFailure: 'throw'\<close> the primary is untouched when a mirror fails, but the other mirrors
  keep the batch: it was never written as far as the caller can tell, and a retry writes it to
  them a second time.
\<close>

theorem throwing_mirrors_diverge:
  assumes "primary f = Some p" "mirrorFailure f = ThrowFailure" "distinct (bound_mirrors f)" "p \<notin> set (bound_mirrors f)"
    and "m \<in> set (bound_mirrors f)" "fst (wr m batch (stores w m)) = Inl e" "k \<in> set (bound_mirrors f)"
  shows "\<exists>e' w'. fanout_write wr earliest f batch w = (Inl e', w') \<and> stores w' p = stores w p
    \<and> stores w' k = snd (wr k batch (stores w k))"
proof -
  obtain errs v where v: "write_mirrors wr (bound_mirrors f) batch w = (errs, v)" by (rule prod.exhaust)
  note l = write_mirrors_local [OF assms(3), of wr batch w, unfolded v fst_conv snd_conv]
  let ?errs = "map (\<lambda>i. case fst (wr i batch (stores w i)) of Inl e \<Rightarrow> [e] | Inr rows \<Rightarrow> []) (bound_mirrors f)"
  have "(\<lambda>i. case fst (wr i batch (stores w i)) of Inl e \<Rightarrow> [e] | Inr rows \<Rightarrow> []) m \<in> set ?errs"
    unfolding set_map by (rule imageI [OF assms(5)])
  then have "[e] \<in> set ?errs" by (simp only: assms(6) sum.case)
  then have "concat ?errs \<noteq> []" unfolding concat_eq_Nil_conv by blast
  then have "errs \<noteq> []" using conjunct2 [OF l] by simp
  then show ?thesis using l assms(1,2,4,7) v by (simp add: fanout_write_def requirePrimary_def)
qed


text \<open>Two Lucid stores, the first mirrored by the second.\<close>

definition mirrored :: fanout_store where
  "mirrored = projr (fanout_new \<lparr>foPrimary = ByInstance 0, foMirrors = Some [ByInstance 1], foMirrorFailure = None\<rparr>)"

lemma mirrored_simps: "primary mirrored = Some 0" "mirrorFailure mirrored = LogFailure" "bound_mirrors mirrored = [1]"
  by (simp_all add: mirrored_def fanout_new_def instances_def bound_mirrors_def)

definition two_databases :: "lucid_db fanout_world" where
  "two_databases = \<lparr>stores = (\<lambda>i. empty_db), console = []\<rparr>"



end
