(* ===== verification/DefineConfig.thy ===== *)
theory DefineConfig
  imports Fanout Outbox
begin

text \<open>
  \<open>src/define_config.ts\<close>: the configuration with its defaults, and the construction of the stores.
  What calling a store factory or a provider yields is data of the configuration: a store, known by
  its identity, or an error. The fan-out stores are created last and bound to the stores made
  before them. Callbacks the library only passes on are of a type \<open>'f\<close>.
\<close>

section \<open>The configuration\<close>

datatype store_config =
    StoreFactory "nat result"
  | StoreProvider "nat option result"
  | FanoutProvider fanout_options

record redaction_options =
  roGlobal :: "string list option"
  roMode :: "redaction_mode option"
  roSaltEnvVar :: "string option"

record 'f retention_options =
  rtDefault :: "string option"
  rtPerEvent :: "(string \<times> string) list option"
  rtArchive :: "'f option"

record 'f chain_options =
  coStreamBy :: "stream_by option"
  coAnchor :: "'f option"

record queue_options =
  qoMaxBatchSize :: "int option"
  qoFlushIntervalMs :: "int option"
  qoCapacity :: "int option"
  qoOverflow :: "overflow_strategy option"

record 'f outbox_options =
  ooConnection :: "string option"
  ooTable :: "string option"
  ooExecutor :: "'f option"
  ooMaxAttempts :: "int option"
  ooRetryDelayMs :: "int option"
  ooStaleClaimMs :: "int option"

record 'f audit_config =
  acDefault :: "string option"
  acGuarantee :: "guarantee_mode option"
  acStores :: "(string \<times> store_config) list"
  acRedaction :: "redaction_options option"
  acRetention :: "'f retention_options option"
  acChain :: "'f chain_options option"
  acCryptoShredding :: "'f option"
  acQueue :: "queue_options option"
  acOutbox :: "'f outbox_options option"
  acPayloadMaxBytes :: "int option"
  acTenantResolver :: "'f option"
  acCaptureAuthEvents :: "bool option"

section \<open>The resolved configuration\<close>

record resolved_redaction =
  redactionGlobal :: "string list"
  redactionMode :: redaction_mode
  redactionSaltEnvVar :: string

record resolved_queue =
  queueMaxBatchSize :: int
  queueFlushIntervalMs :: int
  queueCapacity :: int
  queueOverflow :: overflow_strategy

record 'f resolved_outbox =
  outboxTable :: string
  outboxTuning :: outbox_config
  outboxConnection :: "string option"
  outboxExecutor :: "'f option"

record 'f resolved_config =
  rcDefault :: string
  rcGuarantee :: guarantee_mode
  rcStores :: "(string \<times> nat) list"
  rcRedaction :: resolved_redaction
  rcRetention :: retention_policy
  rcArchive :: "'f option"
  rcStreamBy :: stream_by
  rcAnchor :: "'f option"
  rcCryptoShredding :: "'f option"
  rcQueue :: resolved_queue
  rcOutbox :: "'f resolved_outbox"
  rcPayloadMaxBytes :: int
  rcTenantResolver :: "'f option"
  rcCaptureAuthEvents :: bool

text \<open>\<open>a?.b ?? d\<close>.\<close>

definition opt_field :: "('r \<Rightarrow> 'a option) \<Rightarrow> 'r option \<Rightarrow> 'a option" where
  "opt_field sel r = (case r of None \<Rightarrow> None | Some x \<Rightarrow> sel x)"

definition or_default :: "'a option \<Rightarrow> 'a \<Rightarrow> 'a" where
  "or_default x d = (case x of None \<Rightarrow> d | Some v \<Rightarrow> v)"

definition resolve_redaction :: "redaction_options option \<Rightarrow> resolved_redaction" where
  "resolve_redaction r =
     \<lparr>redactionGlobal = or_default (opt_field roGlobal r) [],
      redactionMode = or_default (opt_field roMode r) MaskMode,
      redactionSaltEnvVar = or_default (opt_field roSaltEnvVar r) ''AUDIT_REDACTION_SALT''\<rparr>"

definition resolve_retention :: "'f retention_options option \<Rightarrow> retention_policy" where
  "resolve_retention r =
     \<lparr>retentionDefault = or_default (opt_field rtDefault r) ''730 days'', retentionPerEvent = opt_field rtPerEvent r\<rparr>"

definition resolve_queue :: "queue_options option \<Rightarrow> resolved_queue" where
  "resolve_queue q =
     \<lparr>queueMaxBatchSize = or_default (opt_field qoMaxBatchSize q) 200,
      queueFlushIntervalMs = or_default (opt_field qoFlushIntervalMs q) 250,
      queueCapacity = or_default (opt_field qoCapacity q) 10000,
      queueOverflow = or_default (opt_field qoOverflow q) DropOldest\<rparr>"

definition resolve_outbox :: "'f outbox_options option \<Rightarrow> 'f resolved_outbox" where
  "resolve_outbox r =
     \<lparr>outboxTable = or_default (opt_field ooTable r) ''audit_outbox'',
      outboxTuning = \<lparr>staleClaimMs = or_default (opt_field ooStaleClaimMs r) (5 * 60 * 1000),
        outboxMaxAttempts = or_default (opt_field ooMaxAttempts r) 5,
        retryDelayMs = or_default (opt_field ooRetryDelayMs r) 0\<rparr>,
      outboxConnection = opt_field ooConnection r, outboxExecutor = opt_field ooExecutor r\<rparr>"

section \<open>The stores\<close>

definition resolveStoreConfig :: "store_config \<Rightarrow> nat result" where
  "resolveStoreConfig c =
     (case c of
        StoreFactory r \<Rightarrow> r
      | StoreProvider r \<Rightarrow> rbind r (\<lambda>s. case s of
          None \<Rightarrow> Inl (AuditConfigurationError ''Invalid config provider for audit store'')
        | Some i \<Rightarrow> Inr i)
      | FanoutProvider opts \<Rightarrow> Inl (AuditConfigurationError ''Invalid config provider for audit store''))"

definition is_fanout :: "store_config \<Rightarrow> bool" where
  "is_fanout c \<longleftrightarrow> (case c of FanoutProvider opts \<Rightarrow> True | _ \<Rightarrow> False)"

fun resolve_stores :: "(string \<times> store_config) list \<Rightarrow> (string \<times> nat) list \<Rightarrow> (string \<times> nat) list result" where
  "resolve_stores [] acc = Inr acc"
| "resolve_stores ((n, c) # cs) acc =
     (if is_fanout c then resolve_stores cs acc
      else rbind (resolveStoreConfig c) (\<lambda>i. resolve_stores cs (AList.update n i acc)))"

text \<open>A new fan-out store gets a fresh identity; the heap holds the fan-out stores there are.\<close>

record object_heap =
  hpFanouts :: fanout_heap
  hpNext :: nat

definition bindFanoutStore :: "nat \<Rightarrow> (string \<times> nat) list \<Rightarrow> nat \<Rightarrow> object_heap \<Rightarrow> unit result \<times> object_heap" where
  "bindFanoutStore depth ss i hp =
     (let (r, h) = bindStores depth (map_of ss) i (hpFanouts hp) in (r, hp\<lparr>hpFanouts := h\<rparr>))"

fun make_fanouts :: "nat \<Rightarrow> (string \<times> store_config) list \<Rightarrow> (string \<times> nat) list \<Rightarrow> object_heap \<Rightarrow> (string \<times> nat) list result \<times> object_heap" where
  "make_fanouts depth [] acc hp = (Inr acc, hp)"
| "make_fanouts depth ((n, c) # cs) acc hp =
     (case c of
        FanoutProvider opts \<Rightarrow>
          (case fanout_new opts of
             Inl e \<Rightarrow> (Inl e, hp)
           | Inr f \<Rightarrow>
               (let i = hpNext hp; hp = hp\<lparr>hpFanouts := (hpFanouts hp)(i \<mapsto> f), hpNext := i + 1\<rparr> in
                sbind (bindFanoutStore depth acc i hp) (\<lambda>_ hp. make_fanouts depth cs (AList.update n i acc) hp)))
      | _ \<Rightarrow> make_fanouts depth cs acc hp)"

section \<open>defineConfig\<close>

definition incompatible_capture :: audit_error where
  "incompatible_capture = AuditConfigurationError
     ''Automatic auth event capture is incompatible with the \"transactional-outbox\" guarantee: automatic auth listener events lack caller-owned transactions. Set captureAuthEvents: false or emit an explicit transaction-bound audit event instead.''"

definition capture_auth :: "'f audit_config \<Rightarrow> bool" where
  "capture_auth cfg = or_default (acCaptureAuthEvents cfg) (or_default (acGuarantee cfg) BestEffort \<noteq> TransactionalOutbox)"

definition resolved_of :: "'f audit_config \<Rightarrow> string \<Rightarrow> (string \<times> nat) list \<Rightarrow> 'f resolved_config" where
  "resolved_of cfg defaultStore ss =
     \<lparr>rcDefault = defaultStore, rcGuarantee = or_default (acGuarantee cfg) BestEffort, rcStores = ss,
      rcRedaction = resolve_redaction (acRedaction cfg), rcRetention = resolve_retention (acRetention cfg),
      rcArchive = opt_field rtArchive (acRetention cfg),
      rcStreamBy = or_default (opt_field coStreamBy (acChain cfg)) GlobalStream,
      rcAnchor = opt_field coAnchor (acChain cfg), rcCryptoShredding = acCryptoShredding cfg,
      rcQueue = resolve_queue (acQueue cfg), rcOutbox = resolve_outbox (acOutbox cfg),
      rcPayloadMaxBytes = or_default (acPayloadMaxBytes cfg) 32768, rcTenantResolver = acTenantResolver cfg,
      rcCaptureAuthEvents = capture_auth cfg\<rparr>"

definition defineConfig :: "nat \<Rightarrow> 'f audit_config \<Rightarrow> object_heap \<Rightarrow> 'f resolved_config result \<times> object_heap" where
  "defineConfig depth cfg hp =
     (if or_default (acGuarantee cfg) BestEffort = TransactionalOutbox \<and> acCaptureAuthEvents cfg = Some True
      then (Inl incompatible_capture, hp)
      else case resolve_stores (acStores cfg) [] of
        Inl e \<Rightarrow> (Inl e, hp)
      | Inr plain \<Rightarrow>
          sbind (make_fanouts depth (acStores cfg) plain hp) (\<lambda>ss hp.
            let defaultStore = or_default (acDefault cfg) ''lucid'' in
            if defaultStore \<notin> fst ` set (acStores cfg)
            then (Inl (AuditConfigurationError (''Default audit store \"'' @ defaultStore @ ''\" is not configured'')), hp)
            else (Inr (resolved_of cfg defaultStore ss), hp)))"

section \<open>What a configuration guarantees\<close>

lemma resolve_stores_keys:
  "resolve_stores cs acc = Inr ss \<Longrightarrow>
   fst ` set ss = fst ` set acc \<union> fst ` set (filter (\<lambda>c. \<not> is_fanout (snd c)) cs)"
proof (induction cs arbitrary: acc)
  case (Cons p cs)
  obtain n c where p: "p = (n, c)" by (cases p)
  show ?case
  proof (cases "is_fanout c")
    case True
    then show ?thesis using Cons by (simp add: p)
  next
    case False
    then obtain i where "resolve_stores cs (AList.update n i acc) = Inr ss" using Cons.prems by (auto simp: p result_iff)
    from Cons.IH [OF this] show ?thesis using False by (auto simp: p keyset_update)
  qed
qed simp

text \<open>The fan-out stores of a heap, and those among the configured stores that are bound.\<close>

definition heap_ok :: "object_heap \<Rightarrow> bool" where
  "heap_ok hp \<longleftrightarrow> (\<forall>i \<ge> hpNext hp. hpFanouts hp i = None)"

definition bound_heap :: "fanout_heap \<Rightarrow> nat \<Rightarrow> bool" where
  "bound_heap h i \<longleftrightarrow> (\<forall>f. h i = Some f \<longrightarrow> primary f \<noteq> None)"

lemma extends_bound: "extends_heap h h' \<Longrightarrow> bound_heap h i \<Longrightarrow> bound_heap h' i"
proof -
  assume e: "extends_heap h h'" and b: "bound_heap h i"
  have "rel_option keeps_fanout (h i) (h' i)" using e by (simp add: extends_heap_def)
  then show ?thesis using b by (cases "h i"; cases "h' i") (auto simp: bound_heap_def keeps_fanout_def)
qed

lemma bind_extends: "extends_heap (hpFanouts hp) (hpFanouts (snd (bindFanoutStore d ss i hp)))"
  using binding_extends(1) [of "hpFanouts hp" d "map_of ss" i] by (simp add: bindFanoutStore_def split: prod.split) (metis snd_conv)

lemma bind_next: "hpNext (snd (bindFanoutStore d ss i hp)) = hpNext hp"
  by (simp add: bindFanoutStore_def split: prod.split)

lemma make_fanouts_binds:
  assumes "make_fanouts depth cs acc hp = (Inr ss, hp')" "heap_ok hp" "\<forall>p \<in> set acc. bound_heap (hpFanouts hp) (snd p)"
  shows "(\<forall>p \<in> set ss. bound_heap (hpFanouts hp') (snd p)) \<and> heap_ok hp'
    \<and> fst ` set ss = fst ` set acc \<union> fst ` set (filter (\<lambda>c. is_fanout (snd c)) cs)"
  using assms
proof (induction cs arbitrary: acc hp)
  case Nil
  then show ?case by simp
next
  case (Cons p cs)
  obtain n c where p: "p = (n, c)" by (cases p)
  show ?case
  proof (cases c)
    case (FanoutProvider opts)
    obtain f where f: "fanout_new opts = Inr f" using Cons.prems(1) FanoutProvider by (cases "fanout_new opts") (auto simp: p)
    let ?i = "hpNext hp"
    let ?hp = "hp\<lparr>hpFanouts := (hpFanouts hp)(?i \<mapsto> f), hpNext := ?i + 1\<rparr>"
    obtain r hp1 where b: "bindFanoutStore depth acc ?i ?hp = (r, hp1)" by (rule prod.exhaust)
    obtain u where r: "r = Inr u" using Cons.prems(1) FanoutProvider f b by (cases r) (auto simp: p Let_def)
    have go: "make_fanouts depth cs (AList.update n ?i acc) hp1 = (Inr ss, hp')"
      using Cons.prems(1) FanoutProvider f b r by (simp add: p Let_def)
    have ext: "extends_heap (hpFanouts ?hp) (hpFanouts hp1)" using bind_extends [of ?hp depth acc ?i] b by simp
    have nx: "hpNext hp1 = ?i + 1" using bind_next [of depth acc ?i ?hp] b by simp
    have ok: "heap_ok hp1" using Cons.prems(2) extends_none [OF ext] nx by (simp add: heap_ok_def)
    have "\<exists>f'. hpFanouts hp1 ?i = Some f' \<and> is_bound (map_of acc) f' \<and> keeps_fanout f f'"
      using bind_bound [of depth "map_of acc" ?i "hpFanouts ?hp" u f] b r
      by (auto simp: bindFanoutStore_def split: prod.splits)
    then have new: "bound_heap (hpFanouts hp1) ?i" by (auto simp: bound_heap_def is_bound_def)
    have "bound_heap (hpFanouts hp1) (snd q)" if "q \<in> set acc" for q
    proof (cases "snd q = ?i")
      case False
      then have "bound_heap (hpFanouts ?hp) (snd q)" using that Cons.prems(3) by (simp add: bound_heap_def)
      then show ?thesis by (rule extends_bound [OF ext])
    qed (use new in simp)
    moreover have "set (AList.update n ?i acc) \<subseteq> insert (n, ?i) (set acc)" by (induction acc) auto
    ultimately have "\<forall>q \<in> set (AList.update n ?i acc). bound_heap (hpFanouts hp1) (snd q)" using new by fastforce
    from Cons.IH [OF go ok this] show ?thesis by (auto simp: p FanoutProvider is_fanout_def)
  qed (use Cons in \<open>simp_all add: p is_fanout_def\<close>)
qed

section \<open>Properties\<close>

text \<open>
  C39: A configuration that resolves is sound: its default store is one of its stores, exactly the
  configured names have stores, every fan-out store among them is bound to a primary, and automatic
  capture of authentication events is off under the transactional outbox.
\<close>

theorem resolved_config_sound:
  assumes "defineConfig depth cfg hp = (Inr rc, hp')" "hpFanouts hp = Map.empty"
  shows "rcDefault rc \<in> fst ` set (rcStores rc) \<and> fst ` set (rcStores rc) = fst ` set (acStores cfg)
    \<and> (\<forall>n i f. (n, i) \<in> set (rcStores rc) \<longrightarrow> hpFanouts hp' i = Some f \<longrightarrow> (\<exists>p. requirePrimary f = Inr p))
    \<and> (rcGuarantee rc = TransactionalOutbox \<longrightarrow> \<not> rcCaptureAuthEvents rc)"
proof -
  obtain plain ss where r: "resolve_stores (acStores cfg) [] = Inr plain" "make_fanouts depth (acStores cfg) plain hp = (Inr ss, hp')"
    "rc = resolved_of cfg (or_default (acDefault cfg) ''lucid'') ss" "or_default (acDefault cfg) ''lucid'' \<in> fst ` set (acStores cfg)"
    "\<not> (or_default (acGuarantee cfg) BestEffort = TransactionalOutbox \<and> acCaptureAuthEvents cfg = Some True)"
    using assms(1) by (auto simp: defineConfig_def result_iff Let_def split: if_splits sum.splits)
  have m: "\<forall>p \<in> set ss. bound_heap (hpFanouts hp') (snd p)"
    "fst ` set ss = fst ` set plain \<union> fst ` set (filter (\<lambda>c. is_fanout (snd c)) (acStores cfg))"
    using make_fanouts_binds [OF r(2)] assms(2) by (simp_all add: bound_heap_def heap_ok_def)
  have keys: "fst ` set (rcStores rc) = fst ` set (acStores cfg)"
    using m(2) resolve_stores_keys [OF r(1)] by (auto simp: r(3) resolved_of_def)
  have def: "rcDefault rc \<in> fst ` set (rcStores rc)" unfolding keys using r(4) by (simp add: r(3) resolved_of_def)
  have bound: "\<exists>p. requirePrimary f = Inr p" if "(n, i) \<in> set (rcStores rc)" "hpFanouts hp' i = Some f" for n i f
    using m(1) that by (fastforce simp: r(3) resolved_of_def bound_heap_def requirePrimary_def)
  have "\<not> rcCaptureAuthEvents rc" if "rcGuarantee rc = TransactionalOutbox"
    using that r(5) by (cases "acCaptureAuthEvents cfg") (auto simp: r(3) resolved_of_def capture_auth_def or_default_def)
  with keys def bound show ?thesis by blast
qed

text \<open>Two stores, the fan-out writing to the log file and mirrored to the collector, under the outbox.\<close>

definition plain_config :: "unit audit_config" where
  "plain_config =
     \<lparr>acDefault = Some ''all'', acGuarantee = Some TransactionalOutbox,
      acStores = [(''all'', FanoutProvider \<lparr>foPrimary = ByName ''file'', foMirrors = Some [ByName ''siem''], foMirrorFailure = None\<rparr>),
        (''file'', StoreFactory (Inr 0)), (''siem'', StoreProvider (Inr (Some 1)))],
      acRedaction = None, acRetention = None, acChain = None, acCryptoShredding = None, acQueue = None, acOutbox = None,
      acPayloadMaxBytes = None, acTenantResolver = None, acCaptureAuthEvents = None\<rparr>"

definition plain_heap :: object_heap where
  "plain_heap = \<lparr>hpFanouts = Map.empty, hpNext = 2\<rparr>"

lemma plain_config_stores:
  "resolve_stores (acStores plain_config) [] = Inr [(''file'', 0), (''siem'', 1)]"
  "fst (make_fanouts 8 (acStores plain_config) [(''file'', 0), (''siem'', 1)] plain_heap) = Inr [(''file'', 0), (''siem'', 1), (''all'', 2)]"
  "hpFanouts (snd (make_fanouts 8 (acStores plain_config) [(''file'', 0), (''siem'', 1)] plain_heap)) 2 \<noteq> None"
  by code_simp+

lemma plain_config_resolves:
  "fst (defineConfig 8 plain_config plain_heap) = Inr (resolved_of plain_config ''all'' [(''file'', 0), (''siem'', 1), (''all'', 2)])"
  "hpFanouts (snd (defineConfig 8 plain_config plain_heap)) 2 \<noteq> None"
  using plain_config_stores
  by (cases "make_fanouts 8 (acStores plain_config) [(''file'', 0), (''siem'', 1)] plain_heap";
      simp add: defineConfig_def Let_def, simp add: plain_config_def or_default_def)+

lemma resolved_config_sound_witness:
  "\<exists>rc hp' f. defineConfig 8 plain_config plain_heap = (Inr rc, hp') \<and> rcDefault rc \<in> fst ` set (rcStores rc)
     \<and> fst ` set (rcStores rc) = {''all'', ''file'', ''siem''} \<and> hpFanouts hp' 2 = Some f \<and> (\<exists>p. requirePrimary f = Inr p)
     \<and> \<not> rcCaptureAuthEvents rc"
proof -
  let ?rc = "resolved_of plain_config ''all'' [(''file'', 0), (''siem'', 1), (''all'', 2)]"
  obtain hp f where r: "defineConfig 8 plain_config plain_heap = (Inr ?rc, hp)" "hpFanouts hp 2 = Some f"
    using plain_config_resolves by (metis not_None_eq prod.collapse)
  have h: "hpFanouts plain_heap = Map.empty" by (simp add: plain_heap_def)
  have g: "rcGuarantee ?rc = TransactionalOutbox" "(''all'', 2) \<in> set (rcStores ?rc)"
    by (simp_all add: resolved_of_def plain_config_def or_default_def)
  have k: "fst ` set (acStores plain_config) = {''all'', ''file'', ''siem''}" by (simp add: plain_config_def)
  from resolved_config_sound [OF r(1) h]
  have sound: "rcDefault ?rc \<in> fst ` set (rcStores ?rc)" "fst ` set (rcStores ?rc) = {''all'', ''file'', ''siem''}"
    "\<exists>p. requirePrimary f = Inr p" "\<not> rcCaptureAuthEvents ?rc"
    using g r(2) k by simp_all blast+
  show ?thesis by (rule exI [of _ ?rc], rule exI [of _ hp], rule exI [of _ f]) (intro conjI r sound)
qed

end
