(* ===== verification/Binding.thy ===== *)
theory Binding
  imports DefineConfig
begin

text \<open>
  \<open>src/stores/fanout_store.ts\<close> and \<open>src/define_config.ts\<close> together: the binding of the configured
  fan-out stores recurses through the fan-out stores they refer to. A configuration only lets a
  fan-out store refer to stores made before it, so the recursion ends; fan-out stores that come
  from factories may refer to each other, and then it does not.
\<close>

section \<open>References point to earlier stores\<close>

definition ref_names :: "fanout_store \<Rightarrow> string set" where
  "ref_names f = {n. primaryRef f = ByName n \<or> ByName n \<in> set (mirrorRefs f)}"

definition ranked :: "(string \<Rightarrow> nat option) \<Rightarrow> fanout_heap \<Rightarrow> bool" where
  "ranked ss h \<longleftrightarrow> (\<forall>k f n m. h k = Some f \<longrightarrow> n \<in> ref_names f \<longrightarrow> ss n = Some m \<longrightarrow> m < k)"

lemma keeps_ref_names: "keeps_fanout f f' \<Longrightarrow> ref_names f' = ref_names f"
  by (simp add: keeps_fanout_def ref_names_def)

lemma extends_cases:
  assumes "extends_heap h h'" "h' k = Some f'"
  obtains f where "h k = Some f" "keeps_fanout f f'"
proof -
  have "rel_option keeps_fanout (h k) (h' k)" using assms(1) by (simp add: extends_heap_def)
  then show thesis using assms(2) that by (cases "h k") auto
qed

lemma extends_ranked: "extends_heap h h' \<Longrightarrow> ranked ss h \<Longrightarrow> ranked ss h'"
  unfolding ranked_def by (metis extends_cases keeps_ref_names)

lemma sbind_safe:
  "fst m \<noteq> Inl e \<Longrightarrow> (\<And>x. fst m = Inr x \<Longrightarrow> fst (f x (snd m)) \<noteq> Inl e) \<Longrightarrow> fst (sbind m f) \<noteq> Inl e"
  by (cases m; cases "fst m") auto

definition above :: "nat \<Rightarrow> fanout_heap \<Rightarrow> bool" where
  "above low h \<longleftrightarrow> (\<forall>k < low. h k = None)"

lemma extends_above: "extends_heap h h' \<Longrightarrow> above low h \<Longrightarrow> above low h'"
  by (simp add: above_def extends_none)

text \<open>Two frames for each fan-out store below are enough.\<close>

definition enough :: "nat \<Rightarrow> nat \<Rightarrow> nat \<Rightarrow> bool" where
  "enough low i d \<longleftrightarrow> 2 * (i - low) + 2 \<le> d"

definition binds_safely :: "(string \<Rightarrow> nat option) \<Rightarrow> nat \<Rightarrow> nat \<Rightarrow> bool" where
  "binds_safely ss low i \<longleftrightarrow>
     (\<forall>d h. ranked ss h \<longrightarrow> above low h \<longrightarrow> enough low i d \<longrightarrow> fst (bindStores d ss i h) \<noteq> Inl stack_overflow)"

lemma resolve_safe:
  assumes below: "\<And>k. k < i \<Longrightarrow> binds_safely ss low k"
    and "ranked ss h" "above low h" "\<And>n m. r = ByName n \<Longrightarrow> ss n = Some m \<Longrightarrow> m < i" "enough low i (Suc d)"
  shows "fst (resolveStore d ss r h) \<noteq> Inl stack_overflow"
proof -
  obtain n where d: "d = Suc n" using assms(5) by (cases d) (simp_all add: enough_def)
  show ?thesis
  proof (cases r)
    case (ByName nm)
    show ?thesis
    proof (cases "ss nm")
      case None
      then show ?thesis by (simp add: d ByName resolveStore.simps stack_overflow_def)
    next
      case (Some m)
      show ?thesis
      proof (cases "h m")
        case None
        then show ?thesis by (simp add: d ByName Some resolveStore.simps)
      next
        case (Some f)
        have m: "m < i" by (rule assms(4) [OF ByName \<open>ss nm = Some m\<close>])
        have "low \<le> m" using Some assms(3) unfolding above_def by (metis linorder_not_le option.distinct(1))
        then have "enough low m n" using assms(5) m by (simp add: enough_def d)
        then have "fst (bindStores n ss m h) \<noteq> Inl stack_overflow"
          using below [OF m] assms(2,3) by (simp add: binds_safely_def)
        then show ?thesis
          by (simp add: d ByName Some \<open>ss nm = Some m\<close> resolveStore.simps sbind_safe)
      qed
    qed
  qed (simp add: d resolveStore.simps)
qed

lemma resolve_refs_safe:
  assumes below: "\<And>k. k < i \<Longrightarrow> binds_safely ss low k"
    and "\<And>n m. ByName n \<in> set rs \<Longrightarrow> ss n = Some m \<Longrightarrow> m < i" "enough low i (Suc d)" "ranked ss h" "above low h"
  shows "fst (resolve_refs d ss rs h) \<noteq> Inl stack_overflow"
  using assms(2,4,5)
proof (induction rs arbitrary: h)
  case (Cons r rs)
  have 1: "fst (resolveStore d ss r h) \<noteq> Inl stack_overflow"
    by (rule resolve_safe [OF below Cons.prems(2,3) _ assms(3)]) (auto intro: Cons.prems(1))
  let ?h = "snd (resolveStore d ss r h)"
  have "extends_heap h ?h" by (rule binding_extends(2))
  then have 2: "fst (resolve_refs d ss rs ?h) \<noteq> Inl stack_overflow"
    using Cons.prems by (intro Cons.IH) (auto intro: extends_ranked extends_above)
  have "fst (sbind (resolveStore d ss r h) (\<lambda>i h. sbind (resolve_refs d ss rs h) (\<lambda>is h. (Inr (i # is), h)))) \<noteq> Inl stack_overflow"
    by (rule sbind_safe [OF 1], rule sbind_safe) (simp_all add: 2)
  then show ?case by simp
qed simp

lemma bind_safe: "binds_safely ss low i"
proof (induction i rule: less_induct)
  case (less i)
  show ?case unfolding binds_safely_def
  proof (intro allI impI)
    fix d h
    assume h: "ranked ss h" "above low h" "enough low i d"
    obtain n where d: "d = Suc n" using h(3) by (cases d) (simp_all add: enough_def)
    note n = h(3) [unfolded d]
    show "fst (bindStores d ss i h) \<noteq> Inl stack_overflow"
    proof (cases "h i")
      case None
      then show ?thesis by (simp add: d bindStores.simps)
    next
      case (Some f)
      have lower: "m < i" if "primaryRef f = ByName nm \<or> ByName nm \<in> set (mirrorRefs f)" "ss nm = Some m" for nm m
        using h(1) Some that by (auto simp: ranked_def ref_names_def)
      let ?step = "case primary f of Some p \<Rightarrow> (Inr (), h)
        | None \<Rightarrow> sbind (resolveStore n ss (primaryRef f) h) (\<lambda>p h. (Inr (), set_primary i p h))"
      have "fst (resolveStore n ss (primaryRef f) h) \<noteq> Inl stack_overflow"
        by (rule resolve_safe [OF less.IH h(1,2) _ n]) (auto intro: lower)
      then have 1: "fst ?step \<noteq> Inl stack_overflow" by (cases "primary f") (simp_all add: sbind_safe)
      have "extends_heap h (snd ?step)"
        using binding_extends(2) set_extends(1) by (cases "primary f") (auto intro!: sbind_extends)
      then have "fst (resolve_refs n ss (mirrorRefs f) (snd ?step)) \<noteq> Inl stack_overflow"
        using h(1,2) by (intro resolve_refs_safe [OF less.IH _ n]) (auto intro: lower extends_ranked extends_above)
      then show ?thesis
        unfolding d bindStores.simps [of "Suc n"] nat.case Some option.case by (intro sbind_safe [OF 1] sbind_safe) auto
    qed
  qed
qed

section \<open>The configured fan-out stores\<close>

lemma resolve_names: "fst (resolveStore d ss r h) = Inr p \<Longrightarrow> r = ByName n \<Longrightarrow> ss n \<noteq> None"
  using resolve_target [of d ss r h p] by (auto simp: target_def)

lemma resolve_refs_names: "fst (resolve_refs d ss rs h) = Inr ps \<Longrightarrow> ByName n \<in> set rs \<Longrightarrow> ss n \<noteq> None"
  using resolve_targets [of d ss rs h ps] by (fastforce simp: target_def list_all2_conv_all_nth in_set_conv_nth)

lemma bind_names:
  assumes "fst (bindStores d ss i h) = Inr u" "h i = Some f" "\<And>n. primaryRef f = ByName n \<Longrightarrow> primary f = None"
    and "n \<in> ref_names f"
  shows "ss n \<noteq> None"
proof -
  obtain k where d: "d = Suc k" using assms(1) by (cases d) (simp_all add: bindStores.simps)
  let ?step = "case primary f of Some p \<Rightarrow> (Inr (), h)
     | None \<Rightarrow> sbind (resolveStore k ss (primaryRef f) h) (\<lambda>p h. (Inr (), set_primary i p h))"
  obtain r1 h1 where s: "?step = (r1, h1)" by (rule prod.exhaust)
  obtain r2 h2 where m: "resolve_refs k ss (mirrorRefs f) h1 = (r2, h2)" by (rule prod.exhaust)
  have "bindStores d ss i h = sbind (r1, h1) (\<lambda>_ h. sbind (resolve_refs k ss (mirrorRefs f) h) (\<lambda>ms h. (Inr (), set_mirrors i ms h)))"
    unfolding d bindStores.simps [of "Suc k"] nat.case assms(2) option.case s by simp
  then obtain ms where ok: "r1 = Inr ()" "r2 = Inr ms" using assms(1) by (cases r1; cases r2) (simp_all add: m)
  show ?thesis
  proof (cases "primaryRef f = ByName n")
    case True
    then obtain p where "fst (resolveStore k ss (primaryRef f) h) = Inr p"
      using s ok assms(3) [OF True] by (auto simp: sbind_def split: prod.splits sum.splits)
    then show ?thesis by (rule resolve_names [OF _ True])
  next
    case False
    then have "ByName n \<in> set (mirrorRefs f)" using assms(4) by (simp add: ref_names_def)
    then show ?thesis using resolve_refs_names [of k ss "mirrorRefs f" h1 ms n] m ok by simp
  qed
qed

text \<open>What holds of the stores made so far: names lead to them, and references lead down.\<close>

definition wired :: "nat \<Rightarrow> (string \<times> nat) list \<Rightarrow> object_heap \<Rightarrow> bool" where
  "wired low acc hp \<longleftrightarrow>
     ranked (map_of acc) (hpFanouts hp) \<and> above low (hpFanouts hp) \<and> heap_ok hp
     \<and> (\<forall>k f n. hpFanouts hp k = Some f \<longrightarrow> n \<in> ref_names f \<longrightarrow> map_of acc n \<noteq> None)
     \<and> (\<forall>n m. map_of acc n = Some m \<longrightarrow> m < hpNext hp) \<and> low \<le> hpNext hp"

lemma fanout_new_unbound: "fanout_new opts = Inr f \<Longrightarrow> primaryRef f = ByName n \<Longrightarrow> primary f = None"
  by (auto simp: fanout_new_def Let_def split: if_splits)

lemma wired_fresh:
  assumes "wired low acc hp"
  shows "ranked (map_of acc) ((hpFanouts hp)(hpNext hp \<mapsto> f))" "above low ((hpFanouts hp)(hpNext hp \<mapsto> f))"
  using assms by (auto simp: wired_def ranked_def above_def)

lemma wired_step:
  assumes w: "wired low acc hp" and f: "fanout_new opts = Inr f"
    and b: "bindFanoutStore d acc (hpNext hp) (hp\<lparr>hpFanouts := (hpFanouts hp)(hpNext hp \<mapsto> f), hpNext := hpNext hp + 1\<rparr>) = (Inr u, hp1)"
    and fresh: "n \<notin> fst ` set acc"
  shows "wired low (AList.update n (hpNext hp) acc) hp1" "hpNext hp1 = hpNext hp + 1"
proof -
  let ?i = "hpNext hp"
  let ?h = "(hpFanouts hp)(?i \<mapsto> f)"
  have r: "fst (bindStores d (map_of acc) ?i ?h) = Inr u" "hpFanouts hp1 = snd (bindStores d (map_of acc) ?i ?h)"
    using b by (auto simp: bindFanoutStore_def split: prod.splits)
  show nx: "hpNext hp1 = ?i + 1"
    using bind_next [of d acc ?i "hp\<lparr>hpFanouts := ?h, hpNext := ?i + 1\<rparr>"] b by simp
  have ext: "extends_heap ?h (hpFanouts hp1)" unfolding r(2) by (rule binding_extends(1))
  have new: "map_of acc m \<noteq> None" if "m \<in> ref_names f" for m
    by (rule bind_names [OF r(1) _ fanout_new_unbound [OF f] that]) simp_all
  have old: "map_of acc m \<noteq> None" if "?h k = Some g" "m \<in> ref_names g" for k g m
    using that new w by (auto simp: wired_def split: if_splits)
  have known: "map_of acc m \<noteq> None" if "hpFanouts hp1 k = Some g" "m \<in> ref_names g" for k g m
    using extends_cases [OF ext that(1)] old that(2) keeps_ref_names by metis
  have none: "map_of acc n = None" using fresh by (simp add: map_of_eq_None_iff)
  have rank: "ranked (map_of acc) (hpFanouts hp1)" by (rule extends_ranked [OF ext wired_fresh(1) [OF w]])
  have "ranked ((map_of acc)(n \<mapsto> ?i)) (hpFanouts hp1)" unfolding ranked_def
  proof (intro allI impI)
    fix k g m j
    assume a: "hpFanouts hp1 k = Some g" "m \<in> ref_names g" "((map_of acc)(n \<mapsto> ?i)) m = Some j"
    then have "map_of acc m = Some j" using known [OF a(1,2)] none by (auto split: if_splits)
    then show "j < k" using rank a(1,2) by (auto simp: ranked_def)
  qed
  moreover have "above low (hpFanouts hp1)" by (rule extends_above [OF ext wired_fresh(2) [OF w]])
  moreover have "heap_ok hp1" using w extends_none [OF ext] nx by (simp add: heap_ok_def wired_def)
  ultimately show "wired low (AList.update n ?i acc) hp1"
    using known nx w by (auto simp: wired_def update_conv' less_SucI)
qed

lemma make_fanouts_safe:
  assumes "distinct (map fst cs)" "wired low acc hp" "fst ` set acc \<inter> fst ` set (filter (\<lambda>c. is_fanout (snd c)) cs) = {}"
    and "2 * (hpNext hp + length cs - low) + 2 \<le> d"
  shows "fst (make_fanouts d cs acc hp) \<noteq> Inl stack_overflow"
  using assms
proof (induction cs arbitrary: acc hp)
  case (Cons p cs)
  obtain n c where p: "p = (n, c)" by (cases p)
  have low: "low \<le> hpNext hp" using Cons.prems(2) by (simp add: wired_def)
  show ?case
  proof (cases c)
    case (FanoutProvider opts)
    let ?i = "hpNext hp"
    let ?hp = "\<lambda>f. hp\<lparr>hpFanouts := (hpFanouts hp)(?i \<mapsto> f), hpNext := ?i + 1\<rparr>"
    show ?thesis
    proof (cases "fanout_new opts")
      case (Inl e)
      then have "e \<noteq> stack_overflow" by (auto simp: fanout_new_def Let_def stack_overflow_def split: if_splits)
      then show ?thesis by (simp add: p FanoutProvider Inl)
    next
      case (Inr f)
      have "enough low ?i d" using Cons.prems(4) low by (simp add: enough_def)
      then have "fst (bindStores d (map_of acc) ?i ((hpFanouts hp)(?i \<mapsto> f))) \<noteq> Inl stack_overflow"
        using bind_safe [of "map_of acc" low ?i] wired_fresh [OF Cons.prems(2)] by (simp add: binds_safely_def)
      then have 1: "fst (bindFanoutStore d acc ?i (?hp f)) \<noteq> Inl stack_overflow"
        by (simp add: bindFanoutStore_def Let_def case_prod_unfold)
      have 2: "fst (make_fanouts d cs (AList.update n ?i acc) (snd (bindFanoutStore d acc ?i (?hp f)))) \<noteq> Inl stack_overflow"
        if ok: "fst (bindFanoutStore d acc ?i (?hp f)) = Inr u" for u
      proof -
        obtain hp1 where b: "bindFanoutStore d acc ?i (?hp f) = (Inr u, hp1)" using ok by (cases "bindFanoutStore d acc ?i (?hp f)") simp
        have fresh: "n \<notin> fst ` set acc" using Cons.prems(3) by (auto simp: p FanoutProvider is_fanout_def)
        note w = wired_step [OF Cons.prems(2) Inr b fresh]
        have "fst ` set (AList.update n ?i acc) \<inter> fst ` set (filter (\<lambda>c. is_fanout (snd c)) cs) = {}"
          using Cons.prems(1,3) by (auto simp: p FanoutProvider is_fanout_def keyset_update)
        then show ?thesis unfolding b snd_conv using Cons.prems(1,4) w low by (intro Cons.IH) simp_all
      qed
      have "fst (sbind (bindFanoutStore d acc ?i (?hp f)) (\<lambda>_. make_fanouts d cs (AList.update n ?i acc))) \<noteq> Inl stack_overflow"
        by (rule sbind_safe [OF 1]) (erule 2)
      then show ?thesis by (simp add: p FanoutProvider Inr Let_def)
    qed
  qed (use Cons in \<open>simp_all add: p is_fanout_def\<close>)
qed simp

text \<open>A store that is not a fan-out store: its factory yields a store older than those to come, or an error of its own.\<close>

definition plain_store_below :: "nat \<Rightarrow> store_config \<Rightarrow> bool" where
  "plain_store_below k c \<longleftrightarrow>
     is_fanout c \<or> (case resolveStoreConfig c of Inl e \<Rightarrow> e \<noteq> stack_overflow | Inr i \<Rightarrow> i < k)"

lemma resolve_stores_plain:
  assumes "\<And>c. c \<in> snd ` set cs \<Longrightarrow> plain_store_below k c" "\<forall>n m. map_of acc n = Some m \<longrightarrow> m < k"
  shows "resolve_stores cs acc \<noteq> Inl stack_overflow \<and> (\<forall>ss. resolve_stores cs acc = Inr ss \<longrightarrow> (\<forall>n m. map_of ss n = Some m \<longrightarrow> m < k))"
  using assms
proof (induction cs arbitrary: acc)
  case (Cons p cs)
  obtain n c where p: "p = (n, c)" by (cases p)
  have c: "plain_store_below k c" using Cons.prems(1) [of c] by (simp add: p)
  have rest: "resolve_stores cs a \<noteq> Inl stack_overflow \<and> (\<forall>ss. resolve_stores cs a = Inr ss \<longrightarrow> (\<forall>n m. map_of ss n = Some m \<longrightarrow> m < k))"
    if "\<forall>n m. map_of a n = Some m \<longrightarrow> m < k" for a
    by (rule Cons.IH [OF _ that]) (rule Cons.prems(1), simp add: p)
  show ?case
  proof (cases "is_fanout c")
    case True
    then show ?thesis using rest Cons.prems(2) by (simp add: p)
  next
    case False
    show ?thesis
    proof (cases "resolveStoreConfig c")
      case (Inl e)
      then show ?thesis using c False by (simp add: p plain_store_below_def)
    next
      case (Inr i)
      then have "\<forall>m j. map_of (AList.update n i acc) m = Some j \<longrightarrow> j < k"
        using c False Cons.prems(2) by (auto simp: plain_store_below_def update_conv')
      from rest [OF this] show ?thesis using Inr False by (simp add: p)
    qed
  qed
qed simp

section \<open>Properties\<close>

text \<open>
  C40: Resolving a configuration returns within a call stack that grows with the number of stores: the
  binding of fan-out stores, which recurses through their references, never overflows it, whatever
  the references are, since a configured fan-out store can only refer to stores made before it.
\<close>

theorem configuration_binds_without_overflow:
  assumes "distinct (map fst (acStores cfg))" "hpFanouts hp = Map.empty"
    and "\<And>c. c \<in> snd ` set (acStores cfg) \<Longrightarrow> plain_store_below (hpNext hp) c"
    and "2 * length (acStores cfg) + 2 \<le> depth"
  shows "fst (defineConfig depth cfg hp) \<noteq> Inl stack_overflow"
proof (cases "resolve_stores (acStores cfg) []")
  case (Inl e)
  then have "e \<noteq> stack_overflow" using resolve_stores_plain [OF assms(3)] by force
  then show ?thesis by (simp add: defineConfig_def Inl incompatible_capture_def stack_overflow_def)
next
  case (Inr plain)
  have "\<forall>n m. map_of plain n = Some m \<longrightarrow> m < hpNext hp"
    using resolve_stores_plain [of "acStores cfg" "hpNext hp" "[]"] assms(3) Inr by simp
  then have "wired (hpNext hp) plain hp"
    using Inr assms(2)
    by (simp add: wired_def ranked_def above_def heap_ok_def)
  moreover have "fst ` set plain \<inter> fst ` set (filter (\<lambda>c. is_fanout (snd c)) (acStores cfg)) = {}"
    using resolve_stores_keys [OF Inr] assms(1) by (auto simp: distinct_map dest: inj_onD)
  ultimately have "fst (make_fanouts depth (acStores cfg) plain hp) \<noteq> Inl stack_overflow"
    using assms(1,4) by (intro make_fanouts_safe [where low = "hpNext hp"]) simp_all
  then show ?thesis
    by (simp add: defineConfig_def Inr incompatible_capture_def stack_overflow_def Let_def sbind_safe)
qed

lemma configuration_binds_without_overflow_witness:
  "fst (defineConfig 8 plain_config plain_heap) \<noteq> Inl stack_overflow"
  by (rule configuration_binds_without_overflow)
     (auto simp: plain_config_def plain_heap_def plain_store_below_def is_fanout_def resolveStoreConfig_def)

text \<open>
  Fan-out stores made by factories are not restricted so: two that name each other overflow the
  call stack, however large it is.
\<close>

definition mutual_fanouts :: fanout_heap where
  "mutual_fanouts =
     [0 \<mapsto> \<lparr>primaryRef = ByName ''b'', mirrorRefs = [], mirrorFailure = LogFailure, primary = None, mirrors = None\<rparr>,
      1 \<mapsto> \<lparr>primaryRef = ByName ''a'', mirrorRefs = [], mirrorFailure = LogFailure, primary = None, mirrors = None\<rparr>]"

definition mutual_names :: "string \<Rightarrow> nat option" where
  "mutual_names = [''a'' \<mapsto> 0, ''b'' \<mapsto> 1]"

lemma mutual_fanouts_at:
  "mutual_fanouts 0 = Some \<lparr>primaryRef = ByName ''b'', mirrorRefs = [], mirrorFailure = LogFailure, primary = None, mirrors = None\<rparr>"
  "mutual_fanouts (Suc 0) = Some \<lparr>primaryRef = ByName ''a'', mirrorRefs = [], mirrorFailure = LogFailure, primary = None, mirrors = None\<rparr>"
  "mutual_names ''a'' = Some 0" "mutual_names ''b'' = Some (Suc 0)"
  by (simp_all add: mutual_fanouts_def mutual_names_def)

lemma mutual_fanouts_overflow:
  "fst (bindStores depth mutual_names 0 mutual_fanouts) = Inl stack_overflow
   \<and> fst (bindStores depth mutual_names 1 mutual_fanouts) = Inl stack_overflow"
proof (induction depth rule: less_induct)
  case (less d)
  show ?case
  proof (cases d)
    case (Suc e)
    then show ?thesis
    proof (cases e)
      case (Suc n)
      then have "n < d" using \<open>d = Suc e\<close> by simp
      from less [OF this] obtain h0 h1 where ih:
        "bindStores n mutual_names 0 mutual_fanouts = (Inl stack_overflow, h0)"
        "bindStores n mutual_names 1 mutual_fanouts = (Inl stack_overflow, h1)"
        by (metis prod.collapse)
      show ?thesis
        by (simp add: \<open>d = Suc e\<close> Suc bindStores.simps [of "Suc (Suc n)"] resolveStore.simps mutual_fanouts_at ih [simplified])
    qed (simp add: bindStores.simps resolveStore.simps mutual_fanouts_at)
  qed (simp add: bindStores.simps)
qed

end
