(* ===== verification/Spec2Isabelle.thy ===== *)
theory Spec2Isabelle
  imports Delivery Auditable LucidQuery StreamFile Binding
begin

text \<open>
  A model of the AdonisJS audit trail library.
\<close>

end
